(* ===== verification/BRM_Prelude.thy ===== *)
theory BRM_Prelude
  imports Main
begin

text \<open>
  What every component of the Block Resolution Manager model shares: the names of the
  C++ integer types, the outcome type of a C++ function, array accesses that are
  undefined outside the array, the loop combinators for the two loop shapes the sources
  use (a walk along a linked list of array slots, a scan for the first free slot), and
  the generic lemmas on lists and index sets the component theories rest on.
\<close>

section \<open>Types and outcomes\<close>

text \<open>
  Logical block ids and version numbers are only copied, compared and (ids) offset inside
  an allocated range, so they are modelled as mathematical integers; arithmetic that can
  leave its C++ width keeps its width in the theory that does it.
\<close>

type_synonym LBID_t = int
type_synonym VER_t = int
type_synonym OID_t = int

text \<open>Conversions to \<open>uint32_t\<close>, \<open>int\<close> (32 bits) and \<open>uint64_t\<close>.\<close>

definition u32_of :: "int \<Rightarrow> int" where
  "u32_of x = x mod 2 ^ 32"

definition s32_of :: "int \<Rightarrow> int" where
  "s32_of x = (x + 2 ^ 31) mod 2 ^ 32 - 2 ^ 31"

definition u64_of :: "int \<Rightarrow> int" where
  "u64_of x = x mod 2 ^ 64"

lemma u32_id: "0 \<le> x \<Longrightarrow> x < 2 ^ 32 \<Longrightarrow> u32_of x = x"
  by (simp add: u32_of_def)

lemma s32_id: "- (2 ^ 31) \<le> x \<Longrightarrow> x < 2 ^ 31 \<Longrightarrow> s32_of x = x"
  by (simp add: s32_of_def)

lemma u64_id: "0 \<le> x \<Longrightarrow> x < 18446744073709551616 \<Longrightarrow> u64_of x = x"
  by (simp add: u64_of_def)

text \<open>The exceptions the modelled functions throw, by their C++ class; \<open>IDBExcept\<close> carries its error code.\<close>

datatype exn = invalid_argument | logic_error | runtime_error | IDBExcept int

text \<open>The error code of a failed \<open>idbassert\<close>.\<close>

definition ERR_ASSERTION_FAILURE :: int where "ERR_ASSERTION_FAILURE = 2035"

text \<open>
  The outcome of a C++ function: \<^term>\<open>None\<close> when it does not return or reads or writes
  outside an array (undefined behaviour), \<^term>\<open>Some (Inl e)\<close> when it throws \<open>e\<close>, and
  \<^term>\<open>Some (Inr x)\<close> when it returns \<open>x\<close>.
\<close>

type_synonym 'a cpp = "(exn + 'a) option"

named_theorems brm_simps "unfolding rules of the array and outcome primitives"

definition ret :: "'a \<Rightarrow> 'a cpp" where
  "ret x = Some (Inr x)"

definition throw :: "exn \<Rightarrow> 'a cpp" where
  "throw e = Some (Inl e)"

definition bind_cpp :: "'a cpp \<Rightarrow> ('a \<Rightarrow> 'b cpp) \<Rightarrow> 'b cpp" where
  "bind_cpp m f = (case m of None \<Rightarrow> None | Some (Inl e) \<Rightarrow> Some (Inl e) | Some (Inr x) \<Rightarrow> f x)"

definition defined :: "'a option \<Rightarrow> 'a cpp" where
  "defined m = (case m of None \<Rightarrow> None | Some x \<Rightarrow> Some (Inr x))"

lemma bind_cpp_simps [simp]:
  "bind_cpp None f = None"
  "bind_cpp (Some (Inl e)) f = Some (Inl e)"
  "bind_cpp (Some (Inr x)) f = f x"
  by (simp_all add: bind_cpp_def)

lemma bind_cpp_ret [simp]: "bind_cpp (ret x) f = f x"
  by (simp add: ret_def)

lemma bind_cpp_throw [simp]: "bind_cpp (throw e) f = throw e"
  by (simp add: throw_def)

lemma bind_cpp_eq_ret:
  "bind_cpp m f = ret y \<longleftrightarrow> (\<exists>x. m = ret x \<and> f x = ret y)"
  by (auto simp: bind_cpp_def ret_def split: option.splits sum.splits)

lemma defined_simps [simp]: "defined None = None" "defined (Some x) = ret x"
  by (simp_all add: defined_def ret_def)

lemma ret_inject [simp]: "ret x = ret y \<longleftrightarrow> x = y"
  by (simp add: ret_def)

lemma ret_not_throw [simp]: "ret x \<noteq> throw e" "throw e \<noteq> ret x"
  by (simp_all add: ret_def throw_def)

lemma ret_not_None [simp]: "ret x \<noteq> None" "None \<noteq> ret x"
  by (simp_all add: ret_def)

lemma throw_not_None [simp]: "throw e \<noteq> None" "None \<noteq> throw e"
  by (simp_all add: throw_def)

section \<open>Arrays\<close>

text \<open>\<open>a[i]\<close> for an \<open>int\<close> index: undefined outside the array.\<close>

definition arr_get :: "'a list \<Rightarrow> int \<Rightarrow> 'a option" where
  "arr_get xs i = (if 0 \<le> i \<and> i < int (length xs) then Some (xs ! nat i) else None)"

lemma arr_get_nat [simp]: "k < length xs \<Longrightarrow> arr_get xs (int k) = Some (xs ! k)"
  by (simp add: arr_get_def)

lemma arr_get_neg [simp]: "arr_get xs (- 1) = None"
  by (simp add: arr_get_def)

section \<open>Loops\<close>

text \<open>
  \<open>for (i = head; i != -1; i = next(i)) body\<close>. The body answers \<^term>\<open>Inl r\<close> to leave the
  loop with \<open>r\<close> (a \<open>return\<close> or \<open>break\<close>) and \<^term>\<open>Inr s\<close> to go on with the state \<open>s\<close>; the
  link is read in the state the body left. \<^term>\<open>None\<close> is a body or link access outside the
  array, or a walk that never reaches \<open>-1\<close>.
\<close>

partial_function (option) for_chain ::
  "('s \<Rightarrow> int \<Rightarrow> int option) \<Rightarrow> (int \<Rightarrow> 's \<Rightarrow> ('r + 's) option) \<Rightarrow> int \<Rightarrow> 's \<Rightarrow> ('r + 's) option"
where
  "for_chain nxt body i s =
     (if i = -1 then Some (Inr s)
      else Option.bind (body i s)
        (\<lambda>out. case out of
            Inl r \<Rightarrow> Some (Inl r)
          | Inr s' \<Rightarrow> Option.bind (nxt s' i) (\<lambda>j. for_chain nxt body j s')))"

lemma for_chain_end [simp]: "for_chain nxt body (- 1) s = Some (Inr s)"
  by (simp add: for_chain.simps)

text \<open>
  The same loop when the body only reads the array: the loop state is the accumulators,
  \<open>f acc i e\<close> is the body at slot \<open>i\<close> holding \<open>e\<close>.
\<close>

definition scan_chain ::
  "('e \<Rightarrow> int) \<Rightarrow> 'e list \<Rightarrow> ('a \<Rightarrow> int \<Rightarrow> 'e \<Rightarrow> 'r + 'a) \<Rightarrow> int \<Rightarrow> 'a \<Rightarrow> ('r + 'a) option"
where
  "scan_chain nxt st f i acc =
     for_chain (\<lambda>_ j. map_option nxt (arr_get st j))
       (\<lambda>j a. map_option (f a j) (arr_get st j)) i acc"

text \<open>A left-to-right pass over a list that may stop early.\<close>

fun fold_exit :: "('a \<Rightarrow> 'b \<Rightarrow> 'r + 'a) \<Rightarrow> 'b list \<Rightarrow> 'a \<Rightarrow> 'r + 'a" where
  "fold_exit f [] a = Inr a"
| "fold_exit f (x # xs) a = (case f a x of Inl r \<Rightarrow> Inl r | Inr a' \<Rightarrow> fold_exit f xs a')"

lemma fold_exit_append:
  "fold_exit f (xs @ ys) a = (case fold_exit f xs a of Inl r \<Rightarrow> Inl r | Inr a' \<Rightarrow> fold_exit f ys a')"
  by (induction xs arbitrary: a) (auto split: sum.splits)

lemma fold_exit_continue:
  "(\<And>a x. x \<in> set xs \<Longrightarrow> f a x = Inr (g x a)) \<Longrightarrow> fold_exit f xs a = Inr (fold g xs a)"
  by (induction xs arbitrary: a) auto

text \<open>A pass that stops at the first element with a property.\<close>

lemma fold_exit_find:
  "fold_exit (\<lambda>a x. if P x then Inl (r x) else Inr a) xs a =
     (case find P xs of Some x \<Rightarrow> Inl (r x) | None \<Rightarrow> Inr a)"
  by (induction xs) auto

lemma fold_exit_find_unit:
  "fold_exit (\<lambda>_ x. if P x then Inl (r x) else Inr ()) xs () =
     (case find P xs of Some x \<Rightarrow> Inl (r x) | None \<Rightarrow> Inr ())"
  by (induction xs) auto

text \<open>
  The rule for such a pass: \<open>I ps a\<close> relates the elements passed so far and the state, \<open>Q\<close>
  holds of every result a step exits with.
\<close>

lemma fold_exit_rule:
  assumes start: "I [] a"
    and step: "\<And>ps x qs a. xs = ps @ x # qs \<Longrightarrow> I ps a \<Longrightarrow>
      (case f a x of Inl r \<Rightarrow> Q r | Inr a' \<Rightarrow> I (ps @ [x]) a')"
  shows "case fold_exit f xs a of Inl r \<Rightarrow> Q r | Inr a' \<Rightarrow> I xs a'"
proof -
  have "xs = ps @ qs \<Longrightarrow> I ps a \<Longrightarrow> (case fold_exit f qs a of Inl r \<Rightarrow> Q r | Inr a' \<Rightarrow> I xs a')" for ps qs a
  proof (induction qs arbitrary: ps a)
    case (Cons x qs)
    show ?case
    proof (cases "f a x")
      case (Inl r)
      with step [OF Cons.prems] show ?thesis by simp
    next
      case (Inr a')
      with step [OF Cons.prems] Cons.IH [of "ps @ [x]" a'] Cons.prems(1) show ?thesis by simp
    qed
  qed simp
  from this [of "[]" xs a] start show ?thesis by simp
qed

text \<open>A loop over a list whose body may throw.\<close>

fun for_each :: "('a \<Rightarrow> unit cpp) \<Rightarrow> 'a list \<Rightarrow> unit cpp" where
  "for_each f [] = ret ()"
| "for_each f (x # xs) = bind_cpp (f x) (\<lambda>_. for_each f xs)"

lemma for_each_ok: "(\<And>x. x \<in> set xs \<Longrightarrow> f x = ret ()) \<Longrightarrow> for_each f xs = ret ()"
  by (induction xs) auto

lemma for_each_ret: "for_each f xs = ret u \<longleftrightarrow> (\<forall>x \<in> set xs. f x = ret ())"
  by (induction xs) (auto simp: bind_cpp_eq_ret)

text \<open>\<open>while (slot i is in use) i++;\<close> undefined when the scan leaves the array.\<close>

function find_free :: "('e \<Rightarrow> bool) \<Rightarrow> 'e list \<Rightarrow> nat \<Rightarrow> nat option" where
  "find_free busy st i =
     (if i < length st then (if busy (st ! i) then find_free busy st (Suc i) else Some i) else None)"
  by pat_completeness auto
termination
  by (relation "measure (\<lambda>(busy, st, i). length st - i)") auto

declare find_free.simps [simp del]

lemma find_free_Some:
  "find_free busy st i = Some k \<Longrightarrow>
     i \<le> k \<and> k < length st \<and> \<not> busy (st ! k) \<and> (\<forall>j. i \<le> j \<and> j < k \<longrightarrow> busy (st ! j))"
proof (induction busy st i rule: find_free.induct)
  case (1 busy st i)
  show ?case
  proof (cases "i < length st \<and> busy (st ! i)")
    case True
    with "1.prems" have "find_free busy st (Suc i) = Some k"
      by (simp add: find_free.simps [of busy st i])
    with "1.IH" True have *: "Suc i \<le> k \<and> k < length st \<and> \<not> busy (st ! k) \<and>
        (\<forall>j. Suc i \<le> j \<and> j < k \<longrightarrow> busy (st ! j))" by blast
    show ?thesis
    proof (intro conjI allI impI)
      fix j assume j: "i \<le> j \<and> j < k"
      show "busy (st ! j)" using * True j by (cases "j = i") auto
    qed (use * in auto)
  next
    case False
    with "1.prems" show ?thesis
      by (auto simp: find_free.simps [of busy st i] split: if_splits)
  qed
qed

lemma find_free_exists:
  "i \<le> k \<Longrightarrow> k < length st \<Longrightarrow> \<not> busy (st ! k) \<Longrightarrow> \<exists>m. find_free busy st i = Some m \<and> m \<le> k"
proof (induction busy st i rule: find_free.induct)
  case (1 busy st i)
  show ?case
  proof (cases "busy (st ! i)")
    case True
    with "1.prems" have "i \<noteq> k" by auto
    with "1.prems" have "Suc i \<le> k" "i < length st" by auto
    with "1.IH" True "1.prems" obtain m where "find_free busy st (Suc i) = Some m" "m \<le> k"
      by blast
    with True \<open>i < length st\<close> show ?thesis by (simp add: find_free.simps [of busy st i])
  next
    case False
    with "1.prems" show ?thesis by (simp add: find_free.simps [of busy st i])
  qed
qed

section \<open>Index sets of array slots\<close>

text \<open>The slots in use: the index set the tables' size counters count.\<close>

definition live_ix :: "('e \<Rightarrow> bool) \<Rightarrow> 'e list \<Rightarrow> nat set" where
  "live_ix used st = {k. k < length st \<and> used (st ! k)}"

lemma live_ix_finite [simp]: "finite (live_ix used st)"
  by (simp add: live_ix_def)

lemma live_ix_less: "k \<in> live_ix used st \<Longrightarrow> k < length st"
  by (simp add: live_ix_def)

lemma live_ix_used: "k \<in> live_ix used st \<Longrightarrow> used (st ! k)"
  by (simp add: live_ix_def)

lemma live_ixI: "k < length st \<Longrightarrow> used (st ! k) \<Longrightarrow> k \<in> live_ix used st"
  by (simp add: live_ix_def)

lemma live_ix_nth_upd: "i \<notin> live_ix used st \<Longrightarrow> k \<in> live_ix used st \<Longrightarrow> st[i := e] ! k = st ! k"
  by (metis nth_list_update_neq)

lemma live_ix_Nil [simp]: "live_ix used [] = {}"
  by (simp add: live_ix_def)

lemma live_ix_upd_used: "i < length st \<Longrightarrow> used e \<Longrightarrow> live_ix used (st[i := e]) = insert i (live_ix used st)"
  by (auto simp: live_ix_def nth_list_update)

lemma live_ix_upd_free:
  "i < length st \<Longrightarrow> \<not> used e \<Longrightarrow> live_ix used (st[i := e]) = live_ix used st - {i}"
  by (auto simp: live_ix_def nth_list_update split: if_splits)

lemma live_ix_upd_same:
  "i < length st \<Longrightarrow> used e = used (st ! i) \<Longrightarrow> live_ix used (st[i := e]) = live_ix used st"
  by (auto simp: live_ix_def nth_list_update split: if_splits)

lemma card_live_ix: "card (live_ix used st) = length (filter used st)"
  by (simp add: live_ix_def length_filter_conv_card)

lemma card_live_ix_le: "card (live_ix used st) \<le> length st"
  by (simp add: card_live_ix)

lemma card_live_ix_less: "k < length st \<Longrightarrow> \<not> used (st ! k) \<Longrightarrow> card (live_ix used st) < length st"
proof -
  assume k: "k < length st" "\<not> used (st ! k)"
  then have "live_ix used st \<subset> {..<length st}" by (auto simp: live_ix_def)
  then have "card (live_ix used st) < card {..<length st}" by (rule psubset_card_mono [rotated]) simp
  then show ?thesis by simp
qed

lemma live_ix_full: "card (live_ix used st) = length st \<Longrightarrow> k < length st \<Longrightarrow> used (st ! k)"
  using card_live_ix_less by fastforce

lemma live_ix_not_full: "card (live_ix used st) < length st \<Longrightarrow> \<exists>k < length st. \<not> used (st ! k)"
proof (rule ccontr)
  assume lt: "card (live_ix used st) < length st" and "\<not> (\<exists>k < length st. \<not> used (st ! k))"
  then have "live_ix used st = {..<length st}" by (auto simp: live_ix_def)
  with lt show False by simp
qed

lemma upt_split_at: "[0..<n] = ps @ x # qs \<Longrightarrow> x = length ps \<and> x < n"
proof -
  assume eq: "[0..<n] = ps @ x # qs"
  have "length ps < n" using arg_cong [OF eq, of length] by simp
  moreover have "[0..<n] ! length ps = x" unfolding eq by simp
  ultimately show ?thesis by simp
qed

lemma nth_upd_cases: "j < length xs \<Longrightarrow> xs[i := v] ! j = (if i = j then v else xs ! j)"
  by (cases "i = j") simp_all

end
