(* ===== verification/Hash_Chain.thy ===== *)
theory Hash_Chain
  imports BRM_Prelude
begin

text \<open>
  The linked-list-in-an-array hash table that \<open>VSS\<close> and \<open>VBBM\<close> share (both classes carry
  the same structure: \<open>hashBuckets[numHashBuckets]\<close> holds the slot of the first entry of a
  bucket or -1, \<open>storage[capacity]\<close> the entries, each with the slot of the \<open>next\<close> entry of
  its bucket). The locale \<open>hash_table\<close> states what an entry type must offer; its lemmas are
  proved once and used by both tables through their interpretations.
\<close>

section \<open>Chains of slots\<close>

text \<open>\<open>chain nxt st i ks\<close>: following the links from \<open>i\<close> visits exactly the slots \<open>ks\<close>, then -1.\<close>

fun chain :: "('e \<Rightarrow> int) \<Rightarrow> 'e list \<Rightarrow> int \<Rightarrow> nat list \<Rightarrow> bool" where
  "chain nxt st i [] \<longleftrightarrow> i = -1"
| "chain nxt st i (k # ks) \<longleftrightarrow> i = int k \<and> k < length st \<and> chain nxt st (nxt (st ! k)) ks"

named_theorems chain_simps "rules about chains of slots"

lemma chain_end [simp]: "chain nxt st (- 1) ks \<longleftrightarrow> ks = []"
  by (cases ks) auto

lemma chain_not_end: "chain nxt st i ks \<Longrightarrow> i \<noteq> -1 \<Longrightarrow> \<exists>k ks'. ks = k # ks' \<and> i = int k"
  by (cases ks) auto

lemma chain_unique: "chain nxt st i ks \<Longrightarrow> chain nxt st i ks' \<Longrightarrow> ks = ks'"
proof (induction ks arbitrary: i ks')
  case (Cons k ks)
  then show ?case by (cases ks') auto
qed simp

lemma chain_append:
  "chain nxt st i (ks @ ls) \<Longrightarrow> \<exists>j. chain nxt st j ls"
  by (induction ks arbitrary: i) auto

lemma chain_less: "chain nxt st i ks \<Longrightarrow> k \<in> set ks \<Longrightarrow> k < length st"
  by (induction ks arbitrary: i) auto

text \<open>A chain that ends never visits a slot twice.\<close>

lemma chain_head_notin_tail: "chain nxt st (nxt (st ! k)) ks \<Longrightarrow> k \<notin> set ks"
proof
  assume c: "chain nxt st (nxt (st ! k)) ks" and "k \<in> set ks"
  then obtain ps qs where ks: "ks = ps @ k # qs" by (meson split_list)
  with c obtain j where "chain nxt st j (k # qs)" using chain_append by metis
  then have "chain nxt st (nxt (st ! k)) qs" by simp
  with c have "ks = qs" by (rule chain_unique)
  with ks show False by simp
qed

lemma chain_distinct: "chain nxt st i ks \<Longrightarrow> distinct ks"
  by (induction ks arbitrary: i) (auto dest: chain_head_notin_tail)

lemma chain_upd_notin [chain_simps]:
  "k \<notin> set ks \<Longrightarrow> chain nxt (st[k := e]) i ks \<longleftrightarrow> chain nxt st i ks"
proof (induction ks arbitrary: i)
  case (Cons a ks)
  then have "k \<noteq> a" "k \<notin> set ks" by auto
  then show ?case using Cons.IH by simp
qed simp

lemma chain_upd_same_nxt [chain_simps]:
  assumes "nxt e = nxt (st ! k)"
  shows "chain nxt (st[k := e]) i ks \<longleftrightarrow> chain nxt st i ks"
proof (induction ks arbitrary: i)
  case (Cons a ks)
  have "a < length st \<Longrightarrow> nxt (st[k := e] ! a) = nxt (st ! a)"
    using assms nth_upd_cases [of a st k e] by metis
  then show ?case unfolding chain.simps length_list_update Cons.IH by metis
qed simp

lemma chain_map_same_nxt:
  "(\<And>e. nxt (f e) = nxt e) \<Longrightarrow> chain nxt (map f st) i ks \<longleftrightarrow> chain nxt st i ks"
  by (induction ks arbitrary: i) auto

text \<open>
  A read-only walk over a chain is an ordinary pass over the list of its slots: it
  terminates and stays inside the array.
\<close>

lemma scan_chain_eq:
  "chain nxt st i ks \<Longrightarrow>
     scan_chain nxt st f i acc = Some (fold_exit (\<lambda>a k. f a (int k) (st ! k)) ks acc)"
proof (induction ks arbitrary: i acc)
  case Nil
  then show ?case by (simp add: scan_chain_def)
next
  case (Cons k ks)
  then have k: "i = int k" "k < length st" "chain nxt st (nxt (st ! k)) ks" by auto
  show ?case
  proof (cases "f acc (int k) (st ! k)")
    case (Inl r)
    with k show ?thesis by (simp add: scan_chain_def for_chain.simps [of _ _ "int k"])
  next
    case (Inr acc')
    with k Cons.IH [OF k(3), of acc'] show ?thesis
      by (simp add: scan_chain_def for_chain.simps [of _ _ "int k"])
  qed
qed

text \<open>Segments of a chain, for splitting it at a slot.\<close>

fun path :: "('e \<Rightarrow> int) \<Rightarrow> 'e list \<Rightarrow> int \<Rightarrow> nat list \<Rightarrow> int \<Rightarrow> bool" where
  "path nxt st i [] j \<longleftrightarrow> i = j"
| "path nxt st i (k # ks) j \<longleftrightarrow> i = int k \<and> k < length st \<and> path nxt st (nxt (st ! k)) ks j"

lemma chain_append_path:
  "chain nxt st i (ks @ ls) \<longleftrightarrow> (\<exists>j. path nxt st i ks j \<and> chain nxt st j ls)"
  by (induction ks arbitrary: i) auto

lemma path_upd_notin [chain_simps]:
  "k \<notin> set ks \<Longrightarrow> path nxt (st[k := e]) i ks j \<longleftrightarrow> path nxt st i ks j"
proof (induction ks arbitrary: i)
  case (Cons a ks)
  then have "k \<noteq> a" "k \<notin> set ks" by auto
  then show ?case using Cons.IH by simp
qed simp

text \<open>The slot a chain starts at, and the predecessor of a chain's remainder.\<close>

definition head_of :: "nat list \<Rightarrow> int" where
  "head_of ks = (case ks of [] \<Rightarrow> -1 | k # _ \<Rightarrow> int k)"

definition prev_of :: "nat list \<Rightarrow> int" where
  "prev_of ks = (if ks = [] then -1 else int (last ks))"

lemma head_of_simps [simp]: "head_of [] = -1" "head_of (k # ks) = int k"
  by (simp_all add: head_of_def)

lemma prev_of_simps [simp]: "prev_of [] = -1" "prev_of (ks @ [k]) = int k"
  by (simp_all add: prev_of_def)

lemma chain_head: "chain nxt st i ks \<Longrightarrow> i = head_of ks"
  by (cases ks) auto

text \<open>
  A loop that mutates the table while it walks a chain: if each iteration keeps the
  invariant, returns, and leaves the visited slot's link pointing at the rest of the chain,
  the loop ends with the invariant for the empty rest.
\<close>

lemma for_chain_rule:
  assumes step: "\<And>s k ks. Inv s (k # ks) \<Longrightarrow>
      \<exists>s'. body (int k) s = Some (Inr s') \<and> nxt s' (int k) = Some (head_of ks) \<and> Inv s' ks"
    and start: "Inv s ks"
  shows "\<exists>s'. for_chain nxt body (head_of ks) s = Some (Inr s') \<and> Inv s' []"
  using start
proof (induction ks arbitrary: s)
  case Nil
  then show ?case by simp
next
  case (Cons k ks)
  from step [OF Cons.prems] obtain s' where
    s': "body (int k) s = Some (Inr s')" "nxt s' (int k) = Some (head_of ks)" "Inv s' ks" by blast
  from Cons.IH [OF s'(3)] obtain t where
    "for_chain nxt body (head_of ks) s' = Some (Inr t)" "Inv t []" by blast
  with s' show ?case by (simp add: for_chain.simps [of _ _ "int k"])
qed

section \<open>Well-formed tables\<close>

text \<open>
  Every bucket heads a chain that ends, and the chain of bucket \<open>b\<close> holds exactly the used
  slots whose entry hashes to \<open>b\<close>.
\<close>

definition hash_wf ::
  "('e \<Rightarrow> bool) \<Rightarrow> ('e \<Rightarrow> int) \<Rightarrow> (int \<Rightarrow> 'e \<Rightarrow> int) \<Rightarrow> int \<Rightarrow> int list \<Rightarrow> 'e list \<Rightarrow> bool"
where
  "hash_wf used nxt bucket n bs st \<longleftrightarrow>
     0 < n \<and> int (length bs) = n \<and>
     (\<forall>b < length bs. \<exists>ks. chain nxt st (bs ! b) ks \<and>
        set ks = {k \<in> live_ix used st. bucket n (st ! k) = int b})"

lemma hash_wf_chain:
  assumes "hash_wf used nxt bucket n bs st" and "b < length bs"
  obtains ks where "chain nxt st (bs ! b) ks"
    and "set ks = {k \<in> live_ix used st. bucket n (st ! k) = int b}" and "distinct ks"
proof -
  from assms obtain ks where "chain nxt st (bs ! b) ks"
    and "set ks = {k \<in> live_ix used st. bucket n (st ! k) = int b}"
    unfolding hash_wf_def by blast
  with chain_distinct that show thesis by blast
qed

lemma hash_wf_pos: "hash_wf used nxt bucket n bs st \<Longrightarrow> 0 < n"
  unfolding hash_wf_def by blast

lemma hash_wf_len: "hash_wf used nxt bucket n bs st \<Longrightarrow> int (length bs) = n"
  unfolding hash_wf_def by blast

lemma hash_wfI:
  assumes "0 < n" and "int (length bs) = n"
    and "\<And>b. b < length bs \<Longrightarrow> \<exists>ks. chain nxt st (bs ! b) ks \<and>
        set ks = {k \<in> live_ix used st. bucket n (st ! k) = int b}"
  shows "hash_wf used nxt bucket n bs st"
  unfolding hash_wf_def using assms by blast

lemma hash_wf_empty:
  "0 < n \<Longrightarrow> (\<And>e. e \<in> set st \<Longrightarrow> \<not> used e) \<Longrightarrow>
   hash_wf used nxt bucket n (replicate (nat n) (-1)) st"
  by (auto simp: hash_wf_def live_ix_def intro!: exI [of _ "[]"])

text \<open>Unlinking slot \<open>i\<close>: the code of both tables, with \<open>prev = -1\<close> for the bucket head.\<close>

definition unlink_st :: "('e \<Rightarrow> int) \<Rightarrow> (int \<Rightarrow> 'e \<Rightarrow> 'e) \<Rightarrow> ('e \<Rightarrow> 'e) \<Rightarrow> int \<Rightarrow> nat \<Rightarrow> 'e list \<Rightarrow> 'e list" where
  "unlink_st nxt set_nxt retire prev i st =
     (let st1 = st[i := retire (st ! i)]
      in if prev = -1 then st1
         else st1[nat prev := set_nxt (nxt (st1 ! i)) (st1 ! nat prev)])"

definition unlink_bs :: "('e \<Rightarrow> int) \<Rightarrow> ('e \<Rightarrow> 'e) \<Rightarrow> int \<Rightarrow> nat \<Rightarrow> nat \<Rightarrow> 'e list \<Rightarrow> int list \<Rightarrow> int list" where
  "unlink_bs nxt retire prev i b st bs =
     (if prev = -1 then bs[b := nxt (st ! i)] else bs)"

section \<open>The table as a map\<close>

text \<open>The used slots hold different keys; the table maps each of them to its value.\<close>

definition keys_inj :: "('e \<Rightarrow> bool) \<Rightarrow> ('e \<Rightarrow> 'k) \<Rightarrow> 'e list \<Rightarrow> bool" where
  "keys_inj used key st \<longleftrightarrow> inj_on (\<lambda>k. key (st ! k)) (live_ix used st)"

definition table :: "('e \<Rightarrow> bool) \<Rightarrow> ('e \<Rightarrow> 'k) \<Rightarrow> ('e \<Rightarrow> 'v) \<Rightarrow> 'e list \<Rightarrow> 'k \<rightharpoonup> 'v" where
  "table used key val st = map_of (map (\<lambda>e. (key e, val e)) (filter used st))"

lemma keys_injD:
  "keys_inj used key st \<Longrightarrow> j \<in> live_ix used st \<Longrightarrow> k \<in> live_ix used st \<Longrightarrow>
     key (st ! j) = key (st ! k) \<Longrightarrow> j = k"
  by (auto simp: keys_inj_def dest: inj_onD)

lemma keys_injI:
  "(\<And>j k. j \<in> live_ix used st \<Longrightarrow> k \<in> live_ix used st \<Longrightarrow> key (st ! j) = key (st ! k) \<Longrightarrow> j = k) \<Longrightarrow>
     keys_inj used key st"
  by (auto simp: keys_inj_def intro: inj_onI)

lemma keys_inj_distinct: "keys_inj used key st \<Longrightarrow> distinct (map key (filter used st))"
proof (induction st)
  case (Cons e st)
  have "keys_inj used key st"
  proof (rule keys_injI)
    fix j k assume "j \<in> live_ix used st" "k \<in> live_ix used st" "key (st ! j) = key (st ! k)"
    then show "j = k"
      using keys_injD [OF Cons.prems, of "Suc j" "Suc k"] by (simp add: live_ix_def)
  qed
  moreover have "key e \<notin> key ` set (filter used st)" if "used e"
  proof
    assume "key e \<in> key ` set (filter used st)"
    then obtain k where "k < length st" "used (st ! k)" "key (st ! k) = key e"
      by (auto simp: in_set_conv_nth)
    then show False
      using that keys_injD [OF Cons.prems, of 0 "Suc k"] by (simp add: live_ix_def)
  qed
  ultimately show ?case using Cons.IH by auto
qed simp

lemma table_Some:
  assumes "keys_inj used key st"
  shows "table used key val st x = Some y \<longleftrightarrow> (\<exists>k \<in> live_ix used st. key (st ! k) = x \<and> val (st ! k) = y)"
proof -
  have "distinct (map fst (map (\<lambda>e. (key e, val e)) (filter used st)))"
    using keys_inj_distinct [OF assms] by (simp add: comp_def)
  then have "table used key val st x = Some y \<longleftrightarrow> (x, y) \<in> set (map (\<lambda>e. (key e, val e)) (filter used st))"
    unfolding table_def by (metis map_of_eq_Some_iff)
  also have "\<dots> \<longleftrightarrow> (\<exists>k \<in> live_ix used st. key (st ! k) = x \<and> val (st ! k) = y)"
    by (auto simp: live_ix_def in_set_conv_nth)
  finally show ?thesis .
qed

lemma table_live:
  "keys_inj used key st \<Longrightarrow> k \<in> live_ix used st \<Longrightarrow> table used key val st (key (st ! k)) = Some (val (st ! k))"
  by (auto simp: table_Some)

lemma table_None:
  "table used key val st x = None \<longleftrightarrow> (\<forall>k \<in> live_ix used st. key (st ! k) \<noteq> x)"
  by (force simp: table_def map_of_eq_None_iff live_ix_def in_set_conv_nth)

text \<open>A map is determined by its graph; the form in which table updates are compared.\<close>

lemma map_eqI: "(\<And>x y. m x = Some y \<longleftrightarrow> m' x = Some y) \<Longrightarrow> m = m'"
  by (metis ext not_Some_eq)

lemma table_upd_free:
  assumes inj: "keys_inj used key st" and i: "i < length st" "\<not> used (st ! i)"
    and e: "used e" "table used key val st (key e) = None"
  shows "keys_inj used key (st[i := e])"
    and "table used key val (st[i := e]) = (table used key val st)(key e \<mapsto> val e)"
proof -
  have notin: "i \<notin> live_ix used st" using i by (simp add: live_ix_def)
  have live: "live_ix used (st[i := e]) = insert i (live_ix used st)"
    using i e by (simp add: live_ix_upd_used)
  have same: "st[i := e] ! k = st ! k" if "k \<in> live_ix used st" for k
    using that notin by (metis nth_list_update_neq)
  have new: "key (st ! k) \<noteq> key e" if "k \<in> live_ix used st" for k
    using e(2) that unfolding table_None by blast
  show inj': "keys_inj used key (st[i := e])"
  proof (rule keys_injI)
    fix j k assume j: "j \<in> live_ix used (st[i := e])" and k: "k \<in> live_ix used (st[i := e])"
      and eq: "key (st[i := e] ! j) = key (st[i := e] ! k)"
    show "j = k"
      using j k eq i new [of j] new [of k] same [of j] same [of k] keys_injD [OF inj, of j k]
      unfolding live by (cases "j = i"; cases "k = i") auto
  qed
  show "table used key val (st[i := e]) = (table used key val st)(key e \<mapsto> val e)"
  proof (rule map_eqI)
    fix x y
    have "table used key val (st[i := e]) x = Some y \<longleftrightarrow>
        (key e = x \<and> val e = y) \<or> (\<exists>k \<in> live_ix used st. key (st ! k) = x \<and> val (st ! k) = y)"
      unfolding table_Some [OF inj'] live using i same by auto
    also have "\<dots> \<longleftrightarrow> ((table used key val st)(key e \<mapsto> val e)) x = Some y"
      using new by (auto simp: table_Some [OF inj])
    finally show "table used key val (st[i := e]) x = Some y \<longleftrightarrow>
      ((table used key val st)(key e \<mapsto> val e)) x = Some y" .
  qed
qed

lemma table_upd_same_key:
  assumes inj: "keys_inj used key st" and i: "i \<in> live_ix used st"
    and e: "used e" "key e = key (st ! i)"
  shows "keys_inj used key (st[i := e])"
    and "table used key val (st[i := e]) = (table used key val st)(key e \<mapsto> val e)"
proof -
  have len: "i < length st" using i by (rule live_ix_less)
  have live: "live_ix used (st[i := e]) = live_ix used st"
    using i e len by (auto simp: live_ix_upd_used)
  have key: "key (st[i := e] ! k) = key (st ! k)" if "k \<in> live_ix used st" for k
    using that e len by (cases "k = i") auto
  show inj': "keys_inj used key (st[i := e])"
    using inj key unfolding keys_inj_def live by (simp add: inj_on_def)
  show "table used key val (st[i := e]) = (table used key val st)(key e \<mapsto> val e)"
  proof (rule map_eqI)
    fix x y
    show "table used key val (st[i := e]) x = Some y \<longleftrightarrow>
      ((table used key val st)(key e \<mapsto> val e)) x = Some y"
    proof (cases "x = key e")
      case True
      then show ?thesis
        using table_live [OF inj', of i val] i len e by (auto simp: live)
    next
      case False
      then have "table used key val (st[i := e]) x = Some y \<longleftrightarrow>
          (\<exists>k \<in> live_ix used st. key (st ! k) = x \<and> val (st ! k) = y)"
        unfolding table_Some [OF inj'] live
        by (intro bex_cong refl) (metis e(2) len nth_list_update_eq nth_list_update_neq)
      with False show ?thesis by (simp add: table_Some [OF inj])
    qed
  qed
qed

locale hash_table =
  fixes used :: "'e \<Rightarrow> bool"
    and nxt :: "'e \<Rightarrow> int"
    and set_nxt :: "int \<Rightarrow> 'e \<Rightarrow> 'e"
    and retire :: "'e \<Rightarrow> 'e"
    and bucket :: "int \<Rightarrow> 'e \<Rightarrow> int"
    and key :: "'e \<Rightarrow> 'k"
    and val :: "'e \<Rightarrow> 'v"
  assumes nxt_set_nxt [simp]: "nxt (set_nxt j e) = j"
    and used_set_nxt [simp]: "used (set_nxt j e) = used e"
    and bucket_set_nxt [simp]: "bucket n (set_nxt j e) = bucket n e"
    and key_set_nxt [simp]: "key (set_nxt j e) = key e"
    and val_set_nxt [simp]: "val (set_nxt j e) = val e"
    and nxt_retire [simp]: "nxt (retire e) = nxt e"
    and used_retire [simp]: "\<not> used (retire e)"
    and bucket_range: "0 < n \<Longrightarrow> 0 \<le> bucket n e \<and> bucket n e < n"
begin

text \<open>Inserting at the head of a bucket.\<close>

lemma insert_wf:
  assumes wf: "hash_wf used nxt bucket n bs st"
    and i: "i < length st" "\<not> used (st ! i)" and e: "used e" "bucket n e = int b" "b < length bs"
  shows "hash_wf used nxt bucket n (bs[b := int i]) (st[i := set_nxt (bs ! b) e])"
    (is "hash_wf _ _ _ _ ?bs ?st")
proof -
  have live: "live_ix used ?st = insert i (live_ix used st)"
    using i e by (simp add: live_ix_upd_used)
  have notin: "i \<notin> live_ix used st" using i by (simp add: live_ix_def)
  show ?thesis
  proof (rule hash_wfI)
    show "0 < n" using wf by (rule hash_wf_pos)
    show "int (length ?bs) = n" using hash_wf_len [OF wf] by simp
    fix c assume "c < length ?bs"
    then have c: "c < length bs" by simp
    from wf c obtain ks where ks: "chain nxt st (bs ! c) ks"
      "set ks = {k \<in> live_ix used st. bucket n (st ! k) = int c}" by (rule hash_wf_chain)
    with notin have iks: "i \<notin> set ks" by auto
    then have ch: "chain nxt ?st (bs ! c) ks" using ks(1) by (simp add: chain_upd_notin)
    have same: "?st ! k = st ! k" if "k \<in> live_ix used st" for k
      using that notin by (cases "k = i") auto
    have set_eq: "{k \<in> live_ix used st. bucket n (?st ! k) = int c} = set ks"
      unfolding ks(2) by (intro Collect_cong) (metis same)
    show "\<exists>ks. chain nxt ?st (?bs ! c) ks \<and>
        set ks = {k \<in> live_ix used ?st. bucket n (?st ! k) = int c}"
    proof (cases "c = b")
      case True
      with ch i c have "chain nxt ?st (?bs ! c) (i # ks)" by simp
      moreover from True e i have "bucket n (?st ! i) = int c" by simp
      then have "set (i # ks) = {k \<in> live_ix used ?st. bucket n (?st ! k) = int c}"
        unfolding live list.set set_eq [symmetric] by blast
      ultimately show ?thesis by blast
    next
      case False
      with e i have "bucket n (?st ! i) \<noteq> int c" by simp
      then have "{k \<in> live_ix used ?st. bucket n (?st ! k) = int c} = set ks"
        unfolding live set_eq [symmetric] by blast
      then show ?thesis using ch False by (intro exI [of _ ks]) simp
    qed
  qed
qed

lemma insert_table:
  assumes "keys_inj used key st" "i < length st" "\<not> used (st ! i)"
    and "used e" "table used key val st (key e) = None"
  shows "keys_inj used key (st[i := set_nxt j e])"
    and "table used key val (st[i := set_nxt j e]) = (table used key val st)(key e \<mapsto> val e)"
  using table_upd_free [of used key st i "set_nxt j e" val] assms by simp_all

text \<open>Unlinking an entry from its bucket.\<close>

lemma unlink_nth:
  assumes "k < length st" "k \<noteq> i"
  shows "val (unlink_st nxt set_nxt retire prev i st ! k) = val (st ! k)"
    and "used (unlink_st nxt set_nxt retire prev i st ! k) = used (st ! k)"
    and "key (unlink_st nxt set_nxt retire prev i st ! k) = key (st ! k)"
    and "bucket n (unlink_st nxt set_nxt retire prev i st ! k) = bucket n (st ! k)"
  using assms by (auto simp: unlink_st_def Let_def nth_upd_cases)

lemma unlink_length [simp]: "length (unlink_st nxt set_nxt retire prev i st) = length st"
  by (simp add: unlink_st_def Let_def)

lemma unlink_nth_self:
  assumes "i < length st" "i \<notin> set pre"
  shows "unlink_st nxt set_nxt retire (prev_of pre) i st ! i = retire (st ! i)"
proof (cases pre rule: rev_cases)
  case Nil
  with assms show ?thesis by (simp add: unlink_st_def Let_def)
next
  case (snoc ps p)
  with assms have "p \<noteq> i" by auto
  with snoc assms show ?thesis by (simp add: unlink_st_def Let_def)
qed

lemma unlink_live:
  assumes "i < length st" "i \<notin> set pre"
  shows "live_ix used (unlink_st nxt set_nxt retire (prev_of pre) i st) = live_ix used st - {i}"
proof (rule set_eqI)
  fix k show "k \<in> live_ix used (unlink_st nxt set_nxt retire (prev_of pre) i st)
      \<longleftrightarrow> k \<in> live_ix used st - {i}"
    using unlink_nth_self [OF assms] unlink_nth(2) [of k st i "prev_of pre"]
    by (cases "k = i") (auto simp: live_ix_def)
qed

lemma unlink_chain:
  assumes ch: "chain nxt st h (pre @ i # post)"
  shows "chain nxt (unlink_st nxt set_nxt retire (prev_of pre) i st)
           (if pre = [] then nxt (st ! i) else h) (pre @ post)"
proof -
  from ch have i: "i < length st" "i \<notin> set pre" "i \<notin> set post" "distinct (pre @ i # post)"
    using chain_distinct [OF ch] chain_less [OF ch, of i] by auto
  from ch have post: "chain nxt st (nxt (st ! i)) post"
    by (auto simp: chain_append_path)
  show ?thesis
  proof (cases pre rule: rev_cases)
    case Nil
    with post i show ?thesis by (simp add: unlink_st_def Let_def chain_upd_notin)
  next
    case (snoc ps p)
    with ch have pp: "path nxt st h ps (int p)" "p < length st"
      by (auto simp: chain_append_path)
    from i snoc have neq: "p \<noteq> i" "p \<notin> set ps" "i \<notin> set ps" "p \<notin> set post" by auto
    let ?st = "unlink_st nxt set_nxt retire (prev_of pre) i st"
    have st: "?st = st[i := retire (st ! i), p := set_nxt (nxt (st ! i)) (st ! p)]"
      using snoc neq i by (simp add: unlink_st_def Let_def)
    have "path nxt ?st h ps (int p)" using pp neq by (simp add: st path_upd_notin)
    moreover have "nxt (?st ! p) = nxt (st ! i)" using pp by (simp add: st)
    moreover have "chain nxt ?st (nxt (st ! i)) post" using post neq i by (simp add: st chain_upd_notin)
    ultimately show ?thesis using snoc pp by (auto simp: chain_append_path)
  qed
qed

lemma unlink_wf:
  assumes wf: "hash_wf used nxt bucket n bs st" and b: "b < length bs"
    and ch: "chain nxt st (bs ! b) (pre @ i # post)"
  shows "hash_wf used nxt bucket n (unlink_bs nxt retire (prev_of pre) i b st bs)
           (unlink_st nxt set_nxt retire (prev_of pre) i st)" (is "hash_wf _ _ _ _ ?bs ?st")
proof (rule hash_wfI)
  show "0 < n" using wf by (rule hash_wf_pos)
  show "int (length ?bs) = n" using hash_wf_len [OF wf] by (simp add: unlink_bs_def)
  have len: "length ?bs = length bs" by (simp add: unlink_bs_def)
  from ch have i: "i < length st" "i \<notin> set pre" "distinct (pre @ i # post)"
    using chain_distinct [OF ch] chain_less [OF ch, of i] by auto
  from wf b obtain ks where ks: "chain nxt st (bs ! b) ks"
    "set ks = {k \<in> live_ix used st. bucket n (st ! k) = int b}" by (rule hash_wf_chain)
  from chain_unique [OF ks(1) ch] have ksb: "ks = pre @ i # post" .
  have same: "bucket n (?st ! k) = bucket n (st ! k)" if "k \<in> live_ix used st" "k \<noteq> i" for k
    using that unlink_nth(4) live_ix_less by metis
  have live: "live_ix used ?st = live_ix used st - {i}" using i by (intro unlink_live) auto
  fix c assume "c < length ?bs"
  then have c: "c < length bs" using len by simp
  show "\<exists>ks. chain nxt ?st (?bs ! c) ks \<and> set ks = {k \<in> live_ix used ?st. bucket n (?st ! k) = int c}"
  proof (cases "c = b")
    case True
    have "?bs ! b = (if pre = [] then nxt (st ! i) else bs ! b)"
      using b by (cases pre rule: rev_cases) (simp_all add: unlink_bs_def)
    with unlink_chain [OF ch] have "chain nxt ?st (?bs ! c) (pre @ post)" using True by simp
    moreover have "set (pre @ post) = {k \<in> live_ix used ?st. bucket n (?st ! k) = int c}"
    proof -
      have "set (pre @ post) = set ks - {i}" using i ksb by auto
      also have "\<dots> = {k \<in> live_ix used st - {i}. bucket n (st ! k) = int c}"
        unfolding ks(2) True by blast
      also have "\<dots> = {k \<in> live_ix used st - {i}. bucket n (?st ! k) = int c}"
        by (rule Collect_cong) (use same in auto)
      finally show ?thesis unfolding live .
    qed
    ultimately show ?thesis by blast
  next
    case False
    from wf c obtain ls where ls: "chain nxt st (bs ! c) ls"
      "set ls = {k \<in> live_ix used st. bucket n (st ! k) = int c}" by (rule hash_wf_chain)
    have disj: "k \<notin> set ls" if "k \<in> set (pre @ i # post)" for k
      using that ks(2) ls(2) False unfolding ksb [symmetric] by auto
    have "chain nxt ?st (bs ! c) ls"
    proof (cases pre rule: rev_cases)
      case Nil
      with ls(1) disj show ?thesis by (simp add: unlink_st_def Let_def chain_upd_notin)
    next
      case (snoc ps p)
      with ls(1) disj show ?thesis by (simp add: unlink_st_def Let_def chain_upd_notin)
    qed
    moreover have "?bs ! c = bs ! c" using False by (simp add: unlink_bs_def)
    moreover have "set ls = {k \<in> live_ix used ?st. bucket n (?st ! k) = int c}"
    proof -
      have "set ls = {k \<in> live_ix used st - {i}. bucket n (st ! k) = int c}"
        unfolding ls(2) using disj [of i] ls(2) by auto
      also have "\<dots> = {k \<in> live_ix used st - {i}. bucket n (?st ! k) = int c}"
        by (rule Collect_cong) (use same in auto)
      finally show ?thesis unfolding live .
    qed
    ultimately show ?thesis by auto
  qed
qed

lemma unlink_table:
  assumes inj: "keys_inj used key st" and i: "i \<in> live_ix used st" "i \<notin> set pre"
  shows "keys_inj used key (unlink_st nxt set_nxt retire (prev_of pre) i st)" (is "keys_inj _ _ ?st")
    and "table used key val (unlink_st nxt set_nxt retire (prev_of pre) i st) =
      (table used key val st)(key (st ! i) := None)"
proof -
  have live: "live_ix used ?st = live_ix used st - {i}"
    using i live_ix_less by (intro unlink_live) auto
  have same: "key (?st ! k) = key (st ! k)" "val (?st ! k) = val (st ! k)"
    if "k \<in> live_ix used st" "k \<noteq> i" for k
    using that unlink_nth(1,3) [of k st i "prev_of pre"] live_ix_less by auto
  show inj': "keys_inj used key ?st"
  proof (rule keys_injI)
    fix j k assume "j \<in> live_ix used ?st" "k \<in> live_ix used ?st" "key (?st ! j) = key (?st ! k)"
    then show "j = k" using keys_injD [OF inj, of j k] same unfolding live by auto
  qed
  show "table used key val ?st = (table used key val st)(key (st ! i) := None)"
  proof (rule map_eqI)
    fix x y
    have "table used key val ?st x = Some y \<longleftrightarrow>
        (\<exists>k \<in> live_ix used st - {i}. key (st ! k) = x \<and> val (st ! k) = y)"
      unfolding table_Some [OF inj'] live using same by auto
    also have "\<dots> \<longleftrightarrow> ((table used key val st)(key (st ! i) := None)) x = Some y"
      using keys_injD [OF inj i(1), symmetric] by (auto simp: table_Some [OF inj])
    finally show "table used key val ?st x = Some y \<longleftrightarrow>
      ((table used key val st)(key (st ! i) := None)) x = Some y" .
  qed
qed

end

end
