(* ===== verification/Hasher.thy ===== *)
theory Hasher
  imports BRM_Prelude "HOL-Library.Word"
begin

unbundle bit_operations_syntax

text \<open>
  \<open>utils/common/hasher.h\<close>: the 32-bit Murmur3 hash (\<open>Hasher\<close>, \<open>Hasher_r\<close>) and its 64-bit
  sibling (\<open>Hasher128\<close>). The hash tables of the version substitution structure and of the
  version buffer block map choose their buckets with \<open>Hasher\<close>. Data is a list of bytes;
  a \<open>uint32_t\<close> or \<open>uint64_t\<close> read through a cast pointer is little endian, as on the x86-64
  platform the program is built for.
\<close>

section \<open>Mixing functions\<close>

type_synonym u8 = "8 word"
type_synonym u32 = "32 word"
type_synonym u64 = "64 word"

definition rotl32 :: "u32 \<Rightarrow> nat \<Rightarrow> u32" where
  "rotl32 x r = (push_bit r x OR drop_bit (32 - r) x)"

definition fmix :: "u32 \<Rightarrow> u32" where
  "fmix h =
     (let h = h XOR drop_bit 16 h;
          h = h * 0x85ebca6b;
          h = h XOR drop_bit 13 h;
          h = h * 0xc2b2ae35;
          h = h XOR drop_bit 16 h
      in h)"

definition fmix64 :: "u64 \<Rightarrow> u64" where
  "fmix64 k =
     (let k = k XOR drop_bit 33 k;
          k = k * 0xff51afd7ed558ccd;
          k = k XOR drop_bit 33 k;
          k = k * 0xc4ceb9fe1a85ec53;
          k = k XOR drop_bit 33 k
      in k)"

definition rotl64 :: "u64 \<Rightarrow> nat \<Rightarrow> u64" where
  "rotl64 x r = (push_bit r x OR drop_bit (64 - r) x)"

section \<open>Little-endian reads\<close>

fun le_word :: "u8 list \<Rightarrow> 'a::len word" where
  "le_word [] = 0"
| "le_word (b # bs) = ucast b OR push_bit 8 (le_word bs)"

fun le_bytes :: "nat \<Rightarrow> 'a::len word \<Rightarrow> u8 list" where
  "le_bytes 0 w = []"
| "le_bytes (Suc n) w = ucast w # le_bytes n (drop_bit 8 w)"

section \<open>Hasher and Hasher_r\<close>

definition mix_k1 :: "u32 \<Rightarrow> u32" where
  "mix_k1 k1 = rotl32 (k1 * 0xcc9e2d51) 15 * 0x1b873593"

definition hash_block :: "u32 \<Rightarrow> u32 \<Rightarrow> u32" where
  "hash_block h1 k1 = rotl32 (h1 XOR mix_k1 k1) 13 * 5 + 0xe6546b64"

text \<open>The body loop over the \<open>len / 4\<close> whole blocks; it answers the bytes of the tail.\<close>

fun hash_body :: "u32 \<Rightarrow> u8 list \<Rightarrow> u32 \<times> u8 list" where
  "hash_body h1 (a # b # c # d # rest) = hash_body (hash_block h1 (le_word [a, b, c, d])) rest"
| "hash_body h1 tail = (h1, tail)"

text \<open>The \<open>switch (len & 3)\<close>: case 3 falls through to 2 and to 1; case 0 leaves \<open>h1\<close> alone.\<close>

definition hash_tail :: "u32 \<Rightarrow> u8 list \<Rightarrow> u32" where
  "hash_tail h1 tail =
     (let k1 = 0;
          k1 = (if length tail \<ge> 3 then k1 XOR push_bit 16 (ucast (tail ! 2)) else k1);
          k1 = (if length tail \<ge> 2 then k1 XOR push_bit 8 (ucast (tail ! 1)) else k1)
      in if length tail \<ge> 1 then h1 XOR mix_k1 (k1 XOR ucast (tail ! 0)) else h1)"

definition hasher_r :: "u8 list \<Rightarrow> u32 \<Rightarrow> u32" where
  "hasher_r data seed = (case hash_body seed data of (h1, tail) \<Rightarrow> hash_tail h1 tail)"

definition finalize :: "u32 \<Rightarrow> u32 \<Rightarrow> u32" where
  "finalize seed len = fmix (seed XOR len)"

definition hasher :: "u8 list \<Rightarrow> u32" where
  "hasher data =
     (case hash_body 0 data of
        (h1, tail) \<Rightarrow> fmix (hash_tail h1 tail XOR of_nat (length data)))"

section \<open>Hasher128\<close>

definition hash128_block :: "u64 \<Rightarrow> u64 \<Rightarrow> u64 \<Rightarrow> u64 \<Rightarrow> u64 \<times> u64" where
  "hash128_block h1 h2 k1 k2 =
     (let k1 = rotl64 (k1 * 0x87c37b91114253d5) 31 * 0x4cf5ad432745937f;
          h1 = h1 XOR k1;
          h1 = rotl64 h1 27 + h2;
          h1 = h1 * 5 + 0x52dce729;
          k2 = rotl64 (k2 * 0x4cf5ad432745937f) 33 * 0x87c37b91114253d5;
          h2 = h2 XOR k2;
          h2 = rotl64 h2 31 + h1;
          h2 = h2 * 5 + 0x38495ab5
      in (h1, h2))"

function hash128_body :: "u64 \<Rightarrow> u64 \<Rightarrow> u8 list \<Rightarrow> u64 \<times> u64 \<times> u8 list" where
  "hash128_body h1 h2 data =
     (if length data < 16 then (h1, h2, data)
      else let (h1', h2') = hash128_block h1 h2 (le_word (take 8 data)) (le_word (take 8 (drop 8 data)))
           in hash128_body h1' h2' (drop 16 data))"
  by pat_completeness auto
termination
  by (relation "measure (\<lambda>(h1, h2, data). length data)") auto

declare hash128_body.simps [simp del]

text \<open>The cascade \<open>k ^= uint64_t(tail[i]) << 8 * i\<close> of the tail's fall-through cases.\<close>

fun xor_tail :: "u8 list \<Rightarrow> u64" where
  "xor_tail [] = 0"
| "xor_tail (b # bs) = ucast b XOR push_bit 8 (xor_tail bs)"

definition hash128_tail :: "u64 \<Rightarrow> u64 \<Rightarrow> u8 list \<Rightarrow> u64 \<times> u64" where
  "hash128_tail h1 h2 tail =
     (let h2 = (if length tail \<ge> 9
                then h2 XOR rotl64 (xor_tail (drop 8 tail) * 0x4cf5ad432745937f) 33 * 0x87c37b91114253d5
                else h2);
          h1 = (if length tail \<ge> 1
                then h1 XOR rotl64 (xor_tail (take 8 tail) * 0x87c37b91114253d5) 31 * 0x4cf5ad432745937f
                else h1)
      in (h1, h2))"

definition hasher128 :: "u8 list \<Rightarrow> u64" where
  "hasher128 data =
     (case hash128_body 0 0 data of
        (h1, h2, tail) \<Rightarrow>
          let (h1, h2) = hash128_tail h1 h2 tail;
              h1 = h1 XOR of_nat (length data);
              h2 = h2 XOR of_nat (length data);
              h1 = h1 + h2;
              h2 = h2 + h1;
              h1 = fmix64 h1;
              h2 = fmix64 h2
          in h1 + h2)"

section \<open>The bucket of a key\<close>

text \<open>
  \<open>hasher((char *) &lbid, sizeof(lbid)) % n\<close> with \<open>uint32_t\<close> on the left, so \<open>n\<close> is converted
  to unsigned. The bytes of an \<open>int64_t\<close> and of an \<open>int32_t\<close> are those of the two's
  complement word.
\<close>

definition lbid_bytes :: "LBID_t \<Rightarrow> u8 list" where
  "lbid_bytes lbid = le_bytes 8 (word_of_int lbid :: u64)"

definition ver_bytes :: "VER_t \<Rightarrow> u8 list" where
  "ver_bytes ver = le_bytes 4 (word_of_int ver :: u32)"

definition hash_mod :: "u8 list \<Rightarrow> int \<Rightarrow> int" where
  "hash_mod data n = uint (hasher data) mod uint (word_of_int n :: u32)"

section \<open>Facts\<close>

lemma hash_mod_range:
  assumes "0 < n"
  shows "0 \<le> hash_mod data n \<and> hash_mod data n < n"
proof (cases "n < 2 ^ 32")
  case True
  with assms have "uint (word_of_int n :: u32) = n"
    by (simp add: uint_word_of_int take_bit_int_eq_self)
  with assms show ?thesis by (simp add: hash_mod_def)
next
  case False
  have "uint (hasher data) < 2 ^ 32" using uint_lt2p [of "hasher data"] by simp
  moreover have "hash_mod data n \<le> uint (hasher data)"
    unfolding hash_mod_def by (rule zmod_le_nonneg_dividend) simp
  moreover have "0 \<le> hash_mod data n"
    unfolding hash_mod_def
    by (cases "uint (word_of_int n :: u32) = 0") (simp_all add: order_less_le)
  ultimately show ?thesis using False by linarith
qed

lemma hash_body_append:
  "length xs mod 4 = 0 \<Longrightarrow> hash_body h (xs @ ys) = hash_body (fst (hash_body h xs)) ys \<and>
     snd (hash_body h xs) = []"
  by (induction h xs rule: hash_body.induct) auto

lemma rotl32_inj: assumes "0 < r" "r < 32" "rotl32 x r = rotl32 y r" shows "x = y"
proof (rule bit_word_eqI)
  fix n assume n: "n < LENGTH(32)"
  have bits: "bit (rotl32 z r) m = bit z (if m < r then 32 + m - r else m - r)" if "m < 32" for z m
    using that assms(1,2) by (auto simp: rotl32_def bit_simps dest: bit_imp_le_length)
  define m where "m = (if n + r < 32 then n + r else n + r - 32)"
  have m: "m < 32" using n assms by (auto simp: m_def)
  have "(if m < r then 32 + m - r else m - r) = n" using n assms by (auto simp: m_def)
  with bits [OF m, of x] bits [OF m, of y] assms(3) show "bit x n = bit y n" by simp
qed

lemma mult_inverse_inj: "c * c' = 1 \<Longrightarrow> x * c = y * c \<Longrightarrow> x = (y :: 'a::comm_monoid_mult)"
  by (metis mult.assoc mult.right_neutral)

lemma xor_shift_inj: "0 < r \<Longrightarrow> x XOR drop_bit r x = y XOR drop_bit r (y :: 'a::len word) \<Longrightarrow> x = y"
proof (rule bit_word_eqI)
  assume r: "0 < r" and eq: "x XOR drop_bit r x = y XOR drop_bit r y"
  have "bit x n = bit y n" for n
  proof (induction "LENGTH('a) - n" arbitrary: n rule: less_induct)
    case less
    show ?case
    proof (cases "n < LENGTH('a)")
      case True
      with r have "bit x (r + n) = bit y (r + n)" by (intro less) auto
      moreover have "bit (x XOR drop_bit r x) n = bit (y XOR drop_bit r y) n" using eq by simp
      ultimately show ?thesis by (auto simp: bit_simps)
    qed (simp add: bit_word.rep_eq)
  qed
  then show "bit x n = bit y n" for n .
qed

lemma fmix_inj: "fmix x = fmix y \<Longrightarrow> x = y"
  unfolding fmix_def Let_def
  by (drule xor_shift_inj [rotated], simp,
      drule mult_inverse_inj [of "0xc2b2ae35::u32" "0x7ed1b41d", rotated], simp,
      drule xor_shift_inj [rotated], simp,
      drule mult_inverse_inj [of "0x85ebca6b::u32" "0xa5cb9243", rotated], simp,
      drule xor_shift_inj [rotated], simp, simp)

lemma mix_k1_inj: "mix_k1 x = mix_k1 y \<Longrightarrow> x = y"
  unfolding mix_k1_def
  by (drule mult_inverse_inj [of "0x1b873593::u32" "0x56ed309b", rotated], simp,
      drule rotl32_inj [rotated -1], simp, simp,
      drule mult_inverse_inj [of "0xcc9e2d51::u32" "0xdee13bb1", rotated], simp, simp)

lemma xor_left_inj: "h XOR x = h XOR y \<Longrightarrow> x = (y :: 'a::len word)"
  by (metis xor.assoc xor.left_neutral xor_self_eq)

lemma hash_block_inj: "hash_block h x = hash_block h y \<Longrightarrow> x = y"
  unfolding hash_block_def add_right_cancel
  by (drule mult_inverse_inj [of "5::u32" "0xcccccccd", rotated], simp,
      drule rotl32_inj [rotated -1], simp, simp, drule xor_left_inj, erule mix_k1_inj)

lemma le_word_bytes: "le_word (le_bytes n w) = (take_bit (8 * n) w :: 'a::len word)"
proof (induction n arbitrary: w)
  case (Suc n)
  show ?case
    by (rule bit_word_eqI)
      (auto simp: Suc bit_simps le_diff_conv add.commute)
qed simp



text \<open>
  \<open>Hasher\<close> has no collisions on four-byte keys: two 32-bit values hash alike only when
  they are equal.
\<close>
theorem hasher_word_inj: "hasher (le_bytes 4 a) = hasher (le_bytes 4 b) \<longleftrightarrow> a = (b :: u32)"
proof -
  have h: "hasher (le_bytes 4 w) = fmix (hash_block 0 w XOR 4)" for w :: u32
  proof -
    have "le_word (le_bytes 4 w) = w" using le_word_bytes [of 4 w] by (simp add: take_bit_word_eq_self)
    then show ?thesis by (simp add: hasher_def hash_tail_def numeral_eq_Suc)
  qed
  show ?thesis unfolding h
    by (auto dest!: fmix_inj hash_block_inj simp: xor.commute [of _ 4] dest: xor_left_inj)
qed

end
