(* ===== verification/Shm.thy ===== *)
theory Shm
  imports BRM_Prelude
begin

text \<open>
  What the shared-memory tables of the block resolution manager have in common: the key
  ranges of \<open>shmkeys.h\<close> and \<open>shmkeys.cpp\<close>, a table's descriptor in the master segment table
  (\<open>mastersegmenttable.h\<close>) and the choice of the key of a table's next segment, which
  \<open>VSS\<close>, \<open>VBBM\<close>, \<open>CopyLocks\<close> and \<open>ExtentMap\<close> repeat with their own key range.
\<close>

text \<open>The build leaves \<open>BRM_UID\<close> at 0 and does not define \<open>COMMUNITY_KEYRANGE\<close>.\<close>

definition KEYRANGE_SIZE :: int where "KEYRANGE_SIZE = 0x10000"
definition KEYRANGE_VSS_BASE :: int where "KEYRANGE_VSS_BASE = 0x10000"
definition KEYRANGE_EXTENTMAP_BASE :: int where "KEYRANGE_EXTENTMAP_BASE = 0x20000"
definition KEYRANGE_EMFREELIST_BASE :: int where "KEYRANGE_EMFREELIST_BASE = 0x30000"
definition KEYRANGE_VBBM_BASE :: int where "KEYRANGE_VBBM_BASE = 0x40000"
definition KEYRANGE_CL_BASE :: int where "KEYRANGE_CL_BASE = 0x50000"

lemmas keyrange_defs =
  KEYRANGE_SIZE_def KEYRANGE_VSS_BASE_def KEYRANGE_EXTENTMAP_BASE_def
  KEYRANGE_EMFREELIST_BASE_def KEYRANGE_VBBM_BASE_def KEYRANGE_CL_BASE_def

text \<open>The size of a block in bytes.\<close>

definition BLOCK_SIZE :: int where "BLOCK_SIZE = 8192"

record MSTEntry =
  tableShmkey :: int
  allocdSize :: int
  mst_currentSize :: int

text \<open>
  The comparison \<open>(unsigned) tableShmkey < BASE\<close> is unsigned: a descriptor's key is read
  modulo \<open>2 ^ 32\<close>.
\<close>

definition choose_key :: "int \<Rightarrow> int \<Rightarrow> int" where
  "choose_key base tkey =
     (if tkey + 1 = base + KEYRANGE_SIZE - 1 \<or> tkey mod 2 ^ 32 < base then base + 1 else tkey + 1)"

text \<open>The next segment never takes the key of the segment in use.\<close>

lemma choose_key_fresh: "choose_key base tkey \<noteq> tkey \<or> tkey mod 2 ^ 32 < base"
  by (auto simp: choose_key_def KEYRANGE_SIZE_def)

lemma choose_key_neq: "0 \<le> base \<Longrightarrow> base < 2 ^ 31 \<Longrightarrow> choose_key base tkey \<noteq> tkey"
  by (auto simp: choose_key_def KEYRANGE_SIZE_def)

end
