(* ===== verification/VSS.thy ===== *)
theory VSS
  imports Hash_Chain Hasher Shm
begin

text \<open>
  The Version Substitution Structure (\<open>versioning/BRM/vss.cpp\<close>, \<open>vss.h\<close>): the shared-memory
  hash table that says which versions of a block exist, which of them live in the version
  buffer and which are locked by a running transaction, with the undo log of
  \<open>undoable.cpp\<close>. This theory holds the data model and every operation that needs no other
  table; \<open>VSS_Props\<close>, \<open>VSS_Read\<close>, \<open>VSS_Write\<close> and \<open>VSS_Txn\<close> hold the facts about them.
\<close>

section \<open>Data\<close>

record VSSEntry =
  lbid :: LBID_t
  verID :: VER_t
  vbFlag :: bool
  locked :: bool
  next' :: int

record VSSShmsegHeader =
  capacity :: int
  currentSize :: int
  LWM :: int
  numHashBuckets :: int
  lockedEntryCount :: int

text \<open>A segment: the header, then the buckets, then the entries.\<close>

record VSSShmseg =
  vss :: VSSShmsegHeader
  hashBuckets :: "int list"
  storage :: "VSSEntry list"

text \<open>
  An \<open>ImageDelta\<close> saves the old bytes at an address; the addresses the \<open>VSS\<close> code saves are
  the header, its \<open>currentSize\<close>, an entry and a bucket. A record carries the key of the
  segment it points into.
\<close>

datatype vss_delta =
    vd_header VSSShmsegHeader
  | vd_currentSize int
  | vd_entry nat VSSEntry
  | vd_bucket nat int

record VSS =
  seg :: VSSShmseg
  vssShminfo :: MSTEntry
  vss_undoRecords :: "(int \<times> vss_delta) list"

record QueryContext_vss =
  currentScn :: VER_t
  txns :: "VER_t list"

record LBIDRange =
  range_start :: LBID_t
  range_size :: int

section \<open>The undo log\<close>

definition vss_makeUndoRecord :: "vss_delta \<Rightarrow> VSS \<Rightarrow> VSS" where
  "vss_makeUndoRecord d st = st\<lparr>vss_undoRecords := vss_undoRecords st @ [(tableShmkey (vssShminfo st), d)]\<rparr>"

fun vss_apply_delta :: "vss_delta \<Rightarrow> VSSShmseg \<Rightarrow> VSSShmseg" where
  "vss_apply_delta (vd_header h) s = s\<lparr>vss := h\<rparr>"
| "vss_apply_delta (vd_currentSize n) s = s\<lparr>vss := (vss s)\<lparr>currentSize := n\<rparr>\<rparr>"
| "vss_apply_delta (vd_entry i e) s = s\<lparr>storage := (storage s)[i := e]\<rparr>"
| "vss_apply_delta (vd_bucket b v) s = s\<lparr>hashBuckets := (hashBuckets s)[b := v]\<rparr>"

text \<open>
  The records are written back from the last to the first. One that points into a segment
  that has been replaced is a write to unmapped memory.
\<close>

definition vss_undoChanges :: "VSS \<Rightarrow> VSS option" where
  "vss_undoChanges st =
     (if \<forall>r \<in> set (vss_undoRecords st). fst r = tableShmkey (vssShminfo st)
      then Some (st\<lparr>seg := foldr vss_apply_delta (map snd (vss_undoRecords st)) (seg st), vss_undoRecords := []\<rparr>)
      else None)"

definition vss_confirmChanges :: "VSS \<Rightarrow> VSS" where
  "vss_confirmChanges st = st\<lparr>vss_undoRecords := []\<rparr>"

section \<open>Segments\<close>

definition sizeof_VSSEntry :: int where "sizeof_VSSEntry = 24"
definition sizeof_VSSShmsegHeader :: int where "sizeof_VSSShmsegHeader = 20"
definition VSSSTORAGE_INITIAL_COUNT :: int where "VSSSTORAGE_INITIAL_COUNT = 200000"
definition VSSSTORAGE_INCREMENT_COUNT :: int where "VSSSTORAGE_INCREMENT_COUNT = 20000"
definition VSSTABLE_INITIAL_COUNT :: int where "VSSTABLE_INITIAL_COUNT = 50000"
definition VSSTABLE_INCREMENT_COUNT :: int where "VSSTABLE_INCREMENT_COUNT = 5000"

definition VSS_INITIAL_SIZE :: int where
  "VSS_INITIAL_SIZE = sizeof_VSSShmsegHeader + VSSSTORAGE_INITIAL_COUNT * sizeof_VSSEntry
     + VSSTABLE_INITIAL_COUNT * 4"

definition VSS_INCREMENT :: int where
  "VSS_INCREMENT = VSSTABLE_INCREMENT_COUNT * 4 + VSSSTORAGE_INCREMENT_COUNT * sizeof_VSSEntry"

definition VSS_SIZE :: "int \<Rightarrow> int" where
  "VSS_SIZE entries = entries * sizeof_VSSEntry + entries div 4 * 4 + sizeof_VSSShmsegHeader"

text \<open>A fresh segment is zero-filled, then every entry's \<open>lbid\<close> and every bucket is set to -1.\<close>

definition vss_empty_entry :: VSSEntry where
  "vss_empty_entry = \<lparr>lbid = -1, verID = 0, vbFlag = False, locked = False, next' = 0\<rparr>"

definition vss_fresh_seg :: "int \<Rightarrow> int \<Rightarrow> int \<Rightarrow> int \<Rightarrow> VSSShmseg" where
  "vss_fresh_seg cap buckets sz lockedCount =
     \<lparr>vss = \<lparr>capacity = cap, currentSize = sz, LWM = 0, numHashBuckets = buckets,
             lockedEntryCount = lockedCount\<rparr>,
      hashBuckets = replicate (nat buckets) (-1),
      storage = replicate (nat cap) vss_empty_entry\<rparr>"

definition vss_initShmseg :: VSSShmseg where
  "vss_initShmseg = vss_fresh_seg VSSSTORAGE_INITIAL_COUNT VSSTABLE_INITIAL_COUNT 0 0"

definition vss_chooseShmkey :: "VSS \<Rightarrow> int" where
  "vss_chooseShmkey st = choose_key KEYRANGE_VSS_BASE (tableShmkey (vssShminfo st))"

section \<open>Insertion and growth\<close>

definition entry_used :: "VSSEntry \<Rightarrow> bool" where
  "entry_used e \<longleftrightarrow> lbid e \<noteq> -1"

definition vss_hash :: "int \<Rightarrow> LBID_t \<Rightarrow> int" where
  "vss_hash n l = hash_mod (lbid_bytes l) n"

text \<open>
  \<open>VSS::_insert\<close>: the entry goes to the first free slot from the low-water mark on and to
  the head of its bucket. Answers the undo records it makes.
\<close>

definition vss_insert_entry :: "VSSEntry \<Rightarrow> bool \<Rightarrow> VSSShmseg \<Rightarrow> (VSSShmseg \<times> vss_delta list) option" where
  "vss_insert_entry e loading dest =
     (let hashIndex = vss_hash (numHashBuckets (vss dest)) (lbid e)
      in if LWM (vss dest) < 0 then None
         else Option.bind (find_free entry_used (storage dest) (nat (LWM (vss dest)))) (\<lambda>insertIndex.
              Option.bind (arr_get (hashBuckets dest) hashIndex) (\<lambda>head.
                Some (dest\<lparr>vss := (vss dest)\<lparr>LWM := int insertIndex + 1\<rparr>,
                           storage := (storage dest)[insertIndex := e\<lparr>next' := head\<rparr>],
                           hashBuckets := (hashBuckets dest)[nat hashIndex := int insertIndex]\<rparr>,
                      if loading then []
                      else [vd_header (vss dest), vd_entry insertIndex (storage dest ! insertIndex),
                            vd_bucket (nat hashIndex) head]))))"

text \<open>\<open>copyVSS\<close>: re-inserts the used entries among the first \<open>currentSize\<close> slots into \<open>dest\<close>.\<close>

fun vss_copy_entries :: "VSSEntry list \<Rightarrow> VSSShmseg \<Rightarrow> VSSShmseg option" where
  "vss_copy_entries [] dest = Some dest"
| "vss_copy_entries (e # es) dest =
     (if lbid e \<noteq> -1
      then Option.bind (vss_insert_entry e True dest) (\<lambda>(dest', _). vss_copy_entries es dest')
      else vss_copy_entries es dest)"

definition copyVSS :: "VSSShmseg \<Rightarrow> int \<Rightarrow> int \<Rightarrow> VSSShmseg option" where
  "copyVSS src cap buckets =
     (if currentSize (vss src) > int (length (storage src)) then None
      else vss_copy_entries (take (nat (currentSize (vss src))) (storage src))
             (vss_fresh_seg cap buckets (currentSize (vss src)) (lockedEntryCount (vss src))))"

definition growVSS :: "VSS \<Rightarrow> VSS option" where
  "growVSS st =
     (let newshmkey = vss_chooseShmkey st
      in if allocdSize (vssShminfo st) = 0
         then Some (st\<lparr>seg := vss_initShmseg,
                       vssShminfo := (vssShminfo st)\<lparr>tableShmkey := newshmkey,
                                                     allocdSize := VSS_INITIAL_SIZE\<rparr>\<rparr>)
         else Option.bind
                (copyVSS (seg st) (capacity (vss (seg st)) + VSSSTORAGE_INCREMENT_COUNT)
                   (numHashBuckets (vss (seg st)) + VSSTABLE_INCREMENT_COUNT)) (\<lambda>s.
                Some (st\<lparr>seg := s,
                         vssShminfo := (vssShminfo st)\<lparr>tableShmkey := newshmkey,
                            allocdSize := allocdSize (vssShminfo st) + VSS_INCREMENT\<rparr>\<rparr>)))"

definition vss_growForLoad :: "int \<Rightarrow> VSS \<Rightarrow> VSS" where
  "vss_growForLoad elementCount st =
     (let n = (if elementCount < VSSSTORAGE_INITIAL_COUNT then VSSSTORAGE_INITIAL_COUNT else elementCount);
          n = (if n mod VSSSTORAGE_INCREMENT_COUNT \<noteq> 0
               then (n div VSSSTORAGE_INCREMENT_COUNT + 1) * VSSSTORAGE_INCREMENT_COUNT else n)
      in st\<lparr>seg := vss_fresh_seg n (n div 4) 0 0, vss_undoRecords := [],
            vssShminfo := (vssShminfo st)\<lparr>tableShmkey := vss_chooseShmkey st, allocdSize := VSS_SIZE n\<rparr>\<rparr>)"

definition vss_clear :: "VSS \<Rightarrow> VSS" where
  "vss_clear st =
     st\<lparr>seg := vss_initShmseg,
        vssShminfo := (vssShminfo st)\<lparr>tableShmkey := vss_chooseShmkey st, allocdSize := VSS_INITIAL_SIZE\<rparr>\<rparr>"

definition vss_insert :: "LBID_t \<Rightarrow> VER_t \<Rightarrow> bool \<Rightarrow> bool \<Rightarrow> bool \<Rightarrow> VSS \<Rightarrow> VSS option" where
  "vss_insert l v vb lk loading st =
     (let entry = \<lparr>lbid = l, verID = v, vbFlag = vb, locked = lk, next' = -1\<rparr>
      in Option.bind (if currentSize (vss (seg st)) = capacity (vss (seg st)) then growVSS st else Some st)
           (\<lambda>st1. Option.bind (vss_insert_entry entry loading (seg st1)) (\<lambda>(s, ds).
              let st2 = fold vss_makeUndoRecord ds (st1\<lparr>seg := s\<rparr>);
                  st3 = (if loading then st2 else vss_makeUndoRecord (vd_currentSize (currentSize (vss (seg st2)))) st2);
                  h = vss (seg st3);
                  h = h\<lparr>currentSize := currentSize h + 1\<rparr>;
                  h = (if lk then h\<lparr>lockedEntryCount := lockedEntryCount h + 1\<rparr> else h)
              in Some (st3\<lparr>seg := (seg st3)\<lparr>vss := h\<rparr>\<rparr>))))"

section \<open>Read operations\<close>

text \<open>The walk over the bucket of a block, as every read operation writes it.\<close>

definition vss_scan ::
  "VSSShmseg \<Rightarrow> LBID_t \<Rightarrow> ('a \<Rightarrow> int \<Rightarrow> VSSEntry \<Rightarrow> 'r + 'a) \<Rightarrow> 'a \<Rightarrow> ('r + 'a) option"
where
  "vss_scan s l f acc =
     Option.bind (arr_get (hashBuckets s) (vss_hash (numHashBuckets (vss s)) l))
       (\<lambda>head. scan_chain next' (storage s) f head acc)"

definition ERR_SNAPSHOT_TOO_OLD :: int where "ERR_SNAPSHOT_TOO_OLD = 15"

text \<open>\<open>lookup\<close> answers its return code, \<open>outVer\<close> and \<open>vbFlag\<close>.\<close>

definition vss_lookup_step ::
  "LBID_t \<Rightarrow> QueryContext_vss \<Rightarrow> VER_t \<Rightarrow> bool \<Rightarrow>
     int \<times> int \<times> VSSEntry option \<Rightarrow> int \<Rightarrow> VSSEntry \<Rightarrow> (int \<times> VER_t \<times> bool) + (int \<times> int \<times> VSSEntry option)"
where
  "vss_lookup_step l verInfo txnID vbOnly = (\<lambda>(maxVersion, minVersion, maxEntry) _ e.
     if lbid e = l then
       if vbOnly \<and> \<not> vbFlag e then Inr (maxVersion, minVersion, maxEntry)
       else if txnID \<noteq> verID e \<and> verID e \<in> set (txns verInfo) then Inr (maxVersion, minVersion, maxEntry)
       else if currentScn verInfo = verID e then Inl (0, verID e, vbFlag e)
       else
         let minVersion = (if minVersion > verID e \<or> minVersion = -1 then verID e else minVersion)
         in if currentScn verInfo > verID e \<and> maxVersion < verID e
            then Inr (verID e, minVersion, Some e)
            else Inr (maxVersion, minVersion, maxEntry)
     else Inr (maxVersion, minVersion, maxEntry))"

definition vss_lookup ::
  "LBID_t \<Rightarrow> QueryContext_vss \<Rightarrow> VER_t \<Rightarrow> bool \<Rightarrow> VSSShmseg \<Rightarrow> (int \<times> VER_t \<times> bool) option"
where
  "vss_lookup l verInfo txnID vbOnly s =
     Option.bind (vss_scan s l (vss_lookup_step l verInfo txnID vbOnly) (-1, -1, None)) (\<lambda>out.
       case out of
         Inl r \<Rightarrow> Some r
       | Inr (maxVersion, minVersion, maxEntry) \<Rightarrow>
           (case maxEntry of
              Some e \<Rightarrow> Some (0, maxVersion, vbFlag e)
            | None \<Rightarrow> if minVersion > currentScn verInfo then Some (ERR_SNAPSHOT_TOO_OLD, 0, False)
                      else Some (-1, 0, False)))"

text \<open>\<open>getCurrentVersion\<close> answers the version and \<open>*isLocked\<close>.\<close>

definition vss_getCurrentVersion :: "LBID_t \<Rightarrow> VSSShmseg \<Rightarrow> (VER_t \<times> bool) option" where
  "vss_getCurrentVersion l s =
     Option.bind (vss_scan s l (\<lambda>_ _ e. if lbid e = l \<and> \<not> vbFlag e then Inl (verID e, locked e) else Inr ()) ())
       (\<lambda>out. case out of Inl r \<Rightarrow> Some r | Inr _ \<Rightarrow> Some (0, False))"

definition vss_getHighestVerInVB :: "LBID_t \<Rightarrow> VER_t \<Rightarrow> VSSShmseg \<Rightarrow> VER_t option" where
  "vss_getHighestVerInVB l maxver s =
     Option.bind (vss_scan s l
         (\<lambda>r _ e. if (lbid e = l \<and> vbFlag e) \<and> (verID e \<le> maxver \<and> verID e > r) then Inr (verID e) else Inr r) (-1))
       (\<lambda>out. case out of Inl (r :: VER_t) \<Rightarrow> Some r | Inr r \<Rightarrow> Some r)"

definition vss_isVersioned :: "LBID_t \<Rightarrow> VER_t \<Rightarrow> VSSShmseg \<Rightarrow> bool option" where
  "vss_isVersioned l version s =
     Option.bind (vss_scan s l (\<lambda>_ _ e. if lbid e = l \<and> verID e = version then Inl (vbFlag e) else Inr ()) ())
       (\<lambda>out. case out of Inl r \<Rightarrow> Some r | Inr _ \<Rightarrow> Some False)"

text \<open>The blocks \<open>start, start + 1, ...\<close> of a range, \<open>n\<close> of them.\<close>

fun vss_isLocked_blocks :: "nat \<Rightarrow> LBID_t \<Rightarrow> VER_t \<Rightarrow> VSSShmseg \<Rightarrow> bool option" where
  "vss_isLocked_blocks 0 l transID s = Some False"
| "vss_isLocked_blocks (Suc n) l transID s =
     Option.bind (vss_scan s l (\<lambda>_ _ e. if lbid e = l \<and> locked e then Inl (verID e \<noteq> transID) else Inr ()) ())
       (\<lambda>out. case out of Inl r \<Rightarrow> Some r | Inr _ \<Rightarrow> vss_isLocked_blocks n (l + 1) transID s)"

definition vss_isLocked :: "LBIDRange \<Rightarrow> VER_t \<Rightarrow> VSSShmseg \<Rightarrow> bool option" where
  "vss_isLocked rng transID s =
     vss_isLocked_blocks (nat (range_size rng)) (range_start rng) transID s"

definition vss_isTooOld :: "LBID_t \<Rightarrow> VER_t \<Rightarrow> VSSShmseg \<Rightarrow> bool option" where
  "vss_isTooOld l v s =
     Option.bind (vss_scan s l (\<lambda>minVer _ e. if lbid e = l \<and> minVer > verID e then Inr (verID e) else Inr minVer) 0)
       (\<lambda>out. case out of Inl (r :: bool) \<Rightarrow> Some r | Inr minVer \<Rightarrow> Some (minVer > v))"

definition vss_isEntryLocked_step ::
  "LBID_t \<Rightarrow> bool \<times> VER_t \<Rightarrow> int \<Rightarrow> VSSEntry \<Rightarrow> bool + (bool \<times> VER_t)"
where
  "vss_isEntryLocked_step l = (\<lambda>(hasALockedEntry, rollbackVersion) _ e.
     if lbid e = l then
       if locked e then Inr (True, rollbackVersion)
       else if rollbackVersion < verID e then Inr (hasALockedEntry, verID e)
       else Inr (hasALockedEntry, rollbackVersion)
     else Inr (hasALockedEntry, rollbackVersion))"

definition vss_isEntryLocked :: "LBID_t \<Rightarrow> VER_t \<Rightarrow> VSSShmseg \<Rightarrow> bool option" where
  "vss_isEntryLocked l v s =
     (if l = -1 then Some False
      else Option.bind (vss_scan s l (vss_isEntryLocked_step l) (False, 0))
        (\<lambda>out. case out of Inl r \<Rightarrow> Some r
          | Inr (hasALockedEntry, rollbackVersion) \<Rightarrow> Some (hasALockedEntry \<and> v = rollbackVersion)))"

text \<open>\<open>getIndex\<close> answers the index, \<open>prev\<close> and \<open>bucket\<close>.\<close>

definition vss_getIndex :: "LBID_t \<Rightarrow> VER_t \<Rightarrow> VSSShmseg \<Rightarrow> (int \<times> int \<times> int) option" where
  "vss_getIndex l v s =
     (let bucket = vss_hash (numHashBuckets (vss s)) l
      in Option.bind (vss_scan s l
            (\<lambda>prev i e. if lbid e = l \<and> verID e = v then Inl (i, prev, bucket) else Inr i) (-1))
          (\<lambda>out. case out of Inl r \<Rightarrow> Some r | Inr prev \<Rightarrow> Some (-1, prev, bucket)))"

text \<open>The loops over all \<open>capacity\<close> slots.\<close>

definition vss_slots :: "VSSShmseg \<Rightarrow> VSSEntry list option" where
  "vss_slots s =
     (if capacity (vss s) \<le> int (length (storage s)) then Some (take (nat (capacity (vss s))) (storage s)) else None)"

definition vss_getUncommittedLBIDs :: "VER_t \<Rightarrow> VSSShmseg \<Rightarrow> LBID_t list option" where
  "vss_getUncommittedLBIDs txnID s =
     map_option (\<lambda>es. map lbid (filter (\<lambda>e. lbid e \<noteq> -1 \<and> verID e = txnID) es)) (vss_slots s)"

definition vss_getUnlockedLBIDs :: "VSSShmseg \<Rightarrow> (LBID_t \<times> VER_t) list option" where
  "vss_getUnlockedLBIDs s =
     map_option (\<lambda>es. map (\<lambda>e. (lbid e, verID e)) (filter (\<lambda>e. lbid e \<noteq> -1 \<and> \<not> locked e) es)) (vss_slots s)"

definition vss_getLockedLBIDs :: "VSSShmseg \<Rightarrow> (LBID_t \<times> VER_t) list option" where
  "vss_getLockedLBIDs s =
     map_option (\<lambda>es. map (\<lambda>e. (lbid e, verID e)) (filter (\<lambda>e. lbid e \<noteq> -1 \<and> locked e) es)) (vss_slots s)"

definition vss_getCurrentTxnIDs :: "VSSShmseg \<Rightarrow> VER_t list option" where
  "vss_getCurrentTxnIDs s =
     map_option (\<lambda>es. remdups (map verID (filter (\<lambda>e. lbid e \<noteq> -1 \<and> locked e) es))) (vss_slots s)"

definition vss_size :: "VSSShmseg \<Rightarrow> int cpp" where
  "vss_size s =
     bind_cpp (defined (vss_slots s)) (\<lambda>es.
       let n = int (length (filter entry_used es))
       in if n \<noteq> currentSize (vss s) then throw logic_error else ret n)"

definition vss_hashEmpty :: "VSSShmseg \<Rightarrow> bool" where
  "vss_hashEmpty s = (\<forall>b \<in> set (hashBuckets s). b = -1)"

definition vss_isEmpty :: "VSSShmseg \<Rightarrow> bool" where
  "vss_isEmpty s = (currentSize (vss s) = 0)"

section \<open>Write operations\<close>

text \<open>
  The block that takes slot \<open>index\<close> out of the list of \<open>bucket\<close>: the entry's \<open>lbid\<close> becomes -1
  and its predecessor, or the bucket, takes over its link. The cleared entry keeps its link.
\<close>

definition vss_unlink :: "int \<Rightarrow> int \<Rightarrow> int \<Rightarrow> VSS \<Rightarrow> VSS option" where
  "vss_unlink prev index bucket st =
     Option.bind (arr_get (storage (seg st)) index) (\<lambda>e.
       let st1 = vss_makeUndoRecord (vd_entry (nat index) e) st;
           st2 = st1\<lparr>seg := (seg st1)\<lparr>storage := (storage (seg st1))[nat index := e\<lparr>lbid := -1\<rparr>]\<rparr>\<rparr>
       in if prev \<noteq> -1
          then Option.bind (arr_get (storage (seg st2)) prev) (\<lambda>p.
            let st3 = vss_makeUndoRecord (vd_entry (nat prev) p) st2
            in Some (st3\<lparr>seg := (seg st3)\<lparr>storage :=
                 (storage (seg st3))[nat prev := p\<lparr>next' := next' (storage (seg st3) ! nat index)\<rparr>]\<rparr>\<rparr>))
          else Option.bind (arr_get (hashBuckets (seg st2)) bucket) (\<lambda>v.
            let st3 = vss_makeUndoRecord (vd_bucket (nat bucket) v) st2
            in Some (st3\<lparr>seg := (seg st3)\<lparr>hashBuckets :=
                 (hashBuckets (seg st3))[nat bucket := next' (storage (seg st3) ! nat index)]\<rparr>\<rparr>)))"

text \<open>The counters after slot \<open>index\<close> has been freed.\<close>

definition vss_uncount :: "int \<Rightarrow> VSS \<Rightarrow> VSS option" where
  "vss_uncount index st =
     Option.bind (arr_get (storage (seg st)) index) (\<lambda>e.
       let h = vss (seg st);
           h = h\<lparr>currentSize := currentSize h - 1\<rparr>;
           h = (if locked e \<and> lockedEntryCount h > 0
                then h\<lparr>lockedEntryCount := lockedEntryCount h - 1\<rparr> else h);
           h = (if index < LWM h then h\<lparr>LWM := index\<rparr> else h)
       in Some (st\<lparr>seg := (seg st)\<lparr>vss := h\<rparr>\<rparr>))"

text \<open>
  The loop that removes every entry of block \<open>l\<close> from its bucket. The loop state is \<open>prev\<close>
  and the table; \<open>storage[index].next\<close> is read after the body.
\<close>

definition vss_purge_body :: "LBID_t \<Rightarrow> int \<Rightarrow> int \<Rightarrow> int \<times> VSS \<Rightarrow> (unit + int \<times> VSS) option" where
  "vss_purge_body l bucket index = (\<lambda>(prev, st).
     Option.bind (arr_get (storage (seg st)) index) (\<lambda>e.
       if lbid e = l
       then Option.bind (vss_unlink prev index bucket st) (\<lambda>st1.
            Option.bind (vss_uncount index st1) (\<lambda>st2. Some (Inr (prev, st2))))
       else Some (Inr (index, st))))"

definition vss_purge :: "LBID_t \<Rightarrow> int \<Rightarrow> VSS \<Rightarrow> VSS option" where
  "vss_purge l bucket st =
     Option.bind (arr_get (hashBuckets (seg st)) bucket) (\<lambda>head.
     Option.bind (for_chain (\<lambda>(_, st) i. map_option next' (arr_get (storage (seg st)) i))
                    (vss_purge_body l bucket) head (-1, st)) (\<lambda>out.
       case out of Inl _ \<Rightarrow> None | Inr (_, st') \<Rightarrow> Some st'))"

text \<open>\<open>removeEntry\<close> answers the table and the flush list.\<close>

definition vss_removeEntry :: "LBID_t \<Rightarrow> VER_t \<Rightarrow> LBID_t list \<Rightarrow> VSS \<Rightarrow> (VSS \<times> LBID_t list) option" where
  "vss_removeEntry l v flushList st =
     Option.bind (vss_getIndex l v (seg st)) (\<lambda>(index, prev, bucket).
       if index = -1 then Some (st, flushList)
       else
         Option.bind (vss_unlink prev index bucket st) (\<lambda>st1.
         Option.bind (vss_uncount index (vss_makeUndoRecord (vd_header (vss (seg st1))) st1)) (\<lambda>st2.
         Option.bind (arr_get (hashBuckets (seg st2)) bucket) (\<lambda>head.
         Option.bind (scan_chain next' (storage (seg st2))
             (\<lambda>_ _ e. if lbid e = l \<and> (vbFlag e \<or> locked e) then Inl () else Inr ()) head ()) (\<lambda>out.
           case out of
             Inl _ \<Rightarrow> Some (st2, flushList)
           | Inr _ \<Rightarrow> Option.bind (vss_purge l bucket st2) (\<lambda>st3. Some (st3, flushList @ [l])))))))"

definition vss_setVBFlag :: "LBID_t \<Rightarrow> VER_t \<Rightarrow> bool \<Rightarrow> VSS \<Rightarrow> VSS cpp" where
  "vss_setVBFlag l v flag st =
     bind_cpp (defined (vss_getIndex l v (seg st))) (\<lambda>(index, prev, bucket).
       if index = -1 then throw logic_error
       else bind_cpp (defined (arr_get (storage (seg st)) index)) (\<lambda>e.
         let st1 = vss_makeUndoRecord (vd_entry (nat index) e) st
         in ret (st1\<lparr>seg := (seg st1)\<lparr>storage := (storage (seg st1))[nat index := e\<lparr>vbFlag := flag\<rparr>]\<rparr>\<rparr>)))"

text \<open>One iteration of the loop of \<open>commit\<close>, and the loop over the slots \<open>0, 1, ...\<close>.\<close>

definition vss_commit_slot :: "VER_t \<Rightarrow> nat \<Rightarrow> VSS \<Rightarrow> VSS" where
  "vss_commit_slot txnID i st =
     (let e = storage (seg st) ! i
      in if lbid e \<noteq> -1 \<and> verID e = txnID
         then let st1 = vss_makeUndoRecord (vd_entry i e) st;
                  s = (seg st1)\<lparr>storage := (storage (seg st1))[i := e\<lparr>locked := False\<rparr>]\<rparr>;
                  h = vss s;
                  h = (if lockedEntryCount h > 0 then h\<lparr>lockedEntryCount := lockedEntryCount h - 1\<rparr> else h)
              in st1\<lparr>seg := s\<lparr>vss := h\<rparr>\<rparr>
         else st)"

definition vss_commit :: "VER_t \<Rightarrow> VSS \<Rightarrow> VSS option" where
  "vss_commit txnID st =
     (if capacity (vss (seg st)) \<le> int (length (storage (seg st)))
      then Some (fold (vss_commit_slot txnID) [0..<nat (capacity (vss (seg st)))] st)
      else None)"

section \<open>The saved image\<close>

text \<open>
  A VSS file: the magic number, the number of entries, and the entries as whole structs.
  Opening the file is the caller's; a read past the end is the failure the code reports.
\<close>

record VSSFile =
  vf_magic :: int
  vf_entries :: int
  vf_body :: "VSSEntry list"

definition VSS_MAGIC_V1 :: int where "VSS_MAGIC_V1 = 0x7218db12"

definition vss_save :: "VSSShmseg \<Rightarrow> VSSFile option" where
  "vss_save s =
     map_option (\<lambda>es. \<lparr>vf_magic = VSS_MAGIC_V1, vf_entries = currentSize (vss s), vf_body = filter entry_used es\<rparr>)
       (vss_slots s)"

fun vss_load_entries :: "nat \<Rightarrow> VSSEntry list \<Rightarrow> VSS \<Rightarrow> VSS cpp" where
  "vss_load_entries 0 es st = ret st"
| "vss_load_entries (Suc n) [] st = throw runtime_error"
| "vss_load_entries (Suc n) (e # es) st =
     bind_cpp (defined (vss_insert (lbid e) (verID e) (vbFlag e) (locked e) True st))
       (vss_load_entries n es)"

definition vss_load :: "VSSFile \<Rightarrow> VSS \<Rightarrow> VSS cpp" where
  "vss_load f st =
     (if vf_magic f \<noteq> VSS_MAGIC_V1 then throw runtime_error
      else if vf_entries f < 0 then throw runtime_error
      else vss_load_entries (nat (vf_entries f)) (vf_body f) (vss_growForLoad (vf_entries f) st))"

end
