(* ===== verification/VBBM.thy ===== *)
theory VBBM
  imports VSS
begin

text \<open>
  The Version Buffer Block Map (\<open>versioning/BRM/vbbm.cpp\<close>, \<open>vbbm.h\<close>): the shared-memory hash
  table from a block and a version to the place of that version's copy in a version buffer
  file, with the allocation of version buffer space. It is built like the version
  substitution structure, which \<open>getBlocks\<close> calls.
\<close>

section \<open>Data\<close>

record VBFileMetadata =
  OID :: OID_t
  fileSize :: int
  nextOffset :: int

record VBBMEntry =
  vb_lbid :: LBID_t
  vb_verID :: VER_t
  vbOID :: OID_t
  vbFBO :: int
  vb_next :: int

record VBShmsegHeader =
  nFiles :: int
  vbCapacity :: int
  vbCurrentSize :: int
  vbLWM :: int
  vb_numHashBuckets :: int

text \<open>A segment: the header, the file table, the buckets, the entries.\<close>

record VBShmseg =
  vbbm :: VBShmsegHeader
  files :: "VBFileMetadata list"
  vb_hashBuckets :: "int list"
  vb_storage :: "VBBMEntry list"

datatype vb_delta =
    bd_header VBShmsegHeader
  | bd_currentSize int
  | bd_entry nat VBBMEntry
  | bd_bucket nat int
  | bd_file nat VBFileMetadata

text \<open>
  \<open>vb_config\<close> is the configuration value \<open>VersionBuffer/VersionBufferFileSize\<close>, which
  \<open>Config::getConfig\<close> and \<open>Config::fromText\<close> supply: \<^term>\<open>None\<close> when the key is missing.
\<close>

record VBBM =
  vb_seg :: VBShmseg
  vbbmShminfo :: MSTEntry
  vb_undoRecords :: "(int \<times> vb_delta) list"
  currentFileSize :: int
  vb_config :: "int option"

record VBRange =
  vbr_OID :: OID_t
  vbr_FBO :: int
  vbr_size :: int

section \<open>The undo log\<close>

definition vb_makeUndoRecord :: "vb_delta \<Rightarrow> VBBM \<Rightarrow> VBBM" where
  "vb_makeUndoRecord d st = st\<lparr>vb_undoRecords := vb_undoRecords st @ [(tableShmkey (vbbmShminfo st), d)]\<rparr>"

fun vb_apply_delta :: "vb_delta \<Rightarrow> VBShmseg \<Rightarrow> VBShmseg" where
  "vb_apply_delta (bd_header h) s = s\<lparr>vbbm := h\<rparr>"
| "vb_apply_delta (bd_currentSize n) s = s\<lparr>vbbm := (vbbm s)\<lparr>vbCurrentSize := n\<rparr>\<rparr>"
| "vb_apply_delta (bd_entry i e) s = s\<lparr>vb_storage := (vb_storage s)[i := e]\<rparr>"
| "vb_apply_delta (bd_bucket b v) s = s\<lparr>vb_hashBuckets := (vb_hashBuckets s)[b := v]\<rparr>"
| "vb_apply_delta (bd_file i f) s = s\<lparr>files := (files s)[i := f]\<rparr>"

definition vb_undoChanges :: "VBBM \<Rightarrow> VBBM option" where
  "vb_undoChanges st =
     (if \<forall>r \<in> set (vb_undoRecords st). fst r = tableShmkey (vbbmShminfo st)
      then Some (st\<lparr>vb_seg := foldr vb_apply_delta (map snd (vb_undoRecords st)) (vb_seg st), vb_undoRecords := []\<rparr>)
      else None)"

definition vb_confirmChanges :: "VBBM \<Rightarrow> VBBM" where
  "vb_confirmChanges st = st\<lparr>vb_undoRecords := []\<rparr>"

section \<open>Segments\<close>

definition sizeof_VBBMEntry :: int where "sizeof_VBBMEntry = 24"
definition sizeof_VBFileMetadata :: int where "sizeof_VBFileMetadata = 24"
definition sizeof_VBShmsegHeader :: int where "sizeof_VBShmsegHeader = 20"
definition VBSTORAGE_INITIAL_COUNT :: int where "VBSTORAGE_INITIAL_COUNT = 100000"
definition VBSTORAGE_INCREMENT_COUNT :: int where "VBSTORAGE_INCREMENT_COUNT = 10000"
definition VBTABLE_INITIAL_COUNT :: int where "VBTABLE_INITIAL_COUNT = 25000"
definition VBTABLE_INCREMENT_COUNT :: int where "VBTABLE_INCREMENT_COUNT = 2500"
definition VBBM_CHUNK_SIZE :: int where "VBBM_CHUNK_SIZE = 100"

definition vb_initial_alloc :: "int \<Rightarrow> int" where
  "vb_initial_alloc n = sizeof_VBShmsegHeader + n * sizeof_VBFileMetadata
     + VBSTORAGE_INITIAL_COUNT * sizeof_VBBMEntry + VBTABLE_INITIAL_COUNT * 4"

definition VBBM_INCREMENT :: int where
  "VBBM_INCREMENT = VBTABLE_INCREMENT_COUNT * 4 + VBSTORAGE_INCREMENT_COUNT * sizeof_VBBMEntry"

definition VBBM_SIZE :: "int \<Rightarrow> int \<Rightarrow> int" where
  "VBBM_SIZE fs entries = entries * sizeof_VBBMEntry + entries div 4 * 4
     + fs * sizeof_VBFileMetadata + sizeof_VBShmsegHeader"

definition vb_empty_entry :: VBBMEntry where
  "vb_empty_entry = \<lparr>vb_lbid = -1, vb_verID = 0, vbOID = 0, vbFBO = 0, vb_next = 0\<rparr>"

definition empty_file :: VBFileMetadata where
  "empty_file = \<lparr>OID = 0, fileSize = 0, nextOffset = 0\<rparr>"

definition vb_fresh_seg :: "VBFileMetadata list \<Rightarrow> int \<Rightarrow> int \<Rightarrow> int \<Rightarrow> VBShmseg" where
  "vb_fresh_seg fs cap buckets sz =
     \<lparr>vbbm = \<lparr>nFiles = int (length fs), vbCapacity = cap, vbCurrentSize = sz, vbLWM = 0,
              vb_numHashBuckets = buckets\<rparr>,
      files = fs,
      vb_hashBuckets = replicate (nat buckets) (-1),
      vb_storage = replicate (nat cap) vb_empty_entry\<rparr>"

definition setCurrentFileSize :: "VBBM \<Rightarrow> VBBM cpp" where
  "setCurrentFileSize st =
     (case vb_config st of
        None \<Rightarrow> throw invalid_argument
      | Some ltmp \<Rightarrow> if ltmp < 1 then throw invalid_argument else ret (st\<lparr>currentFileSize := ltmp\<rparr>))"

definition vb_initShmseg :: "VBFileMetadata list \<Rightarrow> VBShmseg" where
  "vb_initShmseg fs = vb_fresh_seg fs VBSTORAGE_INITIAL_COUNT VBTABLE_INITIAL_COUNT 0"

definition vb_chooseShmkey :: "VBBM \<Rightarrow> int" where
  "vb_chooseShmkey st = choose_key KEYRANGE_VBBM_BASE (tableShmkey (vbbmShminfo st))"

section \<open>Insertion and growth\<close>

definition vb_used :: "VBBMEntry \<Rightarrow> bool" where
  "vb_used e \<longleftrightarrow> vb_lbid e \<noteq> -1"

definition vb_hash :: "int \<Rightarrow> LBID_t \<Rightarrow> VER_t \<Rightarrow> int" where
  "vb_hash n l v = hash_mod (lbid_bytes l @ ver_bytes v) n"

definition vb_insert_entry :: "VBBMEntry \<Rightarrow> bool \<Rightarrow> VBShmseg \<Rightarrow> (VBShmseg \<times> vb_delta list) option" where
  "vb_insert_entry e loading dest =
     (let hashIndex = vb_hash (vb_numHashBuckets (vbbm dest)) (vb_lbid e) (vb_verID e)
      in if vbLWM (vbbm dest) < 0 then None
         else Option.bind (find_free vb_used (vb_storage dest) (nat (vbLWM (vbbm dest)))) (\<lambda>insertIndex.
              Option.bind (arr_get (vb_hashBuckets dest) hashIndex) (\<lambda>head.
                Some (dest\<lparr>vbbm := (vbbm dest)\<lparr>vbLWM := int insertIndex\<rparr>,
                           vb_storage := (vb_storage dest)[insertIndex := e\<lparr>vb_next := head\<rparr>],
                           vb_hashBuckets := (vb_hashBuckets dest)[nat hashIndex := int insertIndex]\<rparr>,
                      if loading then []
                      else [bd_header (vbbm dest), bd_entry insertIndex (vb_storage dest ! insertIndex),
                            bd_bucket (nat hashIndex) head]))))"

fun vb_copy_entries :: "VBBMEntry list \<Rightarrow> VBShmseg \<Rightarrow> VBShmseg option" where
  "vb_copy_entries [] dest = Some dest"
| "vb_copy_entries (e # es) dest =
     (if vb_lbid e \<noteq> -1
      then Option.bind (vb_insert_entry e True dest) (\<lambda>(dest', _). vb_copy_entries es dest')
      else vb_copy_entries es dest)"

text \<open>\<open>copyVBBM\<close> walks the first \<open>vbCurrentSize\<close> slots of the source.\<close>

definition copyVBBM :: "VBFileMetadata list \<Rightarrow> VBShmseg \<Rightarrow> int \<Rightarrow> int \<Rightarrow> VBShmseg option" where
  "copyVBBM fs src cap buckets =
     (if vbCurrentSize (vbbm src) > int (length (vb_storage src)) then None
      else vb_copy_entries (take (nat (vbCurrentSize (vbbm src))) (vb_storage src))
             (vb_fresh_seg fs cap buckets (vbCurrentSize (vbbm src))))"

text \<open>
  \<open>growVBBM(true)\<close> increments \<open>nFiles\<close> before \<open>copyVBBM\<close> copies \<open>nFiles\<close> descriptors, so the
  last one is read from the memory behind the old file table: the first six buckets. Both
  callers overwrite it.
\<close>

definition overlay_file :: "int list \<Rightarrow> VBFileMetadata option" where
  "overlay_file hb =
     (if length hb < 6 then None
      else Some \<lparr>OID = hb ! 0, fileSize = u32_of (hb ! 2) + 2 ^ 32 * u32_of (hb ! 3),
                 nextOffset = u32_of (hb ! 4) + 2 ^ 32 * u32_of (hb ! 5)\<rparr>)"

definition growVBBM :: "bool \<Rightarrow> VBBM \<Rightarrow> VBBM cpp" where
  "growVBBM addAFile st =
     (let newshmkey = vb_chooseShmkey st; s = vb_seg st
      in if allocdSize (vbbmShminfo st) = 0
         then let fs = (if addAFile then [empty_file] else [])
              in bind_cpp (setCurrentFileSize st) (\<lambda>st1.
                   ret (st1\<lparr>vb_seg := vb_initShmseg fs,
                            vbbmShminfo := (vbbmShminfo st)\<lparr>tableShmkey := newshmkey,
                               allocdSize := vb_initial_alloc (int (length fs))\<rparr>\<rparr>))
         else bind_cpp (defined (if addAFile then map_option (\<lambda>f. files s @ [f]) (overlay_file (vb_hashBuckets s))
                                 else Some (files s))) (\<lambda>fs.
              bind_cpp (defined (copyVBBM fs s
                  (vbCapacity (vbbm s) + (if addAFile then 0 else VBSTORAGE_INCREMENT_COUNT))
                  (vb_numHashBuckets (vbbm s) + (if addAFile then 0 else VBTABLE_INCREMENT_COUNT)))) (\<lambda>s'.
                ret (st\<lparr>vb_seg := s', vb_undoRecords := [],
                        vbbmShminfo := (vbbmShminfo st)\<lparr>tableShmkey := newshmkey,
                          allocdSize := allocdSize (vbbmShminfo st) +
                            (if addAFile then sizeof_VBFileMetadata else VBBM_INCREMENT)\<rparr>\<rparr>))))"

definition vb_growForLoad :: "int \<Rightarrow> VBBM \<Rightarrow> VBBM" where
  "vb_growForLoad count0 st =
     (let n = (if count0 < VBSTORAGE_INITIAL_COUNT then VBSTORAGE_INITIAL_COUNT else count0);
          n = (if n mod VBSTORAGE_INCREMENT_COUNT \<noteq> 0
               then (n div VBSTORAGE_INCREMENT_COUNT + 1) * VBSTORAGE_INCREMENT_COUNT else n)
      in st\<lparr>vb_seg := vb_fresh_seg (files (vb_seg st)) n (n div 4) 0, vb_undoRecords := [],
            vbbmShminfo := (vbbmShminfo st)\<lparr>tableShmkey := vb_chooseShmkey st,
              allocdSize := VBBM_SIZE (int (length (files (vb_seg st)))) n\<rparr>\<rparr>)"

definition vb_insert :: "LBID_t \<Rightarrow> VER_t \<Rightarrow> OID_t \<Rightarrow> int \<Rightarrow> bool \<Rightarrow> VBBM \<Rightarrow> VBBM cpp" where
  "vb_insert l v oid fbo loading st =
     (let entry = \<lparr>vb_lbid = l, vb_verID = v, vbOID = oid, vbFBO = fbo, vb_next = -1\<rparr>
      in bind_cpp (if vbCurrentSize (vbbm (vb_seg st)) = vbCapacity (vbbm (vb_seg st)) then growVBBM False st else ret st)
           (\<lambda>st1. bind_cpp (defined (vb_insert_entry entry loading (vb_seg st1))) (\<lambda>(s, ds).
              let st2 = fold vb_makeUndoRecord ds (st1\<lparr>vb_seg := s\<rparr>);
                  st3 = (if loading then st2
                         else vb_makeUndoRecord (bd_currentSize (vbCurrentSize (vbbm (vb_seg st2)))) st2);
                  h = vbbm (vb_seg st3)
              in ret (st3\<lparr>vb_seg := (vb_seg st3)\<lparr>vbbm := h\<lparr>vbCurrentSize := vbCurrentSize h + 1\<rparr>\<rparr>\<rparr>))))"

section \<open>Lookup and removal\<close>

text \<open>\<open>getIndex\<close> answers the index, \<open>prev\<close> and \<open>bucket\<close>.\<close>

definition vb_getIndex :: "LBID_t \<Rightarrow> VER_t \<Rightarrow> VBShmseg \<Rightarrow> (int \<times> int \<times> int) option" where
  "vb_getIndex l v s =
     (let bucket = vb_hash (vb_numHashBuckets (vbbm s)) l v
      in Option.bind (arr_get (vb_hashBuckets s) bucket) (\<lambda>head.
           if head = -1 then Some (-1, -1, bucket)
           else Option.bind (scan_chain vb_next (vb_storage s)
                  (\<lambda>prev i e. if vb_lbid e = l \<and> vb_verID e = v then Inl (i, prev, bucket) else Inr i) head (-1))
                (\<lambda>out. case out of Inl r \<Rightarrow> Some r | Inr prev \<Rightarrow> Some (-1, prev, bucket))))"

text \<open>\<open>lookup\<close> answers the file and the offset, or \<^term>\<open>None\<close> for the return code -1.\<close>

definition vb_lookup :: "LBID_t \<Rightarrow> VER_t \<Rightarrow> VBShmseg \<Rightarrow> (OID_t \<times> int) option cpp" where
  "vb_lookup l v s =
     (if l < 0 then throw invalid_argument
      else if v < 0 then throw invalid_argument
      else bind_cpp (defined (vb_getIndex l v s)) (\<lambda>(index, prev, bucket).
        if index = -1 then ret None
        else bind_cpp (defined (arr_get (vb_storage s) index)) (\<lambda>e. ret (Some (vbOID e, vbFBO e)))))"

definition vb_unlink :: "int \<Rightarrow> int \<Rightarrow> int \<Rightarrow> VBBM \<Rightarrow> VBBM option" where
  "vb_unlink prev index bucket st =
     Option.bind (arr_get (vb_storage (vb_seg st)) index) (\<lambda>e.
       let st1 = vb_makeUndoRecord (bd_entry (nat index) e) st;
           st2 = st1\<lparr>vb_seg := (vb_seg st1)\<lparr>vb_storage := (vb_storage (vb_seg st1))[nat index := e\<lparr>vb_lbid := -1\<rparr>]\<rparr>\<rparr>
       in if prev \<noteq> -1
          then Option.bind (arr_get (vb_storage (vb_seg st2)) prev) (\<lambda>p.
            let st3 = vb_makeUndoRecord (bd_entry (nat prev) p) st2
            in Some (st3\<lparr>vb_seg := (vb_seg st3)\<lparr>vb_storage :=
                 (vb_storage (vb_seg st3))[nat prev := p\<lparr>vb_next := vb_next (vb_storage (vb_seg st3) ! nat index)\<rparr>]\<rparr>\<rparr>))
          else Option.bind (arr_get (vb_hashBuckets (vb_seg st2)) bucket) (\<lambda>v.
            let st3 = vb_makeUndoRecord (bd_bucket (nat bucket) v) st2
            in Some (st3\<lparr>vb_seg := (vb_seg st3)\<lparr>vb_hashBuckets :=
                 (vb_hashBuckets (vb_seg st3))[nat bucket := vb_next (vb_storage (vb_seg st3) ! nat index)]\<rparr>\<rparr>)))"

definition vb_removeEntry :: "LBID_t \<Rightarrow> VER_t \<Rightarrow> VBBM \<Rightarrow> VBBM option" where
  "vb_removeEntry l v st =
     Option.bind (vb_getIndex l v (vb_seg st)) (\<lambda>(index, prev, bucket).
       if index = -1 then Some st
       else Option.bind (vb_unlink prev index bucket st) (\<lambda>st1.
         let st2 = vb_makeUndoRecord (bd_header (vbbm (vb_seg st1))) st1;
             h = vbbm (vb_seg st2);
             h = h\<lparr>vbCurrentSize := vbCurrentSize h - 1\<rparr>;
             h = (if vbLWM h > index then h\<lparr>vbLWM := index\<rparr> else h)
         in Some (st2\<lparr>vb_seg := (vb_seg st2)\<lparr>vbbm := h\<rparr>\<rparr>)))"

definition vb_size :: "VBShmseg \<Rightarrow> int" where
  "vb_size s = vbCurrentSize (vbbm s)"

definition vb_hashEmpty :: "VBShmseg \<Rightarrow> bool" where
  "vb_hashEmpty s = (\<forall>b \<in> set (vb_hashBuckets s). b = -1)"

section \<open>Version buffer files\<close>

fun file_index :: "OID_t \<Rightarrow> VBFileMetadata list \<Rightarrow> nat" where
  "file_index oid [] = 0"
| "file_index oid (f # fs) = (if OID f = oid then 0 else Suc (file_index oid fs))"

definition addVBFileIfNotExists :: "OID_t \<Rightarrow> VBBM \<Rightarrow> (nat \<times> VBBM) cpp" where
  "addVBFileIfNotExists oid st =
     (let i = file_index oid (files (vb_seg st))
      in if i = length (files (vb_seg st))
         then bind_cpp (setCurrentFileSize st) (\<lambda>st1.
              bind_cpp (growVBBM True st1) (\<lambda>st2.
                ret (i, st2\<lparr>vb_seg := (vb_seg st2)\<lparr>files := (files (vb_seg st2))
                       [i := \<lparr>OID = oid, fileSize = currentFileSize st2, nextOffset = 0\<rparr>]\<rparr>\<rparr>)))
         else ret (i, st))"

text \<open>One turn of the loop that gathers ranges in file \<open>fi\<close>: the range and the file's new position.\<close>

definition gather_range :: "VBFileMetadata \<Rightarrow> int \<Rightarrow> VBRange \<times> VBFileMetadata" where
  "gather_range f blocksLeft =
     (let blocksLeftInFile = s32_of (u64_of (fileSize f - nextOffset f) div BLOCK_SIZE);
          sz = u32_of (if blocksLeftInFile \<ge> blocksLeft then blocksLeft else blocksLeftInFile)
      in (\<lparr>vbr_OID = OID f, vbr_FBO = u32_of (nextOffset f div BLOCK_SIZE), vbr_size = sz\<rparr>,
          f\<lparr>nextOffset := if sz = u32_of blocksLeftInFile then 0
                          else u64_of (nextOffset f + sz * BLOCK_SIZE)\<rparr>))"

partial_function (option) vb_gather ::
  "nat \<Rightarrow> int \<Rightarrow> int \<Rightarrow> VBRange list \<Rightarrow> VBBM \<Rightarrow> (VBRange list \<times> VBBM) option"
where
  "vb_gather fi num blocksGathered freeRanges st =
     (if blocksGathered < num
      then Option.bind (arr_get (files (vb_seg st)) (int fi)) (\<lambda>f.
        let (range1, f') = gather_range f (num - blocksGathered);
            st1 = vb_makeUndoRecord (bd_file fi f) st;
            st2 = st1\<lparr>vb_seg := (vb_seg st1)\<lparr>files := (files (vb_seg st1))[fi := f']\<rparr>\<rparr>
        in vb_gather fi num (s32_of (blocksGathered + vbr_size range1)) (freeRanges @ [range1]) st2)
      else Some (freeRanges, st))"

text \<open>The range of offsets one gathered range ages out, \<^term>\<open>None\<close> for \<open>continue\<close>.\<close>

definition age_bounds :: "VBFileMetadata \<Rightarrow> VBRange \<Rightarrow> (int \<times> int) option" where
  "age_bounds f r =
     (let firstFBO = vbr_FBO r;
          lastFBO = u32_of (vbr_FBO r + vbr_size r - 1);
          firstChunk = firstFBO div VBBM_CHUNK_SIZE;
          lastChunk = lastFBO div VBBM_CHUNK_SIZE
      in if firstFBO mod VBBM_CHUNK_SIZE \<noteq> 0 \<and> firstChunk = lastChunk then None
         else let firstFBO = (if firstFBO mod VBBM_CHUNK_SIZE \<noteq> 0
                              then u32_of ((firstChunk + 1) * VBBM_CHUNK_SIZE) else firstFBO);
                  lastFBO = u32_of ((lastChunk + 1) * VBBM_CHUNK_SIZE - 1);
                  lastFBO = (if lastFBO > fileSize f div BLOCK_SIZE
                             then u32_of (fileSize f div BLOCK_SIZE) else lastFBO)
              in Some (firstFBO, lastFBO))"

definition age_match :: "OID_t \<Rightarrow> int \<Rightarrow> int \<Rightarrow> VBBMEntry \<Rightarrow> bool" where
  "age_match oid firstFBO lastFBO e \<longleftrightarrow>
     vb_lbid e \<noteq> -1 \<and> vbOID e = oid \<and> vbFBO e \<ge> firstFBO \<and> vbFBO e \<le> lastFBO"

text \<open>
  The loop that ages entries out answers whether it threw \<open>VBBMBufferOverFlowExcept\<close>, with the
  tables and the flush list as they are at that point: the caller catches it and goes on.
\<close>

fun age_slots ::
  "OID_t \<Rightarrow> int \<Rightarrow> int \<Rightarrow> nat list \<Rightarrow> VSS \<times> VBBM \<times> LBID_t list \<Rightarrow> (bool \<times> VSS \<times> VBBM \<times> LBID_t list) option"
where
  "age_slots oid firstFBO lastFBO [] s = Some (False, s)"
| "age_slots oid firstFBO lastFBO (i # is) (vs, vb, flushList) =
     Option.bind (arr_get (vb_storage (vb_seg vb)) (int i)) (\<lambda>e.
       if age_match oid firstFBO lastFBO e
       then Option.bind (vss_isEntryLocked (vb_lbid e) (vb_verID e) (seg vs)) (\<lambda>lk.
              if lk then Some (True, vs, vb, flushList)
              else Option.bind (vss_removeEntry (vb_lbid e) (vb_verID e) flushList vs) (\<lambda>(vs', flushList').
                   Option.bind (vb_removeEntry (vb_lbid e) (vb_verID e) vb) (\<lambda>vb'.
                     age_slots oid firstFBO lastFBO is (vs', vb', flushList'))))
       else age_slots oid firstFBO lastFBO is (vs, vb, flushList))"

fun age_ranges ::
  "nat \<Rightarrow> VBRange list \<Rightarrow> VSS \<times> VBBM \<times> LBID_t list \<Rightarrow> (bool \<times> VSS \<times> VBBM \<times> LBID_t list) option"
where
  "age_ranges fi [] s = Some (False, s)"
| "age_ranges fi (r # rs) (vs, vb, flushList) =
     Option.bind (arr_get (files (vb_seg vb)) (int fi)) (\<lambda>f.
       case age_bounds f r of
         None \<Rightarrow> age_ranges fi rs (vs, vb, flushList)
       | Some (firstFBO, lastFBO) \<Rightarrow>
           Option.bind (age_slots (vbr_OID r) firstFBO lastFBO [0..<nat (vbCapacity (vbbm (vb_seg vb)))] (vs, vb, flushList))
             (\<lambda>(overflow, s'). if overflow then Some (True, s') else age_ranges fi rs s'))"

text \<open>\<open>while ((vbCurrentSize + num) > vbCapacity) growVBBM();\<close>\<close>

partial_function (option) vb_make_room :: "int \<Rightarrow> VBBM \<Rightarrow> VBBM cpp" where
  "vb_make_room num st =
     (if vbCurrentSize (vbbm (vb_seg st)) + num > vbCapacity (vbbm (vb_seg st))
      then (case growVBBM False st of
              None \<Rightarrow> None | Some (Inl e) \<Rightarrow> Some (Inl e) | Some (Inr st') \<Rightarrow> vb_make_room num st')
      else Some (Inr st))"

text \<open>
  \<open>getBlocks\<close> answers the ranges, both tables and the flush list it hands to
  \<open>cacheutils::flushPrimProcAllverBlocks\<close>. \<^term>\<open>None\<close> for the ranges is \<open>VBBMBufferOverFlowExcept\<close>.
\<close>

definition vb_getBlocks ::
  "int \<Rightarrow> OID_t \<Rightarrow> VSS \<Rightarrow> VBBM \<Rightarrow> (VBRange list option \<times> VSS \<times> VBBM \<times> LBID_t list) cpp"
where
  "vb_getBlocks num oid vs st =
     bind_cpp (addVBFileIfNotExists oid st) (\<lambda>(fileIndex, st1).
     bind_cpp (defined (arr_get (files (vb_seg st1)) (int fileIndex))) (\<lambda>f.
       if u32_of num > fileSize f div BLOCK_SIZE then ret (None, vs, st1, [])
       else bind_cpp (vb_make_room num st1) (\<lambda>st2.
            bind_cpp (defined (vb_gather fileIndex num 0 [] st2)) (\<lambda>(freeRanges, st3).
            bind_cpp (defined (age_ranges fileIndex freeRanges (vs, st3, []))) (\<lambda>(overflow, vs', st4, flushList).
              ret (if overflow then None else Some freeRanges, vs', st4, flushList))))))"

section \<open>clear, save and load\<close>

definition vb_clear :: "VBBM \<Rightarrow> VBBM cpp" where
  "vb_clear st =
     bind_cpp (setCurrentFileSize st) (\<lambda>st1.
       let fs = map (\<lambda>f. f\<lparr>fileSize := currentFileSize st1, nextOffset := 0\<rparr>) (files (vb_seg st1))
       in ret (st1\<lparr>vb_seg := vb_initShmseg fs,
                   vbbmShminfo := (vbbmShminfo st1)\<lparr>tableShmkey := vb_chooseShmkey st1,
                     allocdSize := vb_initial_alloc (int (length fs))\<rparr>\<rparr>))"

record VBBMFile =
  bf_magic :: int
  bf_entries :: int
  bf_nFiles :: int
  bf_files :: "VBFileMetadata list"
  bf_body :: "VBBMEntry list"

definition VBBM_MAGIC_V1 :: int where "VBBM_MAGIC_V1 = 0x7b27ec13"
definition VBBM_MAGIC_V2 :: int where "VBBM_MAGIC_V2 = 0x1fb58c7a"

definition vb_save :: "VBShmseg \<Rightarrow> VBBMFile option" where
  "vb_save s =
     (if vbCapacity (vbbm s) \<le> int (length (vb_storage s)) \<and> nFiles (vbbm s) \<le> int (length (files s))
      then Some \<lparr>bf_magic = VBBM_MAGIC_V2, bf_entries = vbCurrentSize (vbbm s), bf_nFiles = nFiles (vbbm s),
                 bf_files = take (nat (nFiles (vbbm s))) (files s),
                 bf_body = filter vb_used (take (nat (vbCapacity (vbbm s))) (vb_storage s))\<rparr>
      else None)"

fun vb_load_entries :: "bool \<Rightarrow> nat \<Rightarrow> VBBMEntry list \<Rightarrow> VBBM \<Rightarrow> VBBM cpp" where
  "vb_load_entries addFiles 0 es st = ret st"
| "vb_load_entries addFiles (Suc n) [] st = throw runtime_error"
| "vb_load_entries addFiles (Suc n) (e # es) st =
     bind_cpp (vb_insert (vb_lbid e) (vb_verID e) (vbOID e) (vbFBO e) True st) (\<lambda>st1.
     bind_cpp (if addFiles then addVBFileIfNotExists (vbOID e) st1 else ret (0, st1)) (\<lambda>(_, st2).
       vb_load_entries addFiles n es st2))"

definition vb_loadVersion1 :: "VBBMFile \<Rightarrow> VBBM \<Rightarrow> VBBM cpp" where
  "vb_loadVersion1 f st =
     bind_cpp (vb_clear st) (vb_load_entries True (nat (bf_entries f)) (bf_body f))"

text \<open>\<open>while (vbbm->nFiles < nFiles) growVBBM(true);\<close>\<close>

fun vb_add_files :: "nat \<Rightarrow> VBBM \<Rightarrow> VBBM cpp" where
  "vb_add_files 0 st = ret st"
| "vb_add_files (Suc n) st = bind_cpp (growVBBM True st) (vb_add_files n)"

definition vb_loadVersion2 :: "VBBMFile \<Rightarrow> VBBM \<Rightarrow> VBBM cpp" where
  "vb_loadVersion2 f st =
     (let s = vb_seg st;
          st0 = (if nFiles (vbbm s) > bf_nFiles f
                 then st\<lparr>vb_seg := s\<lparr>vbbm := (vbbm s)\<lparr>nFiles := bf_nFiles f\<rparr>,
                                      files := take (nat (bf_nFiles f)) (files s)\<rparr>\<rparr>
                 else st)
      in bind_cpp (vb_clear st0) (\<lambda>st1.
         bind_cpp (vb_add_files (nat (bf_nFiles f - nFiles (vbbm (vb_seg st1)))) st1) (\<lambda>st2.
           let st3 = vb_growForLoad (bf_entries f) st2
           in if length (bf_files f) < nat (bf_nFiles f) then throw runtime_error
              else vb_load_entries False (nat (bf_entries f)) (bf_body f)
                     (st3\<lparr>vb_seg := (vb_seg st3)\<lparr>files := take (nat (bf_nFiles f)) (bf_files f)\<rparr>\<rparr>))))"

definition vb_load :: "VBBMFile \<Rightarrow> VBBM \<Rightarrow> VBBM cpp" where
  "vb_load f st =
     (if bf_magic f = VBBM_MAGIC_V1 then vb_loadVersion1 f st
      else if bf_magic f = VBBM_MAGIC_V2 then vb_loadVersion2 f st
      else throw runtime_error)"

end
