(* ===== verification/VSS_Props.thy ===== *)
theory VSS_Props
  imports VSS
begin

text \<open>
  The invariant of the version substitution structure (what \<open>checkConsistency\<close> tests, and the
  shape of the hash lists), the abstract table it represents, and what every operation does
  to both.
\<close>

section \<open>The invariant and the abstract table\<close>

definition vss_bucket :: "int \<Rightarrow> VSSEntry \<Rightarrow> int" where
  "vss_bucket n e = vss_hash n (lbid e)"

definition vss_key :: "VSSEntry \<Rightarrow> LBID_t \<times> VER_t" where
  "vss_key e = (lbid e, verID e)"

definition vss_val :: "VSSEntry \<Rightarrow> bool \<times> bool" where
  "vss_val e = (vbFlag e, locked e)"

definition set_next :: "int \<Rightarrow> VSSEntry \<Rightarrow> VSSEntry" where
  "set_next j e = e\<lparr>next' := j\<rparr>"

definition retire :: "VSSEntry \<Rightarrow> VSSEntry" where
  "retire e = e\<lparr>lbid := -1\<rparr>"

lemmas vss_entry_defs = vss_bucket_def vss_key_def vss_val_def set_next_def retire_def entry_used_def

lemma vss_hash_range: "0 < n \<Longrightarrow> 0 \<le> vss_hash n l \<and> vss_hash n l < n"
  unfolding vss_hash_def using hash_mod_range by blast

interpretation vt: hash_table entry_used next' set_next retire vss_bucket vss_key vss_val
  by unfold_locales (auto simp: vss_entry_defs vss_hash_range)

text \<open>Structure, without the entry count (which \<open>copyVSS\<close> sets before it copies).\<close>

definition vss_wf :: "VSSShmseg \<Rightarrow> bool" where
  "vss_wf s \<longleftrightarrow>
     capacity (vss s) = int (length (storage s)) \<and>
     hash_wf entry_used next' vss_bucket (numHashBuckets (vss s)) (hashBuckets s) (storage s) \<and>
     keys_inj entry_used vss_key (storage s) \<and>
     0 \<le> LWM (vss s) \<and> LWM (vss s) \<le> capacity (vss s) \<and>
     (\<forall>k < nat (LWM (vss s)). entry_used (storage s ! k))"

definition vss_count :: "VSSShmseg \<Rightarrow> nat" where
  "vss_count s = card (live_ix entry_used (storage s))"

definition vss_inv :: "VSSShmseg \<Rightarrow> bool" where
  "vss_inv s \<longleftrightarrow> vss_wf s \<and> currentSize (vss s) = int (vss_count s)"

definition vss_abs :: "VSSShmseg \<Rightarrow> (LBID_t \<times> VER_t) \<rightharpoonup> (bool \<times> bool)" where
  "vss_abs s = table entry_used vss_key vss_val (storage s)"

lemma vss_wfD:
  assumes "vss_wf s"
  shows "capacity (vss s) = int (length (storage s))"
    and "hash_wf entry_used next' vss_bucket (numHashBuckets (vss s)) (hashBuckets s) (storage s)"
    and "keys_inj entry_used vss_key (storage s)"
    and "0 \<le> LWM (vss s)" "LWM (vss s) \<le> int (length (storage s))"
    and "\<And>k. k < nat (LWM (vss s)) \<Longrightarrow> entry_used (storage s ! k)"
  using assms unfolding vss_wf_def by auto

lemma vss_wfI:
  assumes "capacity (vss s) = int (length (storage s))"
    and "hash_wf entry_used next' vss_bucket (numHashBuckets (vss s)) (hashBuckets s) (storage s)"
    and "keys_inj entry_used vss_key (storage s)"
    and "0 \<le> LWM (vss s)" "LWM (vss s) \<le> int (length (storage s))"
    and "\<And>k. k < nat (LWM (vss s)) \<Longrightarrow> entry_used (storage s ! k)"
  shows "vss_wf s"
  using assms unfolding vss_wf_def by auto

text \<open>Only the low-water mark and the shape of the header matter to the structure.\<close>

lemma vss_wf_header:
  "vss_wf s \<Longrightarrow> capacity h = capacity (vss s) \<Longrightarrow> LWM h = LWM (vss s) \<Longrightarrow>
     numHashBuckets h = numHashBuckets (vss s) \<Longrightarrow> vss_wf (s\<lparr>vss := h\<rparr>)"
  unfolding vss_wf_def by simp

lemma vss_abs_header [simp]: "vss_abs (s\<lparr>vss := h\<rparr>) = vss_abs s" "vss_abs (s\<lparr>hashBuckets := b\<rparr>) = vss_abs s"
  by (simp_all add: vss_abs_def)

lemma vss_count_header [simp]:
  "vss_count (s\<lparr>vss := h\<rparr>) = vss_count s" "vss_count (s\<lparr>hashBuckets := b\<rparr>) = vss_count s"
  by (simp_all add: vss_count_def)

text \<open>The bucket a block hashes to exists.\<close>

lemma vss_bucket_ok:
  assumes "vss_wf s"
  shows "0 \<le> vss_hash (numHashBuckets (vss s)) l"
    and "nat (vss_hash (numHashBuckets (vss s)) l) < length (hashBuckets s)"
    and "arr_get (hashBuckets s) (vss_hash (numHashBuckets (vss s)) l) =
      Some (hashBuckets s ! nat (vss_hash (numHashBuckets (vss s)) l))"
proof -
  note wf = vss_wfD(2) [OF assms]
  have "0 \<le> vss_hash (numHashBuckets (vss s)) l \<and> vss_hash (numHashBuckets (vss s)) l < numHashBuckets (vss s)"
    using hash_wf_pos [OF wf] by (rule vss_hash_range)
  then show "0 \<le> vss_hash (numHashBuckets (vss s)) l"
    "nat (vss_hash (numHashBuckets (vss s)) l) < length (hashBuckets s)"
    "arr_get (hashBuckets s) (vss_hash (numHashBuckets (vss s)) l) =
      Some (hashBuckets s ! nat (vss_hash (numHashBuckets (vss s)) l))"
    using hash_wf_len [OF wf] by (auto simp: arr_get_def nat_less_iff)
qed

section \<open>Insertion\<close>

lemma vss_insert_entry_ok:
  assumes wf: "vss_wf s" and e: "lbid e \<noteq> -1" "vss_abs s (vss_key e) = None"
    and room: "vss_count s < length (storage s)"
  shows "\<exists>s' ds. vss_insert_entry e loading s = Some (s', ds) \<and> vss_wf s' \<and>
    vss_abs s' = (vss_abs s)(vss_key e \<mapsto> vss_val e) \<and> vss_count s' = Suc (vss_count s) \<and>
    length (storage s') = length (storage s) \<and> (\<exists>w. vss s' = (vss s)\<lparr>LWM := w\<rparr>)"
proof -
  note w = vss_wfD [OF wf]
  obtain k where k: "k < length (storage s)" "\<not> entry_used (storage s ! k)"
    using live_ix_not_full room unfolding vss_count_def by blast
  with w(6) have "nat (LWM (vss s)) \<le> k" by (meson not_le)
  with k obtain i where i: "find_free entry_used (storage s) (nat (LWM (vss s))) = Some i"
    using find_free_exists by metis
  from find_free_Some [OF i] have ii: "nat (LWM (vss s)) \<le> i" "i < length (storage s)"
    "\<not> entry_used (storage s ! i)" "\<And>j. nat (LWM (vss s)) \<le> j \<Longrightarrow> j < i \<Longrightarrow> entry_used (storage s ! j)"
    by auto
  define b where "b = nat (vss_hash (numHashBuckets (vss s)) (lbid e))"
  note bk = vss_bucket_ok [OF wf, of "lbid e", folded b_def]
  have used: "entry_used e" using e by (simp add: entry_used_def)
  let ?st = "(storage s)[i := set_next (hashBuckets s ! b) e]"
  let ?s' = "s\<lparr>vss := (vss s)\<lparr>LWM := int i + 1\<rparr>, storage := ?st,
    hashBuckets := (hashBuckets s)[b := int i]\<rparr>"
  have bucket: "vss_bucket (numHashBuckets (vss s)) e = int b"
    using bk(1) by (simp add: vss_bucket_def b_def)
  have "\<exists>ds. vss_insert_entry e loading s = Some (?s', ds)"
    using w(4) i bk by (simp add: vss_insert_entry_def Let_def set_next_def b_def [symmetric])
  moreover have "vss_wf ?s'"
  proof (rule vss_wfI)
    show "capacity (vss ?s') = int (length (storage ?s'))" using w(1) by simp
    show "hash_wf entry_used next' vss_bucket (numHashBuckets (vss ?s')) (hashBuckets ?s') (storage ?s')"
      using vt.insert_wf [OF w(2) ii(2,3) used bucket bk(2)] by simp
    show "keys_inj entry_used vss_key (storage ?s')"
      using vt.insert_table(1) [OF w(3) ii(2,3) used] e(2) by (simp add: vss_abs_def)
    fix j assume "j < nat (LWM (vss ?s'))"
    then have "j < i \<or> j = i" by auto
    then show "entry_used (storage ?s' ! j)"
      using ii w(6) [of j] used by (cases "nat (LWM (vss s)) \<le> j") (auto simp: nth_upd_cases)
  qed (use ii in simp_all)
  moreover have "vss_abs ?s' = (vss_abs s)(vss_key e \<mapsto> vss_val e)"
    using vt.insert_table(2) [OF w(3) ii(2,3) used] e(2) by (simp add: vss_abs_def)
  moreover have "vss_count ?s' = Suc (vss_count s)"
  proof -
    have "i \<notin> live_ix entry_used (storage s)" using ii by (simp add: live_ix_def)
    then show ?thesis using ii used by (simp add: vss_count_def live_ix_upd_used)
  qed
  ultimately show ?thesis by (intro exI [of _ ?s']) auto
qed

section \<open>Growth\<close>

lemma vss_fresh_seg_ok:
  assumes "0 < n" "0 \<le> c"
  shows "vss_wf (vss_fresh_seg c n sz lk)" and "vss_abs (vss_fresh_seg c n sz lk) = Map.empty"
    and "vss_count (vss_fresh_seg c n sz lk) = 0"
    and "length (storage (vss_fresh_seg c n sz lk)) = nat c"
proof -
  have free: "e \<in> set (storage (vss_fresh_seg c n sz lk)) \<Longrightarrow> \<not> entry_used e" for e
    by (auto simp: vss_fresh_seg_def vss_empty_entry_def entry_used_def)
  then have live: "live_ix entry_used (storage (vss_fresh_seg c n sz lk)) = {}"
    by (auto simp: live_ix_def)
  show "vss_wf (vss_fresh_seg c n sz lk)"
  proof (rule vss_wfI)
    show "hash_wf entry_used next' vss_bucket (numHashBuckets (vss (vss_fresh_seg c n sz lk)))
        (hashBuckets (vss_fresh_seg c n sz lk)) (storage (vss_fresh_seg c n sz lk))"
      using hash_wf_empty [OF assms(1), of "storage (vss_fresh_seg c n sz lk)" entry_used] free
      by (simp add: vss_fresh_seg_def)
    show "keys_inj entry_used vss_key (storage (vss_fresh_seg c n sz lk))"
      by (simp add: keys_inj_def live)
  qed (use assms in \<open>simp_all add: vss_fresh_seg_def\<close>)
  show "vss_abs (vss_fresh_seg c n sz lk) = Map.empty"
    by (rule ext) (simp add: vss_abs_def table_None live)
  show "vss_count (vss_fresh_seg c n sz lk) = 0" by (simp add: vss_count_def live)
  show "length (storage (vss_fresh_seg c n sz lk)) = nat c" by (simp add: vss_fresh_seg_def)
qed

lemma keys_inj_Cons: "keys_inj used key (e # es) \<Longrightarrow> keys_inj used key es"
proof (rule keys_injI)
  fix j k assume inj: "keys_inj used key (e # es)"
    and "j \<in> live_ix used es" "k \<in> live_ix used es" "key (es ! j) = key (es ! k)"
  then show "j = k" using keys_injD [OF inj, of "Suc j" "Suc k"] by (simp add: live_ix_def)
qed

lemma table_Cons: "table used key val (e # es) =
    (if used e then (table used key val es)(key e \<mapsto> val e) else table used key val es)"
  by (simp add: table_def)

lemma vss_copy_entries_ok:
  assumes "vss_wf dest" "distinct (map vss_key (filter entry_used es))"
    and "\<And>e. e \<in> set es \<Longrightarrow> entry_used e \<Longrightarrow> vss_abs dest (vss_key e) = None"
    and "vss_count dest + length (filter entry_used es) \<le> length (storage dest)"
  shows "\<exists>s'. vss_copy_entries es dest = Some s' \<and> vss_wf s' \<and>
    vss_abs s' = vss_abs dest ++ table entry_used vss_key vss_val es \<and>
    vss_count s' = vss_count dest + length (filter entry_used es) \<and>
    length (storage s') = length (storage dest) \<and> (\<exists>w. vss s' = (vss dest)\<lparr>LWM := w\<rparr>)"
  using assms
proof (induction es arbitrary: dest)
  case Nil
  then show ?case by (intro exI [of _ dest]) (auto simp: table_def intro: exI [of _ "LWM (vss dest)"])
next
  case (Cons e es)
  show ?case
  proof (cases "entry_used e")
    case False
    then show ?thesis
      using Cons.IH [OF Cons.prems(1)] Cons.prems by (simp add: table_Cons entry_used_def)
  next
    case True
    have "vss_abs dest (vss_key e) = None" "vss_count dest < length (storage dest)"
      using Cons.prems(3) [of e] Cons.prems(4) True by auto
    with vss_insert_entry_ok [OF Cons.prems(1), of e True] True obtain d ds w where
      d: "vss_insert_entry e True dest = Some (d, ds)" "vss_wf d"
      "vss_abs d = (vss_abs dest)(vss_key e \<mapsto> vss_val e)" "vss_count d = Suc (vss_count dest)"
      "length (storage d) = length (storage dest)" "vss d = (vss dest)\<lparr>LWM := w\<rparr>"
      by (auto simp: entry_used_def)
    have nin: "vss_key x \<noteq> vss_key e" if "x \<in> set es" "entry_used x" for x
      using Cons.prems(2) True that by (auto simp: image_iff)
    have pre: "distinct (map vss_key (filter entry_used es))"
      "\<And>x. x \<in> set es \<Longrightarrow> entry_used x \<Longrightarrow> vss_abs d (vss_key x) = None"
      "vss_count d + length (filter entry_used es) \<le> length (storage d)"
      using Cons.prems(2-4) d(3-5) True nin by auto
    from Cons.IH [OF d(2) pre] obtain s' w' where
      s': "vss_copy_entries es d = Some s'" "vss_wf s'"
      "vss_abs s' = vss_abs d ++ table entry_used vss_key vss_val es"
      "vss_count s' = vss_count d + length (filter entry_used es)"
      "length (storage s') = length (storage d)" "vss s' = (vss d)\<lparr>LWM := w'\<rparr>" by blast
    have "table entry_used vss_key vss_val es (vss_key e) = None"
      unfolding table_None using nin by (metis live_ix_less live_ix_used nth_mem)
    then have "vss_abs s' = vss_abs dest ++ table entry_used vss_key vss_val (e # es)"
      using True s'(3) d(3) by (auto simp: table_Cons map_add_def fun_eq_iff split: option.splits)
    moreover have "lbid e \<noteq> -1" using True by (simp add: entry_used_def)
    ultimately show ?thesis using True d s' by auto
  qed
qed

lemma vss_growVSS_ok:
  assumes inv: "vss_inv (seg st)" and full: "currentSize (vss (seg st)) = capacity (vss (seg st))"
    and alloc: "allocdSize (vssShminfo st) \<noteq> 0"
  shows "\<exists>st'. growVSS st = Some st' \<and> vss_inv (seg st') \<and> vss_abs (seg st') = vss_abs (seg st) \<and>
    capacity (vss (seg st')) = capacity (vss (seg st)) + VSSSTORAGE_INCREMENT_COUNT \<and>
    vss_count (seg st') = vss_count (seg st) \<and> vss_undoRecords st' = vss_undoRecords st"
proof -
  let ?s = "seg st"
  let ?c = "capacity (vss ?s) + VSSSTORAGE_INCREMENT_COUNT"
  let ?n = "numHashBuckets (vss ?s) + VSSTABLE_INCREMENT_COUNT"
  let ?d = "vss_fresh_seg ?c ?n (currentSize (vss ?s)) (lockedEntryCount (vss ?s))"
  note w = vss_wfD [OF conjunct1 [OF inv [unfolded vss_inv_def]]]
  have n: "0 < ?n" "0 \<le> ?c"
    using hash_wf_pos [OF w(2)] w(1) by (simp_all add: VSSTABLE_INCREMENT_COUNT_def VSSSTORAGE_INCREMENT_COUNT_def)
  have cnt: "currentSize (vss ?s) = int (vss_count ?s)" using inv by (simp add: vss_inv_def)
  note f = vss_fresh_seg_ok [OF n, of "currentSize (vss ?s)" "lockedEntryCount (vss ?s)"]
  have len: "length (filter entry_used (storage ?s)) = vss_count ?s"
    by (simp add: vss_count_def card_live_ix)
  obtain s' v where s': "vss_copy_entries (storage ?s) ?d = Some s'" "vss_wf s'"
    "vss_abs s' = vss_abs ?d ++ table entry_used vss_key vss_val (storage ?s)"
    "vss_count s' = vss_count ?d + length (filter entry_used (storage ?s))"
    "length (storage s') = length (storage ?d)" "vss s' = (vss ?d)\<lparr>LWM := v\<rparr>"
    using vss_copy_entries_ok [OF f(1) keys_inj_distinct [OF w(3)]] f len full cnt w(1)
    by (auto simp: VSSSTORAGE_INCREMENT_COUNT_def nat_add_distrib)
  have "copyVSS ?s ?c ?n = Some s'"
    using s'(1) full w(1) by (simp add: copyVSS_def)
  moreover have "vss_inv s'"
    using s'(2,4,6) f(3) len cnt by (simp add: vss_inv_def vss_fresh_seg_def)
  moreover have "vss_abs s' = vss_abs ?s" using s'(3) f(2) by (simp add: vss_abs_def [of ?s])
  ultimately show ?thesis
    using alloc s'(4,6) f(3) len by (simp add: growVSS_def Let_def vss_fresh_seg_def)
qed

section \<open>insert\<close>

lemma fold_makeUndoRecord [simp]:
  "seg (fold vss_makeUndoRecord ds st) = seg st"
  "vssShminfo (fold vss_makeUndoRecord ds st) = vssShminfo st"
  "seg (vss_makeUndoRecord d st) = seg st" "vssShminfo (vss_makeUndoRecord d st) = vssShminfo st"
  by (induction ds arbitrary: st) (auto simp: vss_makeUndoRecord_def)

lemma vss_insert_room:
  assumes inv: "vss_inv (seg st)" and l: "l \<noteq> -1" "vss_abs (seg st) (l, v) = None"
    and room: "vss_count (seg st) < length (storage (seg st))"
  shows "\<exists>st'. vss_insert l v vb lk loading st = Some st' \<and> vss_inv (seg st') \<and>
    vss_abs (seg st') = (vss_abs (seg st))((l, v) \<mapsto> (vb, lk)) \<and> vssShminfo st' = vssShminfo st \<and>
    vss_count (seg st') = Suc (vss_count (seg st)) \<and> length (storage (seg st')) = length (storage (seg st))"
proof -
  let ?e = "\<lparr>lbid = l, verID = v, vbFlag = vb, locked = lk, next' = -1\<rparr>"
  have wf: "vss_wf (seg st)" using inv by (simp add: vss_inv_def)
  obtain s ds w where s: "vss_insert_entry ?e loading (seg st) = Some (s, ds)" "vss_wf s"
    "vss_abs s = (vss_abs (seg st))((l, v) \<mapsto> (vb, lk))" "vss_count s = Suc (vss_count (seg st))"
    "length (storage s) = length (storage (seg st))" "vss s = (vss (seg st))\<lparr>LWM := w\<rparr>"
    using vss_insert_entry_ok [OF wf, of ?e loading] l room by (auto simp: vss_entry_defs)
  have neq: "currentSize (vss (seg st)) \<noteq> capacity (vss (seg st))"
    using inv room vss_wfD(1) [OF wf] by (simp add: vss_inv_def)
  show ?thesis
    using s neq inv by (simp add: vss_insert_def Let_def vss_inv_def vss_wf_header)
qed

lemma vss_insert_ok:
  assumes inv: "vss_inv (seg st)" and l: "l \<noteq> -1" "vss_abs (seg st) (l, v) = None"
    and alloc: "allocdSize (vssShminfo st) \<noteq> 0"
  shows "\<exists>st'. vss_insert l v vb lk loading st = Some st' \<and> vss_inv (seg st') \<and>
    vss_abs (seg st') = (vss_abs (seg st))((l, v) \<mapsto> (vb, lk))"
proof (cases "currentSize (vss (seg st)) = capacity (vss (seg st))")
  case True
  from vss_growVSS_ok [OF inv True alloc] obtain st1 where
    st1: "growVSS st = Some st1" "vss_inv (seg st1)" "vss_abs (seg st1) = vss_abs (seg st)"
    "capacity (vss (seg st1)) = capacity (vss (seg st)) + VSSSTORAGE_INCREMENT_COUNT"
    "vss_count (seg st1) = vss_count (seg st)" by blast
  have c: "vss_count (seg st1) < length (storage (seg st1))"
    "currentSize (vss (seg st1)) \<noteq> capacity (vss (seg st1))"
    using st1 True inv vss_wfD(1) [of "seg st1"]
    by (auto simp: vss_inv_def VSSSTORAGE_INCREMENT_COUNT_def)
  have "vss_insert l v vb lk loading st = vss_insert l v vb lk loading st1"
    using True c(2) st1(1) by (simp add: vss_insert_def)
  then show ?thesis using vss_insert_room [OF st1(2) l(1) _ c(1), of v vb lk loading] l(2) st1(3) by auto
next
  case False
  then have "vss_count (seg st) < length (storage (seg st))"
    using inv vss_wfD(1) [of "seg st"] card_live_ix_le [of entry_used "storage (seg st)"]
    by (auto simp: vss_inv_def vss_count_def)
  from vss_insert_room [OF inv l this] show ?thesis by blast
qed

section \<open>Read operations\<close>

text \<open>
  A walk whose body ignores other blocks is a pass over the block's own entries, whose
  versions are different and which are exactly what the abstract table holds of the block.
\<close>

lemma vss_scan_block:
  assumes wf: "vss_wf s" and ign: "\<And>a i e. lbid e \<noteq> l \<Longrightarrow> f a i e = Inr a"
    and noix: "\<And>a i e. f a i e = g a e"
  obtains es where "vss_scan s l f acc = Some (fold_exit g es acc)"
    and "distinct (map verID es)" and "\<And>e. e \<in> set es \<Longrightarrow> lbid e = l"
    and "\<And>v. vss_abs s (l, v) = map_of (map (\<lambda>e. (verID e, vss_val e)) es) v"
proof -
  note w = vss_wfD [OF wf] and b = vss_bucket_ok [OF wf, of l]
  from w(2) b(2) obtain ks where ks: "chain next' (storage s) (hashBuckets s ! nat (vss_hash (numHashBuckets (vss s)) l)) ks"
    "set ks = {k \<in> live_ix entry_used (storage s). vss_bucket (numHashBuckets (vss s)) (storage s ! k) =
        int (nat (vss_hash (numHashBuckets (vss s)) l))}" "distinct ks" by (rule hash_wf_chain)
  define js where "js = filter (\<lambda>k. lbid (storage s ! k) = l) ks"
  have js: "set js = {k \<in> live_ix entry_used (storage s). lbid (storage s ! k) = l}" "distinct js"
    using ks(2,3) b(1) by (auto simp: js_def vss_bucket_def)
  define es where "es = map ((!) (storage s)) js"
  have "fold_exit (\<lambda>a k. f a (int k) (storage s ! k)) ks acc = fold_exit g es acc"
    unfolding es_def js_def using ign noix
    by (induction ks arbitrary: acc) (auto split: sum.splits)
  then have "vss_scan s l f acc = Some (fold_exit g es acc)"
    using scan_chain_eq [OF ks(1), of f acc] b(3) by (simp add: vss_scan_def)
  moreover have inj: "inj_on (\<lambda>k. verID (storage s ! k)) (set js)"
    using w(3) js(1) by (auto simp: keys_inj_def inj_on_def vss_key_def)
  then have dist: "distinct (map verID es)"
    using js(2) by (simp add: es_def distinct_map comp_def)
  moreover have "lbid e = l" if "e \<in> set es" for e using that js(1) by (auto simp: es_def)
  moreover have "vss_abs s (l, v) = map_of (map (\<lambda>e. (verID e, vss_val e)) es) v" for v
  proof -
    have d: "distinct (map fst (map (\<lambda>e. (verID e, vss_val e)) es))" using dist by (simp add: comp_def)
    have *: "map_of (map (\<lambda>e. (verID e, vss_val e)) es) v = Some y \<longleftrightarrow> (\<exists>e \<in> set es. verID e = v \<and> vss_val e = y)" for y v
      unfolding map_of_eq_Some_iff [OF d] by auto
    have **: "vss_abs s (l, v) = Some y \<longleftrightarrow> (\<exists>e \<in> set es. verID e = v \<and> vss_val e = y)" for y v
      unfolding vss_abs_def table_Some [OF w(3)] es_def using js(1) by (auto simp: vss_key_def)
    have "(\<lambda>v. vss_abs s (l, v)) = map_of (map (\<lambda>e. (verID e, vss_val e)) es)"
      by (rule map_eqI) (simp only: * **)
    then show ?thesis by (rule fun_cong)
  qed
  ultimately show thesis by (rule that)
qed

end
