(* ===== verification/VSS_Read.thy ===== *)
theory VSS_Read
  imports VSS_Props
begin

text \<open>
  What the read operations of the version substitution structure answer, in terms of the
  abstract table.
\<close>

section \<open>Version lookup\<close>

text \<open>The versions of a block a query may use: not those of other running transactions.\<close>

definition visible ::
  "((LBID_t \<times> VER_t) \<rightharpoonup> (bool \<times> bool)) \<Rightarrow> LBID_t \<Rightarrow> QueryContext_vss \<Rightarrow> VER_t \<Rightarrow> bool \<Rightarrow> VER_t set"
where
  "visible m l q txnID vbOnly =
     {v. \<exists>vb lk. m (l, v) = Some (vb, lk) \<and> (vbOnly \<longrightarrow> vb) \<and> (txnID = v \<or> v \<notin> set (txns q))}"

definition lookup_spec ::
  "((LBID_t \<times> VER_t) \<rightharpoonup> (bool \<times> bool)) \<Rightarrow> LBID_t \<Rightarrow> QueryContext_vss \<Rightarrow> VER_t \<Rightarrow> bool \<Rightarrow> int \<times> VER_t \<times> bool"
where
  "lookup_spec m l q txnID vbOnly =
     (let V = visible m l q txnID vbOnly; B = {v \<in> V. v \<le> currentScn q}
      in if B \<noteq> {} then (0, Max B, fst (the (m (l, Max B))))
         else if V \<noteq> {} then (ERR_SNAPSHOT_TOO_OLD, 0, False) else (-1, 0, False))"

definition vis_entry :: "QueryContext_vss \<Rightarrow> VER_t \<Rightarrow> bool \<Rightarrow> VSSEntry \<Rightarrow> bool" where
  "vis_entry q txnID vbOnly e \<longleftrightarrow> (vbOnly \<longrightarrow> vbFlag e) \<and> (txnID = verID e \<or> verID e \<notin> set (txns q))"

lemma map_of_vers:
  "distinct (map verID es) \<Longrightarrow>
     map_of (map (\<lambda>e. (verID e, vss_val e)) es) v = Some y \<longleftrightarrow> (\<exists>e \<in> set es. verID e = v \<and> vss_val e = y)"
  by (subst map_of_eq_Some_iff) (auto simp: comp_def)

lemma visible_list:
  assumes "distinct (map verID es)" "\<And>v. m (l, v) = map_of (map (\<lambda>e. (verID e, vss_val e)) es) v"
  shows "visible m l q txnID vbOnly = verID ` {e \<in> set es. vis_entry q txnID vbOnly e}"
  unfolding visible_def assms(2) map_of_vers [OF assms(1)] by (auto simp: vis_entry_def vss_val_def)

text \<open>The loop invariant of \<open>lookup\<close> after the entries \<open>ps\<close>.\<close>

definition lookup_inv ::
  "QueryContext_vss \<Rightarrow> VER_t \<Rightarrow> bool \<Rightarrow> VSSEntry list \<Rightarrow> int \<times> int \<times> VSSEntry option \<Rightarrow> bool"
where
  "lookup_inv q txnID vbOnly ps = (\<lambda>(mx, mn, me).
     (\<forall>e \<in> set ps. vis_entry q txnID vbOnly e \<longrightarrow> verID e \<noteq> currentScn q) \<and>
     (case me of
        None \<Rightarrow> mx = -1 \<and> (\<forall>e \<in> set ps. vis_entry q txnID vbOnly e \<longrightarrow> verID e > currentScn q)
      | Some x \<Rightarrow> x \<in> set ps \<and> vis_entry q txnID vbOnly x \<and> verID x = mx \<and> mx < currentScn q \<and>
          (\<forall>e \<in> set ps. vis_entry q txnID vbOnly e \<and> verID e < currentScn q \<longrightarrow> verID e \<le> mx)) \<and>
     (if mn = -1 then \<forall>e \<in> set ps. \<not> vis_entry q txnID vbOnly e
      else \<exists>e \<in> set ps. vis_entry q txnID vbOnly e \<and> verID e = mn))"

lemma lookup_step:
  assumes "lookup_inv q txnID vbOnly ps a" "lbid e = l" "0 \<le> verID e" "e \<in> set es"
  shows "case vss_lookup_step l q txnID vbOnly a i e of
      Inl r \<Rightarrow> \<exists>e \<in> set es. vis_entry q txnID vbOnly e \<and> verID e = currentScn q \<and> r = (0, verID e, vbFlag e)
    | Inr a' \<Rightarrow> lookup_inv q txnID vbOnly (ps @ [e]) a'"
proof (cases "vis_entry q txnID vbOnly e")
  case False
  then have "vss_lookup_step l q txnID vbOnly a i e = Inr a"
    using assms(2) by (auto simp: vss_lookup_step_def vis_entry_def split: prod.splits)
  with False assms(1) show ?thesis
    by (auto simp: lookup_inv_def split: prod.splits option.splits if_splits)
next
  case True
  obtain mx mn me where a: "a = (mx, mn, me)" by (cases a)
  show ?thesis
  proof (cases "currentScn q = verID e")
    case eq: True
    then have "vss_lookup_step l q txnID vbOnly a i e = Inl (0, verID e, vbFlag e)"
      using assms(2) True by (auto simp: vss_lookup_step_def vis_entry_def a)
    with eq True assms(4) show ?thesis by auto
  next
    case neq: False
    let ?mn = "if mn > verID e \<or> mn = -1 then verID e else mn"
    have step: "vss_lookup_step l q txnID vbOnly a i e =
        (if currentScn q > verID e \<and> mx < verID e then Inr (verID e, ?mn, Some e) else Inr (mx, ?mn, me))"
      using assms(2) True neq by (auto simp: vss_lookup_step_def vis_entry_def a Let_def)
    have mn: "?mn \<noteq> -1" "\<exists>x \<in> set (ps @ [e]). vis_entry q txnID vbOnly x \<and> verID x = ?mn"
      using assms(1,3) True by (auto simp: lookup_inv_def a split: if_splits)
    show ?thesis
    proof (cases "currentScn q > verID e \<and> mx < verID e")
      case t: True
      have "\<forall>x \<in> set (ps @ [e]). vis_entry q txnID vbOnly x \<and> verID x < currentScn q \<longrightarrow> verID x \<le> verID e"
        using assms(1) t by (force simp: lookup_inv_def a split: option.splits)
      with t True neq mn assms(1) show ?thesis
        unfolding step by (auto simp: lookup_inv_def a)
    next
      case f: False
      with neq True mn assms(1,3) show ?thesis
        unfolding step by (auto simp: lookup_inv_def a split: option.splits)
    qed
  qed
qed

lemma Max_eqI_int: "finite B \<Longrightarrow> x \<in> B \<Longrightarrow> (\<And>y. y \<in> B \<Longrightarrow> y \<le> x) \<Longrightarrow> Max B = (x :: int)"
  by (rule Max_eqI) auto

lemma vss_lookup_ok:
  assumes wf: "vss_wf s" and scn: "0 \<le> currentScn q"
    and pos: "\<And>v. vss_abs s (l, v) \<noteq> None \<Longrightarrow> 0 \<le> v"
  shows "vss_lookup l q txnID vbOnly s = Some (lookup_spec (vss_abs s) l q txnID vbOnly)"
proof -
  let ?vis = "vis_entry q txnID vbOnly"
  obtain es where es: "vss_scan s l (vss_lookup_step l q txnID vbOnly) (-1, -1, None) =
      Some (fold_exit (\<lambda>a e. vss_lookup_step l q txnID vbOnly a 0 e) es (-1, -1, None))"
    "distinct (map verID es)" "\<And>e. e \<in> set es \<Longrightarrow> lbid e = l"
    "\<And>v. vss_abs s (l, v) = map_of (map (\<lambda>e. (verID e, vss_val e)) es) v"
    by (rule vss_scan_block [OF wf, of l "vss_lookup_step l q txnID vbOnly"
          "\<lambda>a e. vss_lookup_step l q txnID vbOnly a 0 e" "(-1, -1, None)"])
      (auto simp: vss_lookup_step_def split: prod.splits)
  have V: "visible (vss_abs s) l q txnID vbOnly = verID ` {e \<in> set es. ?vis e}"
    using visible_list [OF es(2), of "vss_abs s" l] es(4) by blast
  have val: "vss_abs s (l, verID e) = Some (vbFlag e, locked e)" if "e \<in> set es" for e
    unfolding es(4) map_of_vers [OF es(2)] using that by (auto simp: vss_val_def)
  have ge: "0 \<le> verID e" if "e \<in> set es" for e using pos [of "verID e"] val [OF that] by simp
  define B where "B = {v \<in> visible (vss_abs s) l q txnID vbOnly. v \<le> currentScn q}"
  have fin: "finite B" unfolding B_def V by auto
  have spec: "lookup_spec (vss_abs s) l q txnID vbOnly = (0, verID e, vbFlag e)"
    if "e \<in> set es" "?vis e" "verID e \<le> currentScn q"
      "\<And>x. x \<in> set es \<Longrightarrow> ?vis x \<Longrightarrow> verID x \<le> currentScn q \<Longrightarrow> verID x \<le> verID e" for e
  proof -
    have "verID e \<in> B" using that by (auto simp: B_def V)
    moreover have "Max B = verID e"
      using fin calculation that(4) by (intro Max_eqI_int) (auto simp: B_def V)
    ultimately show ?thesis using val [OF that(1)]
      unfolding lookup_spec_def Let_def B_def [symmetric] by auto
  qed
  have "case fold_exit (\<lambda>a e. vss_lookup_step l q txnID vbOnly a 0 e) es (-1, -1, None) of
      Inl r \<Rightarrow> \<exists>e \<in> set es. ?vis e \<and> verID e = currentScn q \<and> r = (0, verID e, vbFlag e)
    | Inr a \<Rightarrow> lookup_inv q txnID vbOnly es a"
  proof (rule fold_exit_rule)
    show "lookup_inv q txnID vbOnly [] (-1, -1, None)" by (simp add: lookup_inv_def)
    fix ps x qs a assume "es = ps @ x # qs" "lookup_inv q txnID vbOnly ps a"
    then show "case vss_lookup_step l q txnID vbOnly a 0 x of
        Inl r \<Rightarrow> \<exists>e \<in> set es. ?vis e \<and> verID e = currentScn q \<and> r = (0, verID e, vbFlag e)
      | Inr a' \<Rightarrow> lookup_inv q txnID vbOnly (ps @ [x]) a'"
      using es(3) [of x] ge [of x] by (intro lookup_step) auto
  qed
  then show ?thesis
  proof (cases "fold_exit (\<lambda>a e. vss_lookup_step l q txnID vbOnly a 0 e) es (-1, -1, None)")
    case (Inl r)
    with \<open>case _ of Inl r \<Rightarrow> _ r | Inr a \<Rightarrow> _ a\<close> obtain e where
      "e \<in> set es" "?vis e" "verID e = currentScn q" "r = (0, verID e, vbFlag e)" by auto
    with spec [of e] Inl show ?thesis by (simp add: vss_lookup_def es(1))
  next
    case (Inr a)
    obtain mx mn me where a: "a = (mx, mn, me)" by (cases a)
    from Inr \<open>case _ of Inl r \<Rightarrow> _ r | Inr a \<Rightarrow> _ a\<close> have inv: "lookup_inv q txnID vbOnly es (mx, mn, me)" 
      by (simp add: a)
    show ?thesis
    proof (cases me)
      case (Some x)
      with inv have "x \<in> set es" "?vis x" "verID x = mx" "mx < currentScn q"
        "\<And>e. e \<in> set es \<Longrightarrow> ?vis e \<Longrightarrow> verID e \<le> currentScn q \<Longrightarrow> verID e \<le> mx"
        by (auto simp: lookup_inv_def order_le_less)
      with spec [of x] Inr Some show ?thesis by (simp add: vss_lookup_def es(1) a)
    next
      case None
      with inv have "B = {}" by (fastforce simp: B_def V lookup_inv_def)
      moreover have "mn > currentScn q \<longleftrightarrow> visible (vss_abs s) l q txnID vbOnly \<noteq> {}"
        using inv None scn by (auto simp: V lookup_inv_def split: if_splits)
      ultimately show ?thesis using Inr None
        unfolding lookup_spec_def Let_def B_def [symmetric] by (auto simp: vss_lookup_def es(1) a)
    qed
  qed
qed

section \<open>The other queries\<close>

lemma vss_find:
  assumes wf: "vss_wf s"
  obtains e where "vss_scan s l (\<lambda>(_ :: unit) _ e. if lbid e = l \<and> P e then Inl (r e) else Inr ()) () = Some (Inl (r e))"
      and "P e" "vss_abs s (l, verID e) = Some (vbFlag e, locked e)"
  | "vss_scan s l (\<lambda>_ _ e. if lbid e = l \<and> P e then Inl (r e) else Inr ()) () = Some (Inr ())"
      and "\<And>v vb lk. vss_abs s (l, v) = Some (vb, lk) \<Longrightarrow> \<exists>e. verID e = v \<and> vbFlag e = vb \<and> locked e = lk \<and> \<not> P e"
proof -
  let ?f = "\<lambda>(_ :: unit) (_ :: int) e. if lbid e = l \<and> P e then Inl (r e) else Inr ()"
  obtain es where es: "vss_scan s l ?f () = Some (fold_exit (\<lambda>_ e. if lbid e = l \<and> P e then Inl (r e) else Inr ()) es ())"
    "distinct (map verID es)" "\<And>e. e \<in> set es \<Longrightarrow> lbid e = l"
    "\<And>v. vss_abs s (l, v) = map_of (map (\<lambda>e. (verID e, vss_val e)) es) v"
    by (rule vss_scan_block [OF wf, of l ?f "\<lambda>_ e. if lbid e = l \<and> P e then Inl (r e) else Inr ()" "()"]) auto
  have abs: "vss_abs s (l, v) = Some y \<longleftrightarrow> (\<exists>e \<in> set es. verID e = v \<and> vss_val e = y)" for v y
    unfolding es(4) by (rule map_of_vers [OF es(2)])
  show thesis
  proof (cases "find (\<lambda>e. lbid e = l \<and> P e) es")
    case None
    then have "\<And>e. e \<in> set es \<Longrightarrow> \<not> P e" using es(3) by (auto simp: find_None_iff)
    then have "\<exists>e. verID e = v \<and> vbFlag e = vb \<and> locked e = lk \<and> \<not> P e"
      if "vss_abs s (l, v) = Some (vb, lk)" for v vb lk
      using that unfolding abs by (auto simp: vss_val_def)
    moreover have "vss_scan s l ?f () = Some (Inr ())"
      using None es(1) fold_exit_find_unit [of "\<lambda>e. lbid e = l \<and> P e" r es] by simp
    ultimately show thesis using that(2) by blast
  next
    case (Some e)
    then have "e \<in> set es" "P e" by (auto simp: find_Some_iff)
    with Some es(1) abs [of "verID e" "vss_val e"] that(1) [of e] show thesis
      using fold_exit_find_unit [of "\<lambda>e. lbid e = l \<and> P e" r es] by (auto simp: vss_val_def)
  qed
qed

lemma vss_getCurrentVersion_ok:
  assumes "vss_wf s"
  obtains v lk where "vss_getCurrentVersion l s = Some (v, lk)" "vss_abs s (l, v) = Some (False, lk)"
  | "vss_getCurrentVersion l s = Some (0, False)" "\<And>v lk. vss_abs s (l, v) \<noteq> Some (False, lk)"
proof (rule vss_find [OF assms, of l "\<lambda>e. \<not> vbFlag e" "\<lambda>e. (verID e, locked e)"], goal_cases)
  case (1 e)
  then show thesis by (intro that(1) [of "verID e" "locked e"]) (simp_all add: vss_getCurrentVersion_def)
next
  case 2
  then have "vss_getCurrentVersion l s = Some (0, False)" "\<And>v lk. vss_abs s (l, v) \<noteq> Some (False, lk)"
    by (auto simp: vss_getCurrentVersion_def) metis
  then show thesis by (rule that(2))
qed

lemma vss_isVersioned_ok:
  assumes "vss_wf s"
  shows "vss_isVersioned l v s = Some (\<exists>lk. vss_abs s (l, v) = Some (True, lk))"
  using vss_find [OF assms, of l "\<lambda>e. verID e = v" vbFlag]
  by (cases) (auto simp: vss_isVersioned_def)

lemma vss_isLocked_blocks_ok:
  assumes wf: "vss_wf s" and pos: "\<And>l v. vss_abs s (l, v) \<noteq> None \<Longrightarrow> 0 \<le> v"
  shows "vss_isLocked_blocks n l (-1) s =
    Some (\<exists>b v vb. l \<le> b \<and> b < l + int n \<and> vss_abs s (b, v) = Some (vb, True))"
proof (induction n arbitrary: l)
  case (Suc n)
  show ?case
  proof (rule vss_find [OF wf, of l locked "\<lambda>e. verID e \<noteq> -1"])
    fix e assume *: "vss_scan s l (\<lambda>_ _ e. if lbid e = l \<and> locked e then Inl (verID e \<noteq> -1) else Inr ()) () =
        Some (Inl (verID e \<noteq> -1))" "locked e" "vss_abs s (l, verID e) = Some (vbFlag e, locked e)"
    then have "verID e \<noteq> -1" using pos [of l "verID e"] by auto
    moreover have "\<exists>b v vb. l \<le> b \<and> b < l + int (Suc n) \<and> vss_abs s (b, v) = Some (vb, True)"
      using * by (intro exI [of _ l] exI [of _ "verID e"] exI [of _ "vbFlag e"]) simp
    ultimately show ?case using * by simp
  next
    assume *: "vss_scan s l (\<lambda>_ _ e. if lbid e = l \<and> locked e then Inl (verID e \<noteq> -1) else Inr ()) () = Some (Inr ())"
      "\<And>v vb lk. vss_abs s (l, v) = Some (vb, lk) \<Longrightarrow> \<exists>e. verID e = v \<and> vbFlag e = vb \<and> locked e = lk \<and> \<not> locked e"
    have "(\<exists>b v vb. l + 1 \<le> b \<and> b < l + 1 + int n \<and> vss_abs s (b, v) = Some (vb, True)) \<longleftrightarrow>
        (\<exists>b v vb. l \<le> b \<and> b < l + int (Suc n) \<and> vss_abs s (b, v) = Some (vb, True))" (is "?L \<longleftrightarrow> ?R")
    proof
      assume ?R
      then obtain b v vb where b: "l \<le> b" "b < l + int (Suc n)" "vss_abs s (b, v) = Some (vb, True)" by blast
      with *(2) have "b \<noteq> l" by blast
      with b have "l + 1 \<le> b" "b < l + 1 + int n" by auto
      with b(3) show ?L by blast
    next
      assume ?L
      then obtain b v vb where "l + 1 \<le> b" "b < l + 1 + int n" "vss_abs s (b, v) = Some (vb, True)" by blast
      then have "l \<le> b" "b < l + int (Suc n)" "vss_abs s (b, v) = Some (vb, True)" by auto
      then show ?R by blast
    qed
    with * Suc.IH show ?case by simp
  qed
qed auto

lemma vss_isEntryLocked_ok:
  assumes wf: "vss_wf s" and l: "l \<noteq> -1"
  shows "vss_isEntryLocked l v s =
    Some ((\<exists>x vb. vss_abs s (l, x) = Some (vb, True)) \<and>
      v = Max ({0} \<union> {x. \<exists>vb. vss_abs s (l, x) = Some (vb, False)}))"
proof -
  let ?f = "vss_isEntryLocked_step l" and ?g = "\<lambda>a e. vss_isEntryLocked_step l a 0 e"
  obtain es where es: "vss_scan s l ?f (False, 0) = Some (fold_exit ?g es (False, 0))"
    "distinct (map verID es)" "\<And>e. e \<in> set es \<Longrightarrow> lbid e = l"
    "\<And>v. vss_abs s (l, v) = map_of (map (\<lambda>e. (verID e, vss_val e)) es) v"
    by (rule vss_scan_block [OF wf, of l ?f ?g "(False, 0)"]) (auto simp: vss_isEntryLocked_step_def)
  have abs: "vss_abs s (l, v) = Some y \<longleftrightarrow> (\<exists>e \<in> set es. verID e = v \<and> vss_val e = y)" for v y
    unfolding es(4) by (rule map_of_vers [OF es(2)])
  have "fold_exit ?g es (False, 0) = Inr ((\<exists>e \<in> set es. locked e),
      Max ({0} \<union> verID ` {e \<in> set es. \<not> locked e}))"
  proof -
    have "case fold_exit ?g es (False, 0) of Inl r \<Rightarrow> False
      | Inr a \<Rightarrow> a = ((\<exists>e \<in> set es. locked e), Max ({0} \<union> verID ` {e \<in> set es. \<not> locked e}))"
    proof (rule fold_exit_rule)
      fix ps x qs a
      assume xs: "es = ps @ x # qs"
        and a: "a = ((\<exists>e \<in> set ps. locked e), Max ({0} \<union> verID ` {e \<in> set ps. \<not> locked e}))"
      define M where "M = Max ({0} \<union> verID ` {e \<in> set ps. \<not> locked e})"
      have "lbid x = l" using xs es(3) by simp
      have S: "{0} \<union> verID ` {e \<in> set (ps @ [x]). \<not> locked e} =
          (if locked x then {0} \<union> verID ` {e \<in> set ps. \<not> locked e}
           else insert (verID x) ({0} \<union> verID ` {e \<in> set ps. \<not> locked e}))" by auto
      have "Max (insert (verID x) ({0} \<union> verID ` {e \<in> set ps. \<not> locked e})) = max (verID x) M"
        unfolding M_def by (rule Max_insert) auto
      then have "Max ({0} \<union> verID ` {e \<in> set (ps @ [x]). \<not> locked e}) = (if locked x then M else max (verID x) M)"
        unfolding S by (simp only: M_def split: if_split) blast
      with a \<open>lbid x = l\<close> show "case ?g a x of Inl r \<Rightarrow> False
        | Inr a' \<Rightarrow> a' = ((\<exists>e \<in> set (ps @ [x]). locked e), Max ({0} \<union> verID ` {e \<in> set (ps @ [x]). \<not> locked e}))"
        unfolding M_def [symmetric] by (auto simp: vss_isEntryLocked_step_def)
    qed simp
    then show ?thesis by (auto split: sum.splits)
  qed
  moreover have "(\<exists>e \<in> set es. locked e) \<longleftrightarrow> (\<exists>x vb. vss_abs s (l, x) = Some (vb, True))"
    "verID ` {e \<in> set es. \<not> locked e} = {x. \<exists>vb. vss_abs s (l, x) = Some (vb, False)}"
    unfolding abs by (auto simp: vss_val_def)
  ultimately show ?thesis using l es(1) by (simp add: vss_isEntryLocked_def)
qed

lemma vss_size_ok: "vss_inv s \<Longrightarrow> vss_size s = ret (int (vss_count s))"
  by (auto simp: vss_inv_def vss_size_def vss_slots_def vss_count_def card_live_ix dest: vss_wfD(1))

end
