(* ===== verification/VSS_Write.thy ===== *)
theory VSS_Write
  imports VSS_Read
begin

text \<open>
  What the write operations of the version substitution structure do to the invariant and
  the abstract table, and that their undo records take every change back.
\<close>

section \<open>The undo log\<close>

text \<open>The segment the log would restore, and that all its records point into the segment in use.\<close>

definition vss_undone :: "VSS \<Rightarrow> VSSShmseg" where
  "vss_undone st = foldr vss_apply_delta (map snd (vss_undoRecords st)) (seg st)"

definition vss_log_ok :: "VSS \<Rightarrow> bool" where
  "vss_log_ok st \<longleftrightarrow> (\<forall>r \<in> set (vss_undoRecords st). fst r = tableShmkey (vssShminfo st))"

definition header_logged :: "VSS \<Rightarrow> bool" where
  "header_logged st \<longleftrightarrow> (\<exists>h. vd_header h \<in> set (map snd (vss_undoRecords st)))"

text \<open>\<open>st'\<close> extends \<open>st\<close> by logged changes: undoing from either gives the same segment.\<close>

definition undo_ext :: "VSS \<Rightarrow> VSS \<Rightarrow> bool" where
  "undo_ext st st' \<longleftrightarrow> vssShminfo st' = vssShminfo st \<and> (vss_log_ok st \<longrightarrow> vss_log_ok st') \<and>
     (header_logged st \<longrightarrow> header_logged st') \<and> vss_undone st' = vss_undone st"

lemma undo_ext_refl [simp]: "undo_ext st st"
  by (simp add: undo_ext_def)

lemma undo_ext_trans: "undo_ext st st' \<Longrightarrow> undo_ext st' st'' \<Longrightarrow> undo_ext st st''"
  by (simp add: undo_ext_def)

lemma vss_undoChanges_log: "vss_log_ok st \<Longrightarrow>
    vss_undoChanges st = Some (st\<lparr>seg := vss_undone st, vss_undoRecords := []\<rparr>)"
  by (simp add: vss_undoChanges_def vss_log_ok_def vss_undone_def)

lemma undo_ext_save:
  "vss_apply_delta d s' = seg st \<Longrightarrow> undo_ext st ((vss_makeUndoRecord d st)\<lparr>seg := s'\<rparr>)"
  by (auto simp: undo_ext_def vss_makeUndoRecord_def vss_log_ok_def header_logged_def vss_undone_def)

lemma undo_ext_save_header: "undo_ext st (vss_makeUndoRecord (vd_header (vss (seg st))) st)"
  using undo_ext_save [of "vd_header (vss (seg st))" "seg st" st] by (simp add: vss_makeUndoRecord_def)

lemma header_logged_save: "header_logged (vss_makeUndoRecord (vd_header h) st)"
  by (auto simp: header_logged_def vss_makeUndoRecord_def)

text \<open>Once the header is in the log, later changes of the header need no record.\<close>

lemma apply_delta_header: "\<exists>h''. vss_apply_delta d (s\<lparr>vss := h'\<rparr>) = (vss_apply_delta d s)\<lparr>vss := h''\<rparr>"
  by (cases d; cases s) auto

lemma foldr_delta_header:
  "vd_header h \<in> set ds \<Longrightarrow> foldr vss_apply_delta ds (s\<lparr>vss := h'\<rparr>) = foldr vss_apply_delta ds s"
proof (induction ds arbitrary: s h' rule: rev_induct)
  case (snoc d ds)
  obtain h'' where h'': "vss_apply_delta d (s\<lparr>vss := h'\<rparr>) = (vss_apply_delta d s)\<lparr>vss := h''\<rparr>"
    using apply_delta_header by blast
  show ?case
  proof (cases "vd_header h \<in> set ds")
    case True
    then show ?thesis using snoc.IH h'' by simp
  next
    case False
    with snoc.prems have "d = vd_header h" by auto
    then show ?thesis by simp
  qed
qed simp

lemma undo_ext_header: "header_logged st \<Longrightarrow> undo_ext st (st\<lparr>seg := (seg st)\<lparr>vss := h\<rparr>\<rparr>)"
  by (auto simp: undo_ext_def vss_log_ok_def header_logged_def vss_undone_def foldr_delta_header simp del: set_map)

section \<open>Removing a slot\<close>

lemma vss_chain_live:
  assumes wf: "vss_wf s" and b: "b < length (hashBuckets s)"
    and ch: "chain next' (storage s) (hashBuckets s ! b) ks" and k: "k \<in> set ks"
  shows "k \<in> live_ix entry_used (storage s)"
proof -
  from vss_wfD(2) [OF wf] b obtain js where "chain next' (storage s) (hashBuckets s ! b) js"
    "set js = {k \<in> live_ix entry_used (storage s). vss_bucket (numHashBuckets (vss s)) (storage s ! k) = int b}"
    by (rule hash_wf_chain)
  with ch k show ?thesis using chain_unique by blast
qed

definition unlinked :: "nat list \<Rightarrow> nat \<Rightarrow> nat \<Rightarrow> VSSShmseg \<Rightarrow> VSSShmseg" where
  "unlinked pre i b s =
     s\<lparr>storage := unlink_st next' set_next retire (prev_of pre) i (storage s),
       hashBuckets := unlink_bs next' retire (prev_of pre) i b (storage s) (hashBuckets s)\<rparr>"

lemma arr_get_int: "k < length xs \<Longrightarrow> arr_get xs (int k) = Some (xs ! k)"
  by simp

lemma vss_unlink_ok:
  assumes b: "b < length (hashBuckets (seg st))"
    and ch: "chain next' (storage (seg st)) (hashBuckets (seg st) ! b) (pre @ i # post)"
  shows "\<exists>st'. vss_unlink (prev_of pre) (int i) (int b) st = Some st' \<and>
    seg st' = unlinked pre i b (seg st) \<and> undo_ext st st'"
proof -
  have i: "i < length (storage (seg st))" "i \<notin> set pre"
    using chain_less [OF ch, of i] chain_distinct [OF ch] by auto
  let ?e = "storage (seg st) ! i"
  let ?st2 = "(vss_makeUndoRecord (vd_entry i ?e) st)\<lparr>seg := (seg st)\<lparr>storage := (storage (seg st))[i := ?e\<lparr>lbid := -1\<rparr>]\<rparr>\<rparr>"
  have ext: "undo_ext st ?st2" by (rule undo_ext_save) simp
  show ?thesis
  proof (cases pre rule: rev_cases)
    case Nil
    let ?st3 = "(vss_makeUndoRecord (vd_bucket b (hashBuckets (seg st) ! b)) ?st2)\<lparr>seg :=
      (seg ?st2)\<lparr>hashBuckets := (hashBuckets (seg st))[b := next' ?e]\<rparr>\<rparr>"
    have "undo_ext ?st2 ?st3" by (rule undo_ext_save) simp
    moreover have "vss_unlink (prev_of pre) (int i) (int b) st = Some ?st3"
      using Nil i b by (simp add: vss_unlink_def Let_def)
    moreover have "seg ?st3 = unlinked pre i b (seg st)"
      using Nil by (simp add: unlinked_def unlink_st_def unlink_bs_def Let_def retire_def)
    ultimately show ?thesis using undo_ext_trans [OF ext] by blast
  next
    case (snoc ps p)
    have p: "p < length (storage (seg st))" using chain_less [OF ch, of p] snoc by simp
    have "p \<noteq> i" using i snoc by auto
    let ?st3 = "(vss_makeUndoRecord (vd_entry p (storage (seg st) ! p)) ?st2)\<lparr>seg :=
      (seg ?st2)\<lparr>storage := (storage (seg ?st2))[p := (storage (seg st) ! p)\<lparr>next' := next' ?e\<rparr>]\<rparr>\<rparr>"
    have "undo_ext ?st2 ?st3"
      using \<open>p \<noteq> i\<close> p by (intro undo_ext_save) (simp add: list_update_swap)
    moreover have "vss_unlink (prev_of pre) (int i) (int b) st = Some ?st3"
      using snoc i p \<open>p \<noteq> i\<close> by (simp add: vss_unlink_def Let_def)
    moreover have "seg ?st3 = unlinked pre i b (seg st)"
      using snoc i \<open>p \<noteq> i\<close> by (simp add: unlinked_def unlink_st_def unlink_bs_def Let_def retire_def set_next_def)
    ultimately show ?thesis using undo_ext_trans [OF ext] by blast
  qed
qed

lemma vss_uncount_ok:
  assumes "i < length (storage (seg st))"
  obtains h where "vss_uncount (int i) st = Some (st\<lparr>seg := (seg st)\<lparr>vss := h\<rparr>\<rparr>)"
    and "capacity h = capacity (vss (seg st))" "numHashBuckets h = numHashBuckets (vss (seg st))"
    and "currentSize h = currentSize (vss (seg st)) - 1" "LWM h = min (LWM (vss (seg st))) (int i)"
  by (rule that [of "let h = vss (seg st);
           h = h\<lparr>currentSize := currentSize h - 1\<rparr>;
           h = (if locked (storage (seg st) ! i) \<and> lockedEntryCount h > 0
                then h\<lparr>lockedEntryCount := lockedEntryCount h - 1\<rparr> else h)
       in (if int i < LWM h then h\<lparr>LWM := int i\<rparr> else h)"])
    (use assms in \<open>simp_all add: vss_uncount_def Let_def\<close>)

lemma unlinked_ok:
  assumes inv: "vss_inv s" and b: "b < length (hashBuckets s)"
    and ch: "chain next' (storage s) (hashBuckets s ! b) (pre @ i # post)"
    and h: "capacity h = capacity (vss s)" "numHashBuckets h = numHashBuckets (vss s)"
      "currentSize h = currentSize (vss s) - 1" "LWM h = min (LWM (vss s)) (int i)"
  shows "vss_inv ((unlinked pre i b s)\<lparr>vss := h\<rparr>)" (is "vss_inv ?s")
    and "vss_abs ((unlinked pre i b s)\<lparr>vss := h\<rparr>) = (vss_abs s)(vss_key (storage s ! i) := None)"
    and "chain next' (storage ((unlinked pre i b s)\<lparr>vss := h\<rparr>)) (hashBuckets ((unlinked pre i b s)\<lparr>vss := h\<rparr>) ! b) (pre @ post)"
    and "next' (storage ((unlinked pre i b s)\<lparr>vss := h\<rparr>) ! i) = head_of post"
proof -
  have wf: "vss_wf s" using inv by (simp add: vss_inv_def)
  note w = vss_wfD [OF wf]
  have live: "i \<in> live_ix entry_used (storage s)" by (rule vss_chain_live [OF wf b ch]) simp
  have i: "i < length (storage s)" "i \<notin> set pre"
    using chain_less [OF ch, of i] chain_distinct [OF ch] by auto
  have live': "live_ix entry_used (storage ?s) = live_ix entry_used (storage s) - {i}"
    using vt.unlink_live [OF i] by (simp add: unlinked_def)
  have "vss_wf ?s"
  proof (rule vss_wfI)
    show "hash_wf entry_used next' vss_bucket (numHashBuckets (vss ?s)) (hashBuckets ?s) (storage ?s)"
      using vt.unlink_wf [OF w(2) b ch] h by (simp add: unlinked_def)
    show "keys_inj entry_used vss_key (storage ?s)"
      using vt.unlink_table(1) [OF w(3) live i(2)] by (simp add: unlinked_def)
    fix k assume "k < nat (LWM (vss ?s))"
    then have k: "k < nat (LWM (vss s))" "k \<noteq> i" "k < length (storage s)" using h w(5) by auto
    then show "entry_used (storage ?s ! k)"
      using w(6) [of k] vt.unlink_nth(2) [of k "storage s" i "prev_of pre"] by (simp add: unlinked_def)
  qed (use h w in \<open>simp_all add: unlinked_def\<close>)
  moreover have "vss_count ?s = vss_count s - 1"
    using live unfolding vss_count_def live' by simp
  moreover have "0 < vss_count s" using live by (auto simp: vss_count_def card_gt_0_iff)
  ultimately show "vss_inv ?s" using h(3) inv by (simp add: vss_inv_def of_nat_diff)
  show "vss_abs ?s = (vss_abs s)(vss_key (storage s ! i) := None)"
    using vt.unlink_table(2) [OF w(3) live i(2)] by (simp add: unlinked_def vss_abs_def)
  have "hashBuckets (unlinked pre i b s) ! b = (if pre = [] then next' (storage s ! i) else hashBuckets s ! b)"
    using b by (cases pre rule: rev_cases) (simp_all add: unlinked_def unlink_bs_def)
  then show "chain next' (storage ?s) (hashBuckets ?s ! b) (pre @ post)"
    using vt.unlink_chain [OF ch] by (simp add: unlinked_def)
  have "chain next' (storage s) (next' (storage s ! i)) post"
    using ch by (auto simp: chain_append_path)
  then show "next' (storage ?s ! i) = head_of post"
    using vt.unlink_nth_self [OF i] by (auto simp: unlinked_def retire_def dest: chain_head)
qed

section \<open>Purging a block from its bucket\<close>

text \<open>The part of the table that belongs to other blocks.\<close>

definition purge_inv :: "LBID_t \<Rightarrow> nat \<Rightarrow> VSS \<Rightarrow> int \<times> VSS \<Rightarrow> nat list \<Rightarrow> bool" where
  "purge_inv l b st0 = (\<lambda>(prev, st) ks.
     \<exists>pre. prev = prev_of pre \<and> vss_inv (seg st) \<and> b < length (hashBuckets (seg st)) \<and>
       chain next' (storage (seg st)) (hashBuckets (seg st) ! b) (pre @ ks) \<and>
       (\<forall>k \<in> set pre. lbid (storage (seg st) ! k) \<noteq> l) \<and>
       int b = vss_hash (numHashBuckets (vss (seg st))) l \<and>
       header_logged st \<and> undo_ext st0 st \<and>
       (\<forall>l' v. l' \<noteq> l \<longrightarrow> vss_abs (seg st) (l', v) = vss_abs (seg st0) (l', v)))"

lemma purge_step:
  assumes "purge_inv l b st0 (prev, st) (k # ks)"
  shows "\<exists>s'. vss_purge_body l (int b) (int k) (prev, st) = Some (Inr s') \<and>
    map_option next' (arr_get (storage (seg (snd s'))) (int k)) = Some (head_of ks) \<and> purge_inv l b st0 s' ks \<and>
    k < length (storage (seg st)) \<and> vss_abs (seg st) (vss_key (storage (seg st) ! k)) = Some (vss_val (storage (seg st) ! k)) \<and>
    (if lbid (storage (seg st) ! k) = l then vss_abs (seg (snd s')) = (vss_abs (seg st))(vss_key (storage (seg st) ! k) := None)
     else snd s' = st)"
proof -
  from assms obtain pre where prev: "prev = prev_of pre" and inv: "vss_inv (seg st)"
    and b: "b < length (hashBuckets (seg st))"
    and ch: "chain next' (storage (seg st)) (hashBuckets (seg st) ! b) (pre @ k # ks)"
    and pre: "\<forall>j \<in> set pre. lbid (storage (seg st) ! j) \<noteq> l"
    and hash: "int b = vss_hash (numHashBuckets (vss (seg st))) l"
    and log: "header_logged st" "undo_ext st0 st"
    and rest: "\<forall>l' v. l' \<noteq> l \<longrightarrow> vss_abs (seg st) (l', v) = vss_abs (seg st0) (l', v)"
    unfolding purge_inv_def by auto
  have k: "k < length (storage (seg st))" using chain_less [OF ch, of k] by simp
  have wf: "vss_wf (seg st)" using inv by (simp add: vss_inv_def)
  have "k \<in> live_ix entry_used (storage (seg st))" by (rule vss_chain_live [OF wf b ch]) simp
  then have kv: "vss_abs (seg st) (vss_key (storage (seg st) ! k)) = Some (vss_val (storage (seg st) ! k))"
    unfolding vss_abs_def by (rule table_live [OF vss_wfD(3) [OF wf]])
  show ?thesis
  proof (cases "lbid (storage (seg st) ! k) = l")
    case False
    have "chain next' (storage (seg st)) (next' (storage (seg st) ! k)) ks"
      using ch by (auto simp: chain_append_path)
    then have "next' (storage (seg st) ! k) = head_of ks" by (rule chain_head)
    moreover have "purge_inv l b st0 (int k, st) ks"
      unfolding purge_inv_def
      using inv b ch pre hash log rest False by (auto intro!: exI [of _ "pre @ [k]"])
    ultimately show ?thesis using k kv False by (simp add: vss_purge_body_def)
  next
    case True
    from vss_unlink_ok [OF b ch] obtain st1 where st1:
      "vss_unlink (prev_of pre) (int k) (int b) st = Some st1"
      "seg st1 = unlinked pre k b (seg st)" "undo_ext st st1" by blast
    have seg1: "storage (seg st1) = unlink_st next' set_next retire (prev_of pre) k (storage (seg st))"
      "vss (seg st1) = vss (seg st)" using st1(2) by (simp_all add: unlinked_def)
    then have k1: "k < length (storage (seg st1))" using k by simp
    from vss_uncount_ok [OF k1] obtain h where
      h: "vss_uncount (int k) st1 = Some (st1\<lparr>seg := (seg st1)\<lparr>vss := h\<rparr>\<rparr>)"
      "capacity h = capacity (vss (seg st))" "numHashBuckets h = numHashBuckets (vss (seg st))"
      "currentSize h = currentSize (vss (seg st)) - 1" "LWM h = min (LWM (vss (seg st))) (int k)"
      unfolding seg1 by blast
    note u = unlinked_ok [OF inv b ch h(2-5), folded st1(2)]
    let ?st2 = "st1\<lparr>seg := (seg st1)\<lparr>vss := h\<rparr>\<rparr>"
    have hl: "header_logged st1" using log(1) st1(3) by (simp add: undo_ext_def)
    have hl2: "header_logged ?st2" using undo_ext_header [OF hl] hl by (simp add: undo_ext_def)
    have "undo_ext st0 ?st2" using undo_ext_header [OF hl] log(2) st1(3) undo_ext_trans by blast
    moreover have "lbid (storage (seg st1) ! j) = lbid (storage (seg st) ! j)" if "j \<in> set pre" for j
    proof -
      have "j < length (storage (seg st))" "j \<noteq> k"
        using that chain_less [OF ch, of j] chain_distinct [OF ch] by auto
      then show ?thesis using vt.unlink_nth(3) [of j "storage (seg st)" k "prev_of pre"]
        unfolding seg1 by (simp add: vss_key_def)
    qed
    moreover have "length (hashBuckets (seg st1)) = length (hashBuckets (seg st))"
      unfolding st1(2) by (simp add: unlinked_def unlink_bs_def)
    ultimately have "purge_inv l b st0 (prev, ?st2) ks"
      unfolding purge_inv_def using prev u(1,2,3) b pre hash h(3) hl2 rest True
      by (auto intro!: exI [of _ pre] simp: vss_key_def)
    moreover have "vss_purge_body l (int b) (int k) (prev, st) = Some (Inr (prev, ?st2))"
      using k True st1(1) h(1) prev by (simp add: vss_purge_body_def)
    ultimately show ?thesis using u(2,4) k k1 kv True by (intro exI [of _ "(prev, ?st2)"]) simp
  qed
qed

lemma purge_done:
  assumes "purge_inv l b st (prev, st') []"
  shows "vss_inv (seg st') \<and> undo_ext st st' \<and> header_logged st' \<and>
    vss_abs (seg st') = (\<lambda>(l', v). if l' = l then None else vss_abs (seg st) (l', v))"
proof -
  from assms obtain pre where pre: "vss_inv (seg st')" "b < length (hashBuckets (seg st'))"
    "chain next' (storage (seg st')) (hashBuckets (seg st') ! b) pre"
    "\<forall>k \<in> set pre. lbid (storage (seg st') ! k) \<noteq> l" "int b = vss_hash (numHashBuckets (vss (seg st'))) l"
    "undo_ext st st'" "header_logged st'" "\<forall>l' v. l' \<noteq> l \<longrightarrow> vss_abs (seg st') (l', v) = vss_abs (seg st) (l', v)"
    unfolding purge_inv_def by auto
  have wf': "vss_wf (seg st')" using pre(1) by (simp add: vss_inv_def)
  from vss_wfD(2) [OF wf'] pre(2) obtain js where js: "chain next' (storage (seg st')) (hashBuckets (seg st') ! b) js"
    "set js = {k \<in> live_ix entry_used (storage (seg st')). vss_bucket (numHashBuckets (vss (seg st'))) (storage (seg st') ! k) = int b}"
    by (rule hash_wf_chain)
  have "js = pre" using chain_unique [OF js(1) pre(3)] .
  have none: "vss_abs (seg st') (l, v) = None" for v
    unfolding vss_abs_def table_None
  proof
    fix k assume k: "k \<in> live_ix entry_used (storage (seg st'))"
    show "vss_key (storage (seg st') ! k) \<noteq> (l, v)"
    proof
      assume eq: "vss_key (storage (seg st') ! k) = (l, v)"
      then have "k \<in> set js" using k pre(5) unfolding js(2) by (simp add: vss_key_def vss_bucket_def)
      with eq pre(4) \<open>js = pre\<close> show False by (simp add: vss_key_def)
    qed
  qed
  show ?thesis using none pre by (auto simp: fun_eq_iff)
qed

lemma purge_start:
  assumes inv: "vss_inv (seg st)" and log: "header_logged st"
  obtains b ks where "vss_hash (numHashBuckets (vss (seg st))) l = int b" and "b < length (hashBuckets (seg st))"
    and "hashBuckets (seg st) ! b = head_of ks" and "purge_inv l b st (-1, st) ks"
proof -
  have wf: "vss_wf (seg st)" using inv by (simp add: vss_inv_def)
  note bk = vss_bucket_ok [OF wf, of l]
  define b where "b = nat (vss_hash (numHashBuckets (vss (seg st))) l)"
  have hash: "vss_hash (numHashBuckets (vss (seg st))) l = int b" using bk(1) by (simp add: b_def)
  have b: "b < length (hashBuckets (seg st))" using bk(2) by (simp add: b_def)
  from vss_wfD(2) [OF wf] b obtain ks where ks: "chain next' (storage (seg st)) (hashBuckets (seg st) ! b) ks"
    by (rule hash_wf_chain)
  have "purge_inv l b st (-1, st) ks"
    unfolding purge_inv_def using inv log b ks hash by (auto intro!: exI [of _ "[]"])
  with hash b chain_head [OF ks] show thesis by (rule that)
qed

lemma vss_purge_ok:
  assumes inv: "vss_inv (seg st)" and log: "header_logged st"
  shows "\<exists>st'. vss_purge l (vss_hash (numHashBuckets (vss (seg st))) l) st = Some st' \<and>
    vss_inv (seg st') \<and> undo_ext st st' \<and>
    vss_abs (seg st') = (\<lambda>(l', v). if l' = l then None else vss_abs (seg st) (l', v))"
proof -
  from purge_start [OF assms] obtain b ks where b: "vss_hash (numHashBuckets (vss (seg st))) l = int b"
    "b < length (hashBuckets (seg st))" "hashBuckets (seg st) ! b = head_of ks" "purge_inv l b st (-1, st) ks" .
  obtain s' where s': "for_chain (\<lambda>(_, st) i. map_option next' (arr_get (storage (seg st)) i))
      (vss_purge_body l (int b)) (head_of ks) (-1, st) = Some (Inr s')" "purge_inv l b st s' []"
    using for_chain_rule [where Inv = "purge_inv l b st" and body = "vss_purge_body l (int b)"
        and nxt = "\<lambda>(_, st) i. map_option next' (arr_get (storage (seg st)) i)", OF _ b(4)] purge_step
    by (fastforce simp: split_beta)
  obtain prev st' where st': "s' = (prev, st')" by (cases s')
  with s' b purge_done [of l b st prev st'] show ?thesis by (simp add: vss_purge_def)
qed

section \<open>removeEntry\<close>

lemma fold_exit_prev:
  "(\<And>k. k \<in> set ks \<Longrightarrow> \<not> P k) \<Longrightarrow>
     fold_exit (\<lambda>prev k. if P k then Inl (r k prev) else Inr (int k)) ks (prev_of ps) = Inr (prev_of (ps @ ks))"
proof (induction ks arbitrary: ps)
  case (Cons k ks)
  from Cons.IH [of "ps @ [k]"] Cons.prems show ?case by simp
qed simp

lemma vss_getIndex_ok:
  assumes wf: "vss_wf s"
    and b_def: "b = nat (vss_hash (numHashBuckets (vss s)) l)"
  obtains (None) prev where "vss_abs s (l, v) = None" "vss_getIndex l v s = Some (-1, prev, int b)"
  | (Some) pre i post where "chain next' (storage s) (hashBuckets s ! b) (pre @ i # post)"
      "vss_getIndex l v s = Some (int i, prev_of pre, int b)" "vss_key (storage s ! i) = (l, v)"
      "vss_abs s (l, v) = Some (vss_val (storage s ! i))"
proof -
  note w = vss_wfD [OF wf] and bk = vss_bucket_ok [OF wf, of l, folded b_def]
  have hb: "vss_hash (numHashBuckets (vss s)) l = int b" using bk(1) by (simp add: b_def)
  from w(2) bk(2) obtain ks where ks: "chain next' (storage s) (hashBuckets s ! b) ks"
    "set ks = {k \<in> live_ix entry_used (storage s). vss_bucket (numHashBuckets (vss s)) (storage s ! k) = int b}"
    by (rule hash_wf_chain)
  let ?P = "\<lambda>k. lbid (storage s ! k) = l \<and> verID (storage s ! k) = v"
  have get: "vss_getIndex l v s =
      (case fold_exit (\<lambda>prev k. if ?P k then Inl (int k, prev, int b) else Inr (int k)) ks (-1) of
         Inl r \<Rightarrow> Some r | Inr prev \<Rightarrow> Some (-1, prev, int b))"
    using bk(3) by (simp add: vss_getIndex_def vss_scan_def hb Let_def scan_chain_eq [OF ks(1)])
  show thesis
  proof (cases "\<exists>k \<in> set ks. ?P k")
    case False
    then have "fold_exit (\<lambda>prev k. if ?P k then Inl (int k, prev, int b) else Inr (int k)) ks (prev_of []) = Inr (prev_of ks)"
      using fold_exit_prev [of ks ?P "\<lambda>k prev. (int k, prev, int b)" "[]"] by simp
    with get have "vss_getIndex l v s = Some (-1, prev_of ks, int b)" by simp
    moreover have "vss_abs s (l, v) = None"
      unfolding vss_abs_def table_None using False ks(2) hb by (auto simp: vss_key_def vss_bucket_def)
    ultimately show thesis using None by blast
  next
    case True
    then obtain pre i post where split: "ks = pre @ i # post" "?P i" "\<And>k. k \<in> set pre \<Longrightarrow> \<not> ?P k"
      using split_list_first_prop [of ks ?P] by blast
    have "fold_exit (\<lambda>prev k. if ?P k then Inl (int k, prev, int b) else Inr (int k)) pre (prev_of []) = Inr (prev_of pre)"
      using fold_exit_prev [of pre ?P "\<lambda>k prev. (int k, prev, int b)" "[]"] split(3) by simp
    with split get have g: "vss_getIndex l v s = Some (int i, prev_of pre, int b)"
      by (simp add: fold_exit_append)
    have live: "i \<in> live_ix entry_used (storage s)" using split(1) ks(2) by auto
    have key: "vss_key (storage s ! i) = (l, v)" using split(2) by (simp add: vss_key_def)
    have "vss_abs s (l, v) = Some (vss_val (storage s ! i))"
      using table_live [OF w(3) live, of vss_val] key by (simp add: vss_abs_def)
    with Some [OF _ g key] ks(1) split(1) show thesis by simp
  qed
qed

text \<open>
  The contract of \<open>removeEntry\<close> on the abstract table: the entry goes; when no other entry of
  the block is locked or in the version buffer, all entries of the block go and the block
  joins the flush list.
\<close>

definition remove_spec ::
  "LBID_t \<Rightarrow> VER_t \<Rightarrow> ((LBID_t \<times> VER_t) \<rightharpoonup> (bool \<times> bool)) \<Rightarrow> ((LBID_t \<times> VER_t) \<rightharpoonup> (bool \<times> bool)) \<times> LBID_t list"
where
  "remove_spec l v m =
     (if m (l, v) = None then (m, [])
      else let m' = m((l, v) := None)
           in if \<exists>x vb lk. m' (l, x) = Some (vb, lk) \<and> (vb \<or> lk) then (m', [])
              else (\<lambda>(l', x). if l' = l then None else m' (l', x), [l]))"

lemma vss_removeEntry_ok:
  assumes inv: "vss_inv (seg st)"
  shows "\<exists>st'. vss_removeEntry l v fl st = Some (st', fl @ snd (remove_spec l v (vss_abs (seg st)))) \<and>
    vss_inv (seg st') \<and> vss_abs (seg st') = fst (remove_spec l v (vss_abs (seg st))) \<and> undo_ext st st'"
proof -
  have wf: "vss_wf (seg st)" using inv by (simp add: vss_inv_def)
  define b where "b = nat (vss_hash (numHashBuckets (vss (seg st))) l)"
  note bk = vss_bucket_ok [OF wf, of l, folded b_def]
  have hb: "vss_hash (numHashBuckets (vss (seg st))) l = int b" using bk(1) by (simp add: b_def)
  from wf b_def show ?thesis
  proof (cases rule: vss_getIndex_ok [where v = v])
    case (None prev)
    then show ?thesis using inv by (simp add: vss_removeEntry_def remove_spec_def)
  next
    case (Some pre i post)
    from vss_unlink_ok [OF bk(2) Some(1)] obtain st1 where st1:
      "vss_unlink (prev_of pre) (int i) (int b) st = Some st1"
      "seg st1 = unlinked pre i b (seg st)" "undo_ext st st1" by blast
    let ?st1 = "vss_makeUndoRecord (vd_header (vss (seg st1))) st1"
    have seg1: "length (storage (seg ?st1)) = length (storage (seg st))"
      "vss (seg ?st1) = vss (seg st)" "seg ?st1 = unlinked pre i b (seg st)"
      using st1(2) by (simp_all add: unlinked_def)
    have "i < length (storage (seg ?st1))"
      unfolding seg1(1) using chain_less [OF Some(1), of i] by simp
    then obtain h where h0: "vss_uncount (int i) ?st1 = Some (?st1\<lparr>seg := (seg ?st1)\<lparr>vss := h\<rparr>\<rparr>)"
      "capacity h = capacity (vss (seg ?st1))" "numHashBuckets h = numHashBuckets (vss (seg ?st1))"
      "currentSize h = currentSize (vss (seg ?st1)) - 1" "LWM h = min (LWM (vss (seg ?st1))) (int i)"
      by (rule vss_uncount_ok)
    note h = h0 [unfolded seg1(2)]
    let ?st2 = "?st1\<lparr>seg := (seg ?st1)\<lparr>vss := h\<rparr>\<rparr>"
    note u = unlinked_ok [OF inv bk(2) Some(1) h(2-5), folded seg1(3)]
    have hl: "header_logged ?st1" by (rule header_logged_save)
    have e2: "undo_ext ?st1 ?st2" by (rule undo_ext_header [OF hl])
    then have ext: "undo_ext st ?st2" and hl2: "header_logged ?st2"
      using st1(3) undo_ext_save_header [of st1] undo_ext_trans hl by (blast, simp add: undo_ext_def)
    have abs2: "vss_abs (seg ?st2) = (vss_abs (seg st))((l, v) := None)" using u(2) Some(3) by simp
    have n2: "numHashBuckets (vss (seg ?st2)) = numHashBuckets (vss (seg st))" using h(3) by simp
    have wf2: "vss_wf (seg ?st2)" using u(1) by (simp add: vss_inv_def)
    have scan: "Option.bind (arr_get (hashBuckets (seg ?st2)) (int b)) (\<lambda>head. scan_chain next' (storage (seg ?st2)) f head acc) =
        vss_scan (seg ?st2) l f acc" for f :: "unit \<Rightarrow> int \<Rightarrow> VSSEntry \<Rightarrow> unit + unit" and acc
      by (simp add: vss_scan_def n2 [simplified] hb h(3))
    let ?f = "\<lambda>(_ :: unit) (_ :: int) e. if lbid e = l \<and> (vbFlag e \<or> locked e) then Inl () else Inr ()"
    have rem: "vss_removeEntry l v fl st = Option.bind (vss_scan (seg ?st2) l ?f ()) (\<lambda>out.
        case out of Inl _ \<Rightarrow> Some (?st2, fl)
        | Inr _ \<Rightarrow> Option.bind (vss_purge l (int b) ?st2) (\<lambda>st3. Some (st3, fl @ [l])))"
      using Some(2) st1(1) h(1) unfolding scan [symmetric]
      by (simp add: vss_removeEntry_def Option.bind_assoc cong del: sum.case_cong_weak)
    let ?m = "(vss_abs (seg st))((l, v) := None)"
    show ?thesis
    proof (rule vss_find [OF wf2, of l "\<lambda>e. vbFlag e \<or> locked e" "\<lambda>_. ()"])
      fix e assume e: "vss_scan (seg ?st2) l ?f () = Some (Inl ())" "vbFlag e \<or> locked e"
        "vss_abs (seg ?st2) (l, verID e) = Some (vbFlag e, locked e)"
      then have "\<exists>x vb lk. ?m (l, x) = Some (vb, lk) \<and> (vb \<or> lk)" unfolding abs2 by blast
      then have "remove_spec l v (vss_abs (seg st)) = (?m, [])"
        using Some(4) by (simp add: remove_spec_def Let_def del: fun_upd_apply)
      with rem e(1) u(1) abs2 ext show ?thesis by (intro exI [of _ ?st2]) simp
    next
      assume n: "vss_scan (seg ?st2) l ?f () = Some (Inr ())"
        "\<And>v vb lk. vss_abs (seg ?st2) (l, v) = Some (vb, lk) \<Longrightarrow>
          \<exists>e. verID e = v \<and> vbFlag e = vb \<and> locked e = lk \<and> \<not> (vbFlag e \<or> locked e)"
      then have "\<not> (\<exists>x vb lk. ?m (l, x) = Some (vb, lk) \<and> (vb \<or> lk))" unfolding abs2 by blast
      then have spec: "remove_spec l v (vss_abs (seg st)) = (\<lambda>(l', x). if l' = l then None else ?m (l', x), [l])"
        using Some(4) by (simp add: remove_spec_def Let_def)
      obtain st3 where st3: "vss_purge l (int b) ?st2 = Some st3" "vss_inv (seg st3)" "undo_ext ?st2 st3"
        "vss_abs (seg st3) = (\<lambda>(l', v). if l' = l then None else vss_abs (seg ?st2) (l', v))"
        using vss_purge_ok [OF _ hl2, of l] u(1) unfolding n2 hb by auto
      with rem n(1) spec abs2 ext undo_ext_trans show ?thesis by (intro exI [of _ st3]) auto
    qed
  qed
qed

end
