(* ===== verification/VSS_Txn.thy ===== *)
theory VSS_Txn
  imports VSS_Write
begin

text \<open>
  The remaining write operations of the version substitution structure: the undo of an
  insertion, \<open>setVBFlag\<close>, \<open>commit\<close>, and the image that \<open>save\<close> writes and \<open>load\<close> reads.
\<close>

section \<open>Undoing an insertion\<close>

lemma undo_fold:
  "vss_undoRecords (fold vss_makeUndoRecord ds st) =
     vss_undoRecords st @ map (Pair (tableShmkey (vssShminfo st))) ds"
  by (induction ds arbitrary: st) (simp_all add: vss_makeUndoRecord_def)

lemma vss_insert_entry_undo:
  assumes "vss_insert_entry e False s = Some (s', ds)"
  shows "foldr vss_apply_delta (ds @ [vd_currentSize n]) (s'\<lparr>vss := h\<rparr>) = s"
proof -
  from assms obtain i b where
    s': "s' = s\<lparr>vss := (vss s)\<lparr>LWM := int i + 1\<rparr>, storage := (storage s)[i := e\<lparr>next' := hashBuckets s ! b\<rparr>],
       hashBuckets := (hashBuckets s)[b := int i]\<rparr>"
    and ds: "ds = [vd_header (vss s), vd_entry i (storage s ! i), vd_bucket b (hashBuckets s ! b)]"
    by (auto simp: vss_insert_entry_def Let_def arr_get_def bind_eq_Some_conv split: if_splits)
  show ?thesis unfolding s' ds by (cases s) simp
qed

lemma vss_insert_undo:
  assumes ins: "vss_insert l v vb lk False st = Some st'"
    and room: "currentSize (vss (seg st)) \<noteq> capacity (vss (seg st))"
  shows "undo_ext st st'"
proof -
  let ?e = "\<lparr>lbid = l, verID = v, vbFlag = vb, locked = lk, next' = -1\<rparr>"
  from ins room obtain s ds where s: "vss_insert_entry ?e False (seg st) = Some (s, ds)"
    by (auto simp: vss_insert_def Let_def bind_eq_Some_conv split: prod.splits if_splits)
  define h where "h = (let h = (vss s)\<lparr>currentSize := currentSize (vss s) + 1\<rparr>
    in if lk then h\<lparr>lockedEntryCount := lockedEntryCount h + 1\<rparr> else h)"
  let ?st3 = "vss_makeUndoRecord (vd_currentSize (currentSize (vss s))) (fold vss_makeUndoRecord ds (st\<lparr>seg := s\<rparr>))"
  have st': "st' = ?st3\<lparr>seg := s\<lparr>vss := h\<rparr>\<rparr>"
    using ins room s by (cases lk) (simp_all add: vss_insert_def Let_def h_def)
  have rec: "vss_undoRecords st' = vss_undoRecords st @
      map (Pair (tableShmkey (vssShminfo st))) (ds @ [vd_currentSize (currentSize (vss s))])"
    unfolding st' by (simp add: vss_makeUndoRecord_def undo_fold)
  have "vss_undone st' = vss_undone st"
    unfolding vss_undone_def rec
    using vss_insert_entry_undo [OF s, of "currentSize (vss s)" h] by (simp add: st' comp_def)
  moreover have "vssShminfo st' = vssShminfo st" by (simp add: st')
  ultimately show ?thesis
    by (auto simp: undo_ext_def vss_log_ok_def header_logged_def rec)
qed

section \<open>setVBFlag\<close>

lemma vss_modify_ok:
  assumes inv: "vss_inv s" and i: "i \<in> live_ix entry_used (storage s)"
    and e: "vss_key e = vss_key (storage s ! i)" "next' e = next' (storage s ! i)"
  shows "vss_inv (s\<lparr>storage := (storage s)[i := e]\<rparr>)" (is "vss_inv ?s")
    and "vss_abs (s\<lparr>storage := (storage s)[i := e]\<rparr>) = (vss_abs s)(vss_key e \<mapsto> vss_val e)"
proof -
  have wf: "vss_wf s" using inv by (simp add: vss_inv_def)
  note w = vss_wfD [OF wf]
  have len: "i < length (storage s)" using i by (rule live_ix_less)
  have used: "entry_used e" using e(1) live_ix_used [OF i] by (simp add: vss_key_def entry_used_def)
  have live: "live_ix entry_used (storage ?s) = live_ix entry_used (storage s)"
    using live_ix_upd_same [OF len, of entry_used e] used live_ix_used [OF i] by simp
  have hash: "vss_bucket n (storage ?s ! k) = vss_bucket n (storage s ! k)" if "k \<in> live_ix entry_used (storage s)" for k n
    using that len e(1) live_ix_less [OF that] by (auto simp: nth_upd_cases vss_bucket_def vss_key_def)
  have "vss_wf ?s"
  proof (rule vss_wfI)
    show "hash_wf entry_used next' vss_bucket (numHashBuckets (vss ?s)) (hashBuckets ?s) (storage ?s)"
    proof (rule hash_wfI)
      fix b assume "b < length (hashBuckets ?s)"
      then have b: "b < length (hashBuckets s)" by simp
      from w(2) b obtain ks where ks: "chain next' (storage s) (hashBuckets s ! b) ks"
        "set ks = {k \<in> live_ix entry_used (storage s). vss_bucket (numHashBuckets (vss s)) (storage s ! k) = int b}"
        by (rule hash_wf_chain)
      have "set ks = {k \<in> live_ix entry_used (storage ?s). vss_bucket (numHashBuckets (vss ?s)) (storage ?s ! k) = int b}"
        unfolding ks(2) live using hash by auto
      moreover have "chain next' (storage ?s) (hashBuckets ?s ! b) ks"
        using ks(1) chain_upd_same_nxt [OF e(2)] by simp
      ultimately show "\<exists>ks. chain next' (storage ?s) (hashBuckets ?s ! b) ks \<and>
          set ks = {k \<in> live_ix entry_used (storage ?s). vss_bucket (numHashBuckets (vss ?s)) (storage ?s ! k) = int b}"
        by blast
    qed (use hash_wf_pos [OF w(2)] hash_wf_len [OF w(2)] in simp_all)
    show "keys_inj entry_used vss_key (storage ?s)"
      using table_upd_same_key(1) [OF w(3) i used e(1)] by simp
    show "entry_used (storage ?s ! k)" if "k < nat (LWM (vss ?s))" for k
      using that w(5) w(6) [of k] used by (auto simp: nth_upd_cases)
  qed (use w in simp_all)
  then show "vss_inv ?s" using inv live by (simp add: vss_inv_def vss_count_def)
  show "vss_abs ?s = (vss_abs s)(vss_key e \<mapsto> vss_val e)"
    using table_upd_same_key(2) [OF w(3) i used e(1), of vss_val] by (simp add: vss_abs_def)
qed

lemma vss_setVBFlag_ok:
  assumes inv: "vss_inv (seg st)"
  shows "case vss_abs (seg st) (l, v) of
      None \<Rightarrow> vss_setVBFlag l v flag st = throw logic_error
    | Some (vb, lk) \<Rightarrow> \<exists>st'. vss_setVBFlag l v flag st = ret st' \<and> vss_inv (seg st') \<and>
        vss_abs (seg st') = (vss_abs (seg st))((l, v) \<mapsto> (flag, lk)) \<and> undo_ext st st'"
proof -
  have wf: "vss_wf (seg st)" using inv by (simp add: vss_inv_def)
  define b where "b = nat (vss_hash (numHashBuckets (vss (seg st))) l)"
  from wf b_def show ?thesis
  proof (cases rule: vss_getIndex_ok [where v = v])
    case (None prev)
    then show ?thesis by (simp add: vss_setVBFlag_def)
  next
    case (Some pre i post)
    have i: "i < length (storage (seg st))" using chain_less [OF Some(1), of i] by simp
    have live: "i \<in> live_ix entry_used (storage (seg st))"
      using vss_bucket_ok(2) [OF wf, of l, folded b_def] Some(1)
      by (rule vss_chain_live [OF wf]) simp
    let ?e = "(storage (seg st) ! i)\<lparr>vbFlag := flag\<rparr>"
    let ?st = "(vss_makeUndoRecord (vd_entry i (storage (seg st) ! i)) st)\<lparr>seg :=
      (seg st)\<lparr>storage := (storage (seg st))[i := ?e]\<rparr>\<rparr>"
    have "vss_setVBFlag l v flag st = ret ?st"
      using Some(2) i by (simp add: vss_setVBFlag_def Let_def)
    moreover have "undo_ext st ?st" by (rule undo_ext_save) simp
    moreover note vss_modify_ok [OF inv live, of ?e]
    ultimately show ?thesis using Some(3,4) by (simp add: vss_key_def vss_val_def)
  qed
qed

section \<open>commit\<close>

definition unlock_txn :: "VER_t \<Rightarrow> VSSEntry \<Rightarrow> VSSEntry" where
  "unlock_txn txnID e = (if lbid e \<noteq> -1 \<and> verID e = txnID then e\<lparr>locked := False\<rparr> else e)"

definition commit_spec ::
  "VER_t \<Rightarrow> ((LBID_t \<times> VER_t) \<rightharpoonup> (bool \<times> bool)) \<Rightarrow> ((LBID_t \<times> VER_t) \<rightharpoonup> (bool \<times> bool))"
where
  "commit_spec txnID m = (\<lambda>(l, v). if v = txnID then map_option (\<lambda>(vb, _). (vb, False)) (m (l, v)) else m (l, v))"

lemma vss_commit_slot_ok:
  assumes inv: "vss_inv (seg st)" and i: "i < length (storage (seg st))"
  shows "vss_inv (seg (vss_commit_slot txnID i st))"
    and "storage (seg (vss_commit_slot txnID i st)) =
      (storage (seg st))[i := unlock_txn txnID (storage (seg st) ! i)]"
    and "hashBuckets (seg (vss_commit_slot txnID i st)) = hashBuckets (seg st)"
    and "capacity (vss (seg (vss_commit_slot txnID i st))) = capacity (vss (seg st))"
proof -
  let ?e = "storage (seg st) ! i"
  show "vss_inv (seg (vss_commit_slot txnID i st))"
  proof (cases "lbid ?e \<noteq> -1 \<and> verID ?e = txnID")
    case True
    then have "i \<in> live_ix entry_used (storage (seg st))" using i by (simp add: live_ix_def entry_used_def)
    from vss_modify_ok(1) [OF inv this, of "?e\<lparr>locked := False\<rparr>"] True show ?thesis
      by (auto simp: vss_commit_slot_def Let_def vss_key_def vss_inv_def vss_wf_header)
  next
    case False
    then show ?thesis using inv by (auto simp: vss_commit_slot_def)
  qed
  show "storage (seg (vss_commit_slot txnID i st)) = (storage (seg st))[i := unlock_txn txnID ?e]"
    "hashBuckets (seg (vss_commit_slot txnID i st)) = hashBuckets (seg st)"
    "capacity (vss (seg (vss_commit_slot txnID i st))) = capacity (vss (seg st))"
    by (auto simp: vss_commit_slot_def Let_def unlock_txn_def)
qed

lemma vss_commit_slots:
  assumes "vss_inv (seg st)" "n \<le> length (storage (seg st))"
  shows "vss_inv (seg (fold (vss_commit_slot txnID) [0..<n] st)) \<and>
    storage (seg (fold (vss_commit_slot txnID) [0..<n] st)) =
      map (unlock_txn txnID) (take n (storage (seg st))) @ drop n (storage (seg st))"
  using assms(2)
proof (induction n)
  case (Suc n)
  let ?st = "fold (vss_commit_slot txnID) [0..<n] st" and ?xs = "storage (seg st)"
  from Suc have IH: "vss_inv (seg ?st)" "storage (seg ?st) = map (unlock_txn txnID) (take n ?xs) @ drop n ?xs"
    by simp_all
  have n: "n < length ?xs" using Suc.prems by simp
  have "(map (unlock_txn txnID) (take n ?xs) @ drop n ?xs)[n := unlock_txn txnID (?xs ! n)] =
      map (unlock_txn txnID) (take (Suc n) ?xs) @ drop (Suc n) ?xs"
    using n by (simp add: list_update_append take_Suc_conv_app_nth Cons_nth_drop_Suc [symmetric])
  moreover have "storage (seg ?st) ! n = ?xs ! n" using n by (simp add: IH(2) nth_append)
  ultimately show ?case
    using vss_commit_slot_ok(1,2) [OF IH(1), of n txnID] n IH(2) by simp
qed (use assms in simp)

lemma table_map:
  assumes "\<And>e. used (f e) = used e" "\<And>e. key (f e) = key e" "\<And>e. used e \<Longrightarrow> val (f e) = g (key e) (val e)"
  shows "table used key val (map f st) x = map_option (g x) (table used key val st x)"
  using assms by (induction st) (simp_all add: table_def)

lemma vss_commit_ok:
  assumes inv: "vss_inv (seg st)"
  shows "\<exists>st'. vss_commit txnID st = Some st' \<and> vss_inv (seg st') \<and>
    vss_abs (seg st') = commit_spec txnID (vss_abs (seg st))"
proof -
  have cap: "capacity (vss (seg st)) = int (length (storage (seg st)))"
    using inv by (auto simp: vss_inv_def dest: vss_wfD(1))
  let ?st' = "fold (vss_commit_slot txnID) [0..<length (storage (seg st))] st"
  have "vss_commit txnID st = Some ?st'" using cap by (simp add: vss_commit_def)
  moreover have "vss_inv (seg ?st')" "storage (seg ?st') = map (unlock_txn txnID) (storage (seg st))"
    using vss_commit_slots [OF inv, of "length (storage (seg st))" txnID] by simp_all
  moreover have "table entry_used vss_key vss_val (map (unlock_txn txnID) xs) x =
      map_option (\<lambda>(vb, lk). (vb, lk \<and> snd x \<noteq> txnID)) (table entry_used vss_key vss_val xs x)" for xs x
    by (rule table_map) (auto simp: unlock_txn_def vss_entry_defs)
  ultimately show ?thesis
    by (auto simp: vss_abs_def commit_spec_def fun_eq_iff option.map_comp option.map_id comp_def split_beta intro!: map_option_cong)
qed

section \<open>save and load\<close>

lemma vss_load_entries_ok:
  assumes "vss_inv (seg st)" "distinct (map vss_key es)" "\<And>e. e \<in> set es \<Longrightarrow> entry_used e"
    and "\<And>e. e \<in> set es \<Longrightarrow> vss_abs (seg st) (vss_key e) = None"
    and "vss_count (seg st) + length es \<le> length (storage (seg st))"
  shows "\<exists>st'. vss_load_entries (length es) es st = ret st' \<and> vss_inv (seg st') \<and>
    vss_abs (seg st') = vss_abs (seg st) ++ map_of (map (\<lambda>e. (vss_key e, vss_val e)) es)"
  using assms
proof (induction es arbitrary: st)
  case (Cons e es)
  have pre: "lbid e \<noteq> -1" "vss_abs (seg st) (lbid e, verID e) = None" "vss_count (seg st) < length (storage (seg st))"
    using Cons.prems(3) [of e] Cons.prems(4) [of e] Cons.prems(5) by (auto simp: entry_used_def vss_key_def)
  from vss_insert_room [OF Cons.prems(1) pre, of "vbFlag e" "locked e" True] obtain st1 where st1:
    "vss_insert (lbid e) (verID e) (vbFlag e) (locked e) True st = Some st1" "vss_inv (seg st1)"
    "vss_abs (seg st1) = (vss_abs (seg st))(vss_key e \<mapsto> vss_val e)"
    "vss_count (seg st1) = Suc (vss_count (seg st))" "length (storage (seg st1)) = length (storage (seg st))"
    by (auto simp: vss_key_def vss_val_def)
  have nin: "vss_key x \<noteq> vss_key e" if "x \<in> set es" for x using Cons.prems(2) that by (auto simp: image_iff)
  have "distinct (map vss_key es)" "\<And>x. x \<in> set es \<Longrightarrow> entry_used x"
    "\<And>x. x \<in> set es \<Longrightarrow> vss_abs (seg st1) (vss_key x) = None"
    "vss_count (seg st1) + length es \<le> length (storage (seg st1))"
    using Cons.prems nin st1(3-5) by auto
  from Cons.IH [OF st1(2) this] obtain st' where
    st': "vss_load_entries (length es) es st1 = ret st'" "vss_inv (seg st')"
    "vss_abs (seg st') = vss_abs (seg st1) ++ map_of (map (\<lambda>e. (vss_key e, vss_val e)) es)" by blast
  have "vss_key e \<notin> vss_key ` set es" using Cons.prems(2) by simp
  then have "map_of (map (\<lambda>e. (vss_key e, vss_val e)) es) (vss_key e) = None"
    by (simp add: map_of_eq_None_iff image_image)
  then show ?case
    using st' st1 by (auto simp: fun_eq_iff map_add_def split: option.splits)
qed simp

lemma vss_growForLoad_ok:
  assumes "0 \<le> n"
  shows "vss_inv (seg (vss_growForLoad n st))" "vss_abs (seg (vss_growForLoad n st)) = Map.empty"
    "vss_count (seg (vss_growForLoad n st)) = 0" "nat n \<le> length (storage (seg (vss_growForLoad n st)))"
    "vss_undoRecords (vss_growForLoad n st) = []"
proof -
  define m where "m = (if n < 200000 then 200000 else n)"
  define c where "c = (if m mod 20000 \<noteq> 0 then (m div 20000 + 1) * 20000 else m)"
  have m: "200000 \<le> m" "n \<le> m" by (simp_all add: m_def)
  have "m \<le> (m div 20000 + 1) * 20000" by presburger
  then have "m \<le> c" by (simp add: c_def)
  with m have "200000 \<le> c" "n \<le> c" by linarith+
  then have c: "0 < c div 4" "0 \<le> c" "n \<le> c" by presburger+
  have s: "seg (vss_growForLoad n st) = vss_fresh_seg c (c div 4) 0 0"
    unfolding vss_growForLoad_def Let_def VSSSTORAGE_INITIAL_COUNT_def VSSSTORAGE_INCREMENT_COUNT_def
      m_def [symmetric] c_def [symmetric] by simp
  show "vss_inv (seg (vss_growForLoad n st))"
    unfolding s vss_inv_def using vss_fresh_seg_ok(1,3) [OF c(1,2)] by (simp add: vss_fresh_seg_def)
  show "vss_abs (seg (vss_growForLoad n st)) = Map.empty" "vss_count (seg (vss_growForLoad n st)) = 0"
    "nat n \<le> length (storage (seg (vss_growForLoad n st)))"
    unfolding s using vss_fresh_seg_ok(2-4) [OF c(1,2)] c(3) by simp_all
  show "vss_undoRecords (vss_growForLoad n st) = []" by (simp add: vss_growForLoad_def Let_def)
qed

lemma vss_save_load_ok:
  assumes inv: "vss_inv s"
  shows "\<exists>f st'. vss_save s = Some f \<and> vss_load f st = ret st' \<and> vss_inv (seg st') \<and> vss_abs (seg st') = vss_abs s"
proof -
  have wf: "vss_wf s" using inv by (simp add: vss_inv_def)
  let ?es = "filter entry_used (storage s)"
  let ?f = "\<lparr>vf_magic = VSS_MAGIC_V1, vf_entries = currentSize (vss s), vf_body = ?es\<rparr>"
  let ?g = "vss_growForLoad (currentSize (vss s)) st"
  have n: "currentSize (vss s) = int (length ?es)"
    using inv by (simp add: vss_inv_def vss_count_def card_live_ix)
  have save: "vss_save s = Some ?f"
    using vss_wfD(1) [OF wf] by (simp add: vss_save_def vss_slots_def)
  have pos: "0 \<le> currentSize (vss s)" "nat (currentSize (vss s)) = length ?es" using n by simp_all
  note g = vss_growForLoad_ok [OF pos(1), of st]
  obtain st' where st': "vss_load_entries (length ?es) ?es ?g = ret st'" "vss_inv (seg st')"
    "vss_abs (seg st') = vss_abs (seg ?g) ++ map_of (map (\<lambda>e. (vss_key e, vss_val e)) ?es)"
  proof (rule exE [OF vss_load_entries_ok [of ?g ?es]])
    show "vss_count (seg ?g) + length ?es \<le> length (storage (seg ?g))" using g(3,4) pos(2) by simp
    show "distinct (map vss_key ?es)" by (rule keys_inj_distinct [OF vss_wfD(3) [OF wf]])
    show "vss_abs (seg ?g) (vss_key e) = None" for e using g(2) by simp
  qed (use g(1) in auto)
  have "vss_load ?f st = ret st'" using st'(1) pos by (simp add: vss_load_def)
  moreover have "vss_abs (seg st') = vss_abs s"
    using st'(3) g(2) by (simp add: vss_abs_def [of s] table_def)
  ultimately show ?thesis using save st'(2) by blast
qed

end
