(* ===== verification/VBBM_Props.thy ===== *)
theory VBBM_Props
  imports VBBM VSS_Txn
begin

text \<open>
  The invariant of the version buffer block map, the abstract map from a block and a
  version to a place in the version buffer, and what lookup, insertion, removal, growth,
  \<open>save\<close> and \<open>load\<close> do to both.
\<close>

section \<open>The invariant and the abstract map\<close>

definition vb_bucket :: "int \<Rightarrow> VBBMEntry \<Rightarrow> int" where
  "vb_bucket n e = vb_hash n (vb_lbid e) (vb_verID e)"

definition vb_key :: "VBBMEntry \<Rightarrow> LBID_t \<times> VER_t" where
  "vb_key e = (vb_lbid e, vb_verID e)"

definition vb_val :: "VBBMEntry \<Rightarrow> OID_t \<times> int" where
  "vb_val e = (vbOID e, vbFBO e)"

definition vb_set_next :: "int \<Rightarrow> VBBMEntry \<Rightarrow> VBBMEntry" where
  "vb_set_next j e = e\<lparr>vb_next := j\<rparr>"

definition vb_retire :: "VBBMEntry \<Rightarrow> VBBMEntry" where
  "vb_retire e = e\<lparr>vb_lbid := -1\<rparr>"

lemmas vb_entry_defs = vb_bucket_def vb_key_def vb_val_def vb_set_next_def vb_retire_def vb_used_def

lemma vb_hash_range: "0 < n \<Longrightarrow> 0 \<le> vb_hash n l v \<and> vb_hash n l v < n"
  unfolding vb_hash_def using hash_mod_range by blast

interpretation bt: hash_table vb_used vb_next vb_set_next vb_retire vb_bucket vb_key vb_val
  by unfold_locales (auto simp: vb_entry_defs vb_hash_range)

definition vb_wf :: "VBShmseg \<Rightarrow> bool" where
  "vb_wf s \<longleftrightarrow>
     vbCapacity (vbbm s) = int (length (vb_storage s)) \<and> nFiles (vbbm s) = int (length (files s)) \<and>
     hash_wf vb_used vb_next vb_bucket (vb_numHashBuckets (vbbm s)) (vb_hashBuckets s) (vb_storage s) \<and>
     keys_inj vb_used vb_key (vb_storage s) \<and>
     0 \<le> vbLWM (vbbm s) \<and> vbLWM (vbbm s) \<le> vbCapacity (vbbm s) \<and>
     (\<forall>k < nat (vbLWM (vbbm s)). vb_used (vb_storage s ! k))"

definition vb_count :: "VBShmseg \<Rightarrow> nat" where
  "vb_count s = card (live_ix vb_used (vb_storage s))"

definition vb_inv :: "VBShmseg \<Rightarrow> bool" where
  "vb_inv s \<longleftrightarrow> vb_wf s \<and> vbCurrentSize (vbbm s) = int (vb_count s)"

definition vb_abs :: "VBShmseg \<Rightarrow> (LBID_t \<times> VER_t) \<rightharpoonup> (OID_t \<times> int)" where
  "vb_abs s = table vb_used vb_key vb_val (vb_storage s)"

text \<open>No hole below the last entry: the used slots are the first \<open>vbCurrentSize\<close> ones.\<close>

definition vb_compact :: "VBShmseg \<Rightarrow> bool" where
  "vb_compact s \<longleftrightarrow> (\<forall>k < length (vb_storage s). vb_used (vb_storage s ! k) \<longrightarrow> int k < vbCurrentSize (vbbm s))"

lemma vb_wfD:
  assumes "vb_wf s"
  shows "vbCapacity (vbbm s) = int (length (vb_storage s))"
    and "hash_wf vb_used vb_next vb_bucket (vb_numHashBuckets (vbbm s)) (vb_hashBuckets s) (vb_storage s)"
    and "keys_inj vb_used vb_key (vb_storage s)"
    and "0 \<le> vbLWM (vbbm s)" "vbLWM (vbbm s) \<le> int (length (vb_storage s))"
    and "\<And>k. k < nat (vbLWM (vbbm s)) \<Longrightarrow> vb_used (vb_storage s ! k)"
    and "nFiles (vbbm s) = int (length (files s))"
  using assms unfolding vb_wf_def by auto

lemma vb_wfI:
  assumes "vbCapacity (vbbm s) = int (length (vb_storage s))"
    and "hash_wf vb_used vb_next vb_bucket (vb_numHashBuckets (vbbm s)) (vb_hashBuckets s) (vb_storage s)"
    and "keys_inj vb_used vb_key (vb_storage s)"
    and "0 \<le> vbLWM (vbbm s)" "vbLWM (vbbm s) \<le> int (length (vb_storage s))"
    and "\<And>k. k < nat (vbLWM (vbbm s)) \<Longrightarrow> vb_used (vb_storage s ! k)"
    and "nFiles (vbbm s) = int (length (files s))"
  shows "vb_wf s"
  using assms unfolding vb_wf_def by auto

lemma vb_wf_header:
  "vb_wf s \<Longrightarrow> vbCapacity h = vbCapacity (vbbm s) \<Longrightarrow> vbLWM h = vbLWM (vbbm s) \<Longrightarrow>
     vb_numHashBuckets h = vb_numHashBuckets (vbbm s) \<Longrightarrow> nFiles h = nFiles (vbbm s) \<Longrightarrow> vb_wf (s\<lparr>vbbm := h\<rparr>)"
  unfolding vb_wf_def by simp

lemma vb_abs_header [simp]: "vb_abs (s\<lparr>vbbm := h\<rparr>) = vb_abs s" "vb_abs (s\<lparr>files := fs\<rparr>) = vb_abs s"
  by (simp_all add: vb_abs_def)

lemma vb_count_header [simp]: "vb_count (s\<lparr>vbbm := h\<rparr>) = vb_count s" "vb_count (s\<lparr>files := fs\<rparr>) = vb_count s"
  by (simp_all add: vb_count_def)

lemma vb_bucket_ok:
  assumes "vb_wf s"
  shows "0 \<le> vb_hash (vb_numHashBuckets (vbbm s)) l v"
    and "nat (vb_hash (vb_numHashBuckets (vbbm s)) l v) < length (vb_hashBuckets s)"
    and "arr_get (vb_hashBuckets s) (vb_hash (vb_numHashBuckets (vbbm s)) l v) =
      Some (vb_hashBuckets s ! nat (vb_hash (vb_numHashBuckets (vbbm s)) l v))"
proof -
  note wf = vb_wfD(2) [OF assms]
  have "0 \<le> vb_hash (vb_numHashBuckets (vbbm s)) l v \<and>
      vb_hash (vb_numHashBuckets (vbbm s)) l v < vb_numHashBuckets (vbbm s)"
    using hash_wf_pos [OF wf] by (rule vb_hash_range)
  then show "0 \<le> vb_hash (vb_numHashBuckets (vbbm s)) l v"
    "nat (vb_hash (vb_numHashBuckets (vbbm s)) l v) < length (vb_hashBuckets s)"
    "arr_get (vb_hashBuckets s) (vb_hash (vb_numHashBuckets (vbbm s)) l v) =
      Some (vb_hashBuckets s ! nat (vb_hash (vb_numHashBuckets (vbbm s)) l v))"
    using hash_wf_len [OF wf] by (auto simp: arr_get_def nat_less_iff)
qed

section \<open>Insertion\<close>

lemma vb_insert_entry_ok:
  assumes wf: "vb_wf s" and e: "vb_lbid e \<noteq> -1" "vb_abs s (vb_key e) = None"
    and room: "vb_count s < length (vb_storage s)"
  shows "\<exists>s' ds i. vb_insert_entry e loading s = Some (s', ds) \<and> vb_wf s' \<and>
    vb_abs s' = (vb_abs s)(vb_key e \<mapsto> vb_val e) \<and> vb_count s' = Suc (vb_count s) \<and>
    length (vb_storage s') = length (vb_storage s) \<and> files s' = files s \<and>
    (\<exists>w. vbbm s' = (vbbm s)\<lparr>vbLWM := w\<rparr>) \<and>
    live_ix vb_used (vb_storage s') = insert i (live_ix vb_used (vb_storage s)) \<and>
    i \<notin> live_ix vb_used (vb_storage s) \<and> {..<i} \<subseteq> live_ix vb_used (vb_storage s)"
proof -
  note w = vb_wfD [OF wf]
  obtain k where k: "k < length (vb_storage s)" "\<not> vb_used (vb_storage s ! k)"
    using live_ix_not_full room unfolding vb_count_def by blast
  with w(6) have "nat (vbLWM (vbbm s)) \<le> k" by (meson not_le)
  with k obtain i where i: "find_free vb_used (vb_storage s) (nat (vbLWM (vbbm s))) = Some i"
    using find_free_exists by metis
  from find_free_Some [OF i] have ii: "nat (vbLWM (vbbm s)) \<le> i" "i < length (vb_storage s)"
    "\<not> vb_used (vb_storage s ! i)" "\<And>j. nat (vbLWM (vbbm s)) \<le> j \<Longrightarrow> j < i \<Longrightarrow> vb_used (vb_storage s ! j)"
    by auto
  have below: "vb_used (vb_storage s ! j)" if "j < i" for j
    using ii(4) [of j] w(6) [of j] that by (cases "nat (vbLWM (vbbm s)) \<le> j") auto
  define b where "b = nat (vb_hash (vb_numHashBuckets (vbbm s)) (vb_lbid e) (vb_verID e))"
  note bk = vb_bucket_ok [OF wf, of "vb_lbid e" "vb_verID e", folded b_def]
  have used: "vb_used e" using e by (simp add: vb_used_def)
  let ?st = "(vb_storage s)[i := vb_set_next (vb_hashBuckets s ! b) e]"
  let ?s' = "s\<lparr>vbbm := (vbbm s)\<lparr>vbLWM := int i\<rparr>, vb_storage := ?st,
    vb_hashBuckets := (vb_hashBuckets s)[b := int i]\<rparr>"
  have bucket: "vb_bucket (vb_numHashBuckets (vbbm s)) e = int b"
    using bk(1) by (simp add: vb_bucket_def b_def)
  have "\<exists>ds. vb_insert_entry e loading s = Some (?s', ds)"
    using w(4) i bk by (simp add: vb_insert_entry_def Let_def vb_set_next_def b_def [symmetric])
  moreover have "vb_wf ?s'"
  proof (rule vb_wfI)
    show "vbCapacity (vbbm ?s') = int (length (vb_storage ?s'))" using w(1) by simp
    show "hash_wf vb_used vb_next vb_bucket (vb_numHashBuckets (vbbm ?s')) (vb_hashBuckets ?s') (vb_storage ?s')"
      using bt.insert_wf [OF w(2) ii(2,3) used bucket bk(2)] by simp
    show "keys_inj vb_used vb_key (vb_storage ?s')"
      using bt.insert_table(1) [OF w(3) ii(2,3) used] e(2) by (simp add: vb_abs_def)
    show "vb_used (vb_storage ?s' ! j)" if "j < nat (vbLWM (vbbm ?s'))" for j
      using that below [of j] ii(2) by (simp add: nth_upd_cases)
  qed (use ii w(7) in simp_all)
  moreover have "vb_abs ?s' = (vb_abs s)(vb_key e \<mapsto> vb_val e)"
    using bt.insert_table(2) [OF w(3) ii(2,3) used] e(2) by (simp add: vb_abs_def)
  moreover have live: "live_ix vb_used (vb_storage ?s') = insert i (live_ix vb_used (vb_storage s))"
    "i \<notin> live_ix vb_used (vb_storage s)"
    using ii used by (simp_all add: live_ix_upd_used) (simp add: live_ix_def)
  moreover have "vb_count ?s' = Suc (vb_count s)"
    unfolding vb_count_def live(1) using live(2) by simp
  moreover have "{..<i} \<subseteq> live_ix vb_used (vb_storage s)"
    using below ii(2) by (auto simp: live_ix_def)
  ultimately show ?thesis by (intro exI [of _ ?s']) auto
qed

section \<open>Growth\<close>

lemma vb_fresh_seg_ok:
  assumes "0 < n" "0 \<le> c"
  shows "vb_wf (vb_fresh_seg fs c n sz)" and "vb_abs (vb_fresh_seg fs c n sz) = Map.empty"
    and "live_ix vb_used (vb_storage (vb_fresh_seg fs c n sz)) = {}"
    and "length (vb_storage (vb_fresh_seg fs c n sz)) = nat c"
    and "files (vb_fresh_seg fs c n sz) = fs"
proof -
  have free: "e \<in> set (vb_storage (vb_fresh_seg fs c n sz)) \<Longrightarrow> \<not> vb_used e" for e
    by (auto simp: vb_fresh_seg_def vb_empty_entry_def vb_used_def)
  then show live: "live_ix vb_used (vb_storage (vb_fresh_seg fs c n sz)) = {}"
    by (auto simp: live_ix_def)
  show "vb_wf (vb_fresh_seg fs c n sz)"
  proof (rule vb_wfI)
    show "hash_wf vb_used vb_next vb_bucket (vb_numHashBuckets (vbbm (vb_fresh_seg fs c n sz)))
        (vb_hashBuckets (vb_fresh_seg fs c n sz)) (vb_storage (vb_fresh_seg fs c n sz))"
      using hash_wf_empty [OF assms(1), of "vb_storage (vb_fresh_seg fs c n sz)" vb_used] free
      by (simp add: vb_fresh_seg_def)
    show "keys_inj vb_used vb_key (vb_storage (vb_fresh_seg fs c n sz))"
      by (simp add: keys_inj_def live)
  qed (use assms in \<open>simp_all add: vb_fresh_seg_def\<close>)
  show "vb_abs (vb_fresh_seg fs c n sz) = Map.empty"
    by (rule ext) (simp add: vb_abs_def table_None live)
  show "length (vb_storage (vb_fresh_seg fs c n sz)) = nat c" "files (vb_fresh_seg fs c n sz) = fs"
    by (simp_all add: vb_fresh_seg_def)
qed

lemma vb_copy_entries_ok:
  assumes "vb_wf dest" "distinct (map vb_key (filter vb_used es))"
    and "\<And>e. e \<in> set es \<Longrightarrow> vb_used e \<Longrightarrow> vb_abs dest (vb_key e) = None"
    and "live_ix vb_used (vb_storage dest) = {..<n}"
    and "n + length (filter vb_used es) \<le> length (vb_storage dest)"
  shows "\<exists>s'. vb_copy_entries es dest = Some s' \<and> vb_wf s' \<and>
    vb_abs s' = vb_abs dest ++ table vb_used vb_key vb_val es \<and>
    live_ix vb_used (vb_storage s') = {..<n + length (filter vb_used es)} \<and>
    length (vb_storage s') = length (vb_storage dest) \<and> files s' = files dest \<and>
    (\<exists>w. vbbm s' = (vbbm dest)\<lparr>vbLWM := w\<rparr>)"
  using assms
proof (induction es arbitrary: dest n)
  case Nil
  then show ?case by (intro exI [of _ dest]) (auto simp: table_def intro: exI [of _ "vbLWM (vbbm dest)"])
next
  case (Cons e es)
  show ?case
  proof (cases "vb_used e")
    case False
    then show ?thesis
      using Cons.IH [OF Cons.prems(1)] Cons.prems by (simp add: table_Cons vb_used_def)
  next
    case True
    have lbid: "vb_lbid e \<noteq> -1" using True by (simp add: vb_used_def)
    have "vb_abs dest (vb_key e) = None" "vb_count dest < length (vb_storage dest)"
      using Cons.prems(3) [of e] Cons.prems(4,5) True by (auto simp: vb_count_def)
    from vb_insert_entry_ok [OF Cons.prems(1) lbid this, of True] obtain d ds i w where
      d: "vb_insert_entry e True dest = Some (d, ds)" "vb_wf d"
      "vb_abs d = (vb_abs dest)(vb_key e \<mapsto> vb_val e)"
      "length (vb_storage d) = length (vb_storage dest)" "files d = files dest" "vbbm d = (vbbm dest)\<lparr>vbLWM := w\<rparr>"
      "live_ix vb_used (vb_storage d) = insert i (live_ix vb_used (vb_storage dest))"
      "i \<notin> live_ix vb_used (vb_storage dest)" "{..<i} \<subseteq> live_ix vb_used (vb_storage dest)"
      by blast
    have "i = n" using d(8,9) unfolding Cons.prems(4) by (simp add: lessThan_subset_iff)
    then have live: "live_ix vb_used (vb_storage d) = {..<Suc n}"
      using d(7) Cons.prems(4) by (simp add: lessThan_Suc)
    have nin: "vb_key x \<noteq> vb_key e" if "x \<in> set es" "vb_used x" for x
      using Cons.prems(2) True that by (auto simp: image_iff)
    have pre: "distinct (map vb_key (filter vb_used es))"
      "\<And>x. x \<in> set es \<Longrightarrow> vb_used x \<Longrightarrow> vb_abs d (vb_key x) = None"
      "Suc n + length (filter vb_used es) \<le> length (vb_storage d)"
      using Cons.prems(2,3,5) d(3,4) True nin by auto
    from Cons.IH [OF d(2) pre(1,2) live pre(3)] obtain s' w' where
      s': "vb_copy_entries es d = Some s'" "vb_wf s'"
      "vb_abs s' = vb_abs d ++ table vb_used vb_key vb_val es"
      "live_ix vb_used (vb_storage s') = {..<Suc n + length (filter vb_used es)}"
      "length (vb_storage s') = length (vb_storage d)" "files s' = files d" "vbbm s' = (vbbm d)\<lparr>vbLWM := w'\<rparr>" by blast
    have "table vb_used vb_key vb_val es (vb_key e) = None"
      unfolding table_None using nin by (metis live_ix_less live_ix_used nth_mem)
    then have "vb_abs s' = vb_abs dest ++ table vb_used vb_key vb_val (e # es)"
      using True s'(3) d(3) by (auto simp: table_Cons map_add_def fun_eq_iff split: option.splits)
    then show ?thesis using True lbid d s' by auto
  qed
qed

lemma filter_take_live:
  "(\<And>k. k \<in> live_ix used xs \<Longrightarrow> k < n) \<Longrightarrow> filter used (take n xs) = filter used xs"
proof -
  assume *: "\<And>k. k \<in> live_ix used xs \<Longrightarrow> k < n"
  have "filter used (drop n xs) = []"
  proof (rule ccontr)
    assume "filter used (drop n xs) \<noteq> []"
    then obtain x where "x \<in> set (drop n xs)" "used x" by (auto simp: filter_empty_conv)
    then obtain j where "j < length (drop n xs)" "used (drop n xs ! j)" by (metis in_set_conv_nth)
    then have "n + j \<in> live_ix used xs" by (auto simp: live_ix_def less_diff_conv add.commute)
    from * [OF this] show False by simp
  qed
  then show ?thesis by (metis append_Nil2 append_take_drop_id filter_append)
qed

text \<open>
  The two ways to grow. \<open>copyVBBM\<close> only visits the first \<open>vbCurrentSize\<close> slots, so the new table
  holds the entries of those slots; with \<^const>\<open>vb_compact\<close> these are all of them.
\<close>

lemma growVBBM_copy:
  assumes inv: "vb_inv (vb_seg st)" and alloc: "allocdSize (vbbmShminfo st) \<noteq> 0"
    and six: "addAFile \<Longrightarrow> 6 \<le> length (vb_hashBuckets (vb_seg st))"
    and es_def: "es = take (nat (vbCurrentSize (vbbm (vb_seg st)))) (vb_storage (vb_seg st))"
  shows "\<exists>st' f. growVBBM addAFile st = ret st' \<and> vb_wf (vb_seg st') \<and>
    vb_abs (vb_seg st') = table vb_used vb_key vb_val es \<and>
    live_ix vb_used (vb_storage (vb_seg st')) = {..<length (filter vb_used es)} \<and>
    vbCapacity (vbbm (vb_seg st')) = vbCapacity (vbbm (vb_seg st)) + (if addAFile then 0 else VBSTORAGE_INCREMENT_COUNT) \<and>
    vbCurrentSize (vbbm (vb_seg st')) = vbCurrentSize (vbbm (vb_seg st)) \<and>
    files (vb_seg st') = files (vb_seg st) @ (if addAFile then [f] else []) \<and>
    allocdSize (vbbmShminfo st') = allocdSize (vbbmShminfo st) + (if addAFile then sizeof_VBFileMetadata else VBBM_INCREMENT) \<and>
    vb_numHashBuckets (vbbm (vb_seg st')) = vb_numHashBuckets (vbbm (vb_seg st)) + (if addAFile then 0 else VBTABLE_INCREMENT_COUNT) \<and>
    vb_undoRecords st' = [] \<and> currentFileSize st' = currentFileSize st \<and> vb_config st' = vb_config st"
proof -
  let ?s = "vb_seg st"
  let ?c = "vbCapacity (vbbm ?s) + (if addAFile then 0 else VBSTORAGE_INCREMENT_COUNT)"
  let ?n = "vb_numHashBuckets (vbbm ?s) + (if addAFile then 0 else VBTABLE_INCREMENT_COUNT)"
  have wf: "vb_wf ?s" and cnt: "vbCurrentSize (vbbm ?s) = int (vb_count ?s)" using inv by (simp_all add: vb_inv_def)
  note w = vb_wfD [OF wf]
  have "addAFile \<Longrightarrow> overlay_file (vb_hashBuckets ?s) \<noteq> None" using six by (simp add: overlay_file_def)
  then obtain f where f: "addAFile \<Longrightarrow> overlay_file (vb_hashBuckets ?s) = Some f" by blast
  let ?fs = "files ?s @ (if addAFile then [f] else [])"
  let ?d = "vb_fresh_seg ?fs ?c ?n (vbCurrentSize (vbbm ?s))"
  have n: "0 < ?n" "0 \<le> ?c"
    using hash_wf_pos [OF w(2)] w(1) by (simp_all add: VBTABLE_INCREMENT_COUNT_def VBSTORAGE_INCREMENT_COUNT_def)
  note fr = vb_fresh_seg_ok [OF n, of ?fs "vbCurrentSize (vbbm ?s)"]
  have cl: "vb_count ?s \<le> length (vb_storage ?s)" by (simp add: vb_count_def card_live_ix_le)
  have "length (filter vb_used es) \<le> length es" by (rule length_filter_le)
  then have room: "0 + length (filter vb_used es) \<le> length (vb_storage ?d)"
    unfolding fr(4) using cl w(1) by (auto simp: es_def VBSTORAGE_INCREMENT_COUNT_def nat_add_distrib)
  have empty: "live_ix vb_used (vb_storage ?d) = {..<0}" using fr(3) by simp
  have "distinct (map vb_key (filter vb_used (es @ drop (nat (vbCurrentSize (vbbm ?s))) (vb_storage ?s))))"
    unfolding es_def append_take_drop_id by (rule keys_inj_distinct [OF w(3)])
  then have dist: "distinct (map vb_key (filter vb_used es))" by simp
  obtain s' v where s': "vb_copy_entries es ?d = Some s'" "vb_wf s'"
    "vb_abs s' = vb_abs ?d ++ table vb_used vb_key vb_val es"
    "live_ix vb_used (vb_storage s') = {..<0 + length (filter vb_used es)}"
    "length (vb_storage s') = length (vb_storage ?d)" "files s' = files ?d" "vbbm s' = (vbbm ?d)\<lparr>vbLWM := v\<rparr>"
    using vb_copy_entries_ok [OF fr(1) dist _ empty room] fr(2) by auto
  have copy: "copyVBBM ?fs ?s ?c ?n = Some s'"
    using s'(1) cnt cl by (simp add: copyVBBM_def es_def)
  moreover have "vb_abs s' = table vb_used vb_key vb_val es" using s'(3) fr(2) by simp
  moreover have "files s' = ?fs" using s'(6) fr(5) by simp
  moreover have "growVBBM addAFile st = ret (st\<lparr>vb_seg := s', vb_undoRecords := [],
      vbbmShminfo := (vbbmShminfo st)\<lparr>tableShmkey := vb_chooseShmkey st,
        allocdSize := allocdSize (vbbmShminfo st) + (if addAFile then sizeof_VBFileMetadata else VBBM_INCREMENT)\<rparr>\<rparr>)"
    using alloc copy f by (cases addAFile) (simp_all add: growVBBM_def Let_def)
  ultimately show ?thesis using s'(2,4,7) by (simp add: vb_fresh_seg_def)
qed

lemma vb_compact_filter:
  assumes "vb_compact s"
  shows "filter vb_used (take (nat (vbCurrentSize (vbbm s))) (vb_storage s)) = filter vb_used (vb_storage s)"
proof (rule filter_take_live)
  fix k assume "k \<in> live_ix vb_used (vb_storage s)"
  with assms show "k < nat (vbCurrentSize (vbbm s))" by (auto simp: vb_compact_def live_ix_def)
qed

lemma growVBBM_ok:
  assumes inv: "vb_inv (vb_seg st)" and cmp: "vb_compact (vb_seg st)"
    and alloc: "allocdSize (vbbmShminfo st) \<noteq> 0"
    and six: "addAFile \<Longrightarrow> 6 \<le> length (vb_hashBuckets (vb_seg st))"
  shows "\<exists>st' f. growVBBM addAFile st = ret st' \<and> vb_inv (vb_seg st') \<and> vb_compact (vb_seg st') \<and>
    vb_abs (vb_seg st') = vb_abs (vb_seg st) \<and>
    vbCapacity (vbbm (vb_seg st')) = vbCapacity (vbbm (vb_seg st)) + (if addAFile then 0 else VBSTORAGE_INCREMENT_COUNT) \<and>
    vbCurrentSize (vbbm (vb_seg st')) = vbCurrentSize (vbbm (vb_seg st)) \<and>
    files (vb_seg st') = files (vb_seg st) @ (if addAFile then [f] else []) \<and>
    allocdSize (vbbmShminfo st') = allocdSize (vbbmShminfo st) + (if addAFile then sizeof_VBFileMetadata else VBBM_INCREMENT) \<and>
    vb_numHashBuckets (vbbm (vb_seg st')) = vb_numHashBuckets (vbbm (vb_seg st)) + (if addAFile then 0 else VBTABLE_INCREMENT_COUNT) \<and>
    vb_undoRecords st' = [] \<and> currentFileSize st' = currentFileSize st \<and> vb_config st' = vb_config st"
proof -
  note flt = vb_compact_filter [OF cmp]
  have len: "vbCurrentSize (vbbm (vb_seg st)) = int (length (filter vb_used (vb_storage (vb_seg st))))"
    using inv by (simp add: vb_inv_def vb_count_def card_live_ix)
  have "table vb_used vb_key vb_val (take (nat (vbCurrentSize (vbbm (vb_seg st)))) (vb_storage (vb_seg st))) = vb_abs (vb_seg st)"
    unfolding vb_abs_def table_def flt ..
  moreover have "vb_inv s' \<and> vb_compact s'"
    if "vb_wf s'" "live_ix vb_used (vb_storage s') = {..<length (filter vb_used (vb_storage (vb_seg st)))}"
       "vbCurrentSize (vbbm s') = vbCurrentSize (vbbm (vb_seg st))" for s'
    using that len by (auto simp: vb_inv_def vb_count_def [of s'] vb_compact_def live_ix_def set_eq_iff)
  moreover obtain st' f where g: "growVBBM addAFile st = ret st'" "vb_wf (vb_seg st')"
    "vb_abs (vb_seg st') = table vb_used vb_key vb_val (take (nat (vbCurrentSize (vbbm (vb_seg st)))) (vb_storage (vb_seg st)))"
    "live_ix vb_used (vb_storage (vb_seg st')) = {..<length (filter vb_used (vb_storage (vb_seg st)))}"
    "vbCapacity (vbbm (vb_seg st')) = vbCapacity (vbbm (vb_seg st)) + (if addAFile then 0 else VBSTORAGE_INCREMENT_COUNT)"
    "vbCurrentSize (vbbm (vb_seg st')) = vbCurrentSize (vbbm (vb_seg st))"
    and rest: "files (vb_seg st') = files (vb_seg st) @ (if addAFile then [f] else [])"
    "allocdSize (vbbmShminfo st') = allocdSize (vbbmShminfo st) + (if addAFile then sizeof_VBFileMetadata else VBBM_INCREMENT)"
    "vb_numHashBuckets (vbbm (vb_seg st')) = vb_numHashBuckets (vbbm (vb_seg st)) + (if addAFile then 0 else VBTABLE_INCREMENT_COUNT)"
    "vb_undoRecords st' = []" "currentFileSize st' = currentFileSize st" "vb_config st' = vb_config st"
    using growVBBM_copy [OF inv alloc six refl] unfolding flt by metis
  ultimately have "vb_inv (vb_seg st') \<and> vb_compact (vb_seg st')" "vb_abs (vb_seg st') = vb_abs (vb_seg st)" by simp_all
  with g(1,5,6) rest show ?thesis by blast
qed

section \<open>insert\<close>

lemma fold_vb_makeUndoRecord [simp]:
  "vb_seg (fold vb_makeUndoRecord ds st) = vb_seg st"
  "vbbmShminfo (fold vb_makeUndoRecord ds st) = vbbmShminfo st"
  "vb_seg (vb_makeUndoRecord d st) = vb_seg st" "vbbmShminfo (vb_makeUndoRecord d st) = vbbmShminfo st"
  by (induction ds arbitrary: st) (auto simp: vb_makeUndoRecord_def)

lemma vb_insert_room:
  assumes inv: "vb_inv (vb_seg st)" and l: "l \<noteq> -1" "vb_abs (vb_seg st) (l, v) = None"
    and room: "vb_count (vb_seg st) < length (vb_storage (vb_seg st))"
  shows "\<exists>st'. vb_insert l v oid fbo loading st = ret st' \<and> vb_inv (vb_seg st') \<and>
    vb_abs (vb_seg st') = (vb_abs (vb_seg st))((l, v) \<mapsto> (oid, fbo)) \<and> vbbmShminfo st' = vbbmShminfo st \<and>
    vb_count (vb_seg st') = Suc (vb_count (vb_seg st)) \<and>
    length (vb_storage (vb_seg st')) = length (vb_storage (vb_seg st)) \<and> files (vb_seg st') = files (vb_seg st)"
proof -
  let ?e = "\<lparr>vb_lbid = l, vb_verID = v, vbOID = oid, vbFBO = fbo, vb_next = -1\<rparr>"
  have wf: "vb_wf (vb_seg st)" using inv by (simp add: vb_inv_def)
  obtain s ds w where s: "vb_insert_entry ?e loading (vb_seg st) = Some (s, ds)" "vb_wf s"
    "vb_abs s = (vb_abs (vb_seg st))((l, v) \<mapsto> (oid, fbo))" "vb_count s = Suc (vb_count (vb_seg st))"
    "length (vb_storage s) = length (vb_storage (vb_seg st))" "files s = files (vb_seg st)"
    "vbbm s = (vbbm (vb_seg st))\<lparr>vbLWM := w\<rparr>"
    using vb_insert_entry_ok [OF wf, of ?e loading] l room by (auto simp: vb_entry_defs)
  have neq: "vbCurrentSize (vbbm (vb_seg st)) \<noteq> vbCapacity (vbbm (vb_seg st))"
    using inv room vb_wfD(1) [OF wf] by (simp add: vb_inv_def)
  show ?thesis
    using s neq inv by (simp add: vb_insert_def Let_def vb_inv_def vb_wf_header)
qed

lemma vb_insert_ok:
  assumes inv: "vb_inv (vb_seg st)" and l: "l \<noteq> -1" "vb_abs (vb_seg st) (l, v) = None"
    and alloc: "allocdSize (vbbmShminfo st) \<noteq> 0"
  shows "\<exists>st'. vb_insert l v oid fbo loading st = ret st' \<and> vb_inv (vb_seg st') \<and>
    vb_abs (vb_seg st') = (vb_abs (vb_seg st))((l, v) \<mapsto> (oid, fbo)) \<and> files (vb_seg st') = files (vb_seg st)"
proof (cases "vbCurrentSize (vbbm (vb_seg st)) = vbCapacity (vbbm (vb_seg st))")
  case True
  have "vb_compact (vb_seg st)"
    using True inv by (auto simp: vb_compact_def vb_inv_def dest: vb_wfD(1))
  from growVBBM_ok [OF inv this alloc, of False] obtain st1 where
    st1: "growVBBM False st = ret st1" "vb_inv (vb_seg st1)" "vb_abs (vb_seg st1) = vb_abs (vb_seg st)"
    "vbCapacity (vbbm (vb_seg st1)) = vbCapacity (vbbm (vb_seg st)) + VBSTORAGE_INCREMENT_COUNT"
    "vbCurrentSize (vbbm (vb_seg st1)) = vbCurrentSize (vbbm (vb_seg st))" "files (vb_seg st1) = files (vb_seg st)" by auto
  have c: "vb_count (vb_seg st1) < length (vb_storage (vb_seg st1))"
    "vbCurrentSize (vbbm (vb_seg st1)) \<noteq> vbCapacity (vbbm (vb_seg st1))"
    using st1 True vb_wfD(1) [of "vb_seg st1"]
    by (auto simp: vb_inv_def VBSTORAGE_INCREMENT_COUNT_def)
  have "vb_insert l v oid fbo loading st = vb_insert l v oid fbo loading st1"
    using True c(2) st1(1) by (simp add: vb_insert_def)
  then show ?thesis using vb_insert_room [OF st1(2) l(1) _ c(1), of v oid fbo loading] l(2) st1(3,6) by auto
next
  case False
  then have "vb_count (vb_seg st) < length (vb_storage (vb_seg st))"
    using inv vb_wfD(1) [of "vb_seg st"] card_live_ix_le [of vb_used "vb_storage (vb_seg st)"]
    by (auto simp: vb_inv_def vb_count_def)
  from vb_insert_room [OF inv l this] show ?thesis by blast
qed

section \<open>Lookup\<close>

lemma vb_getIndex_ok:
  assumes wf: "vb_wf s" and b_def: "b = nat (vb_hash (vb_numHashBuckets (vbbm s)) l v)"
  obtains (None) prev where "vb_abs s (l, v) = None" "vb_getIndex l v s = Some (-1, prev, int b)"
  | (Some) pre i post where "chain vb_next (vb_storage s) (vb_hashBuckets s ! b) (pre @ i # post)"
      "vb_getIndex l v s = Some (int i, prev_of pre, int b)" "vb_key (vb_storage s ! i) = (l, v)"
      "vb_abs s (l, v) = Some (vb_val (vb_storage s ! i))" "i \<in> live_ix vb_used (vb_storage s)"
proof -
  note w = vb_wfD [OF wf] and bk = vb_bucket_ok [OF wf, of l v, folded b_def]
  have hb: "vb_hash (vb_numHashBuckets (vbbm s)) l v = int b" using bk(1) by (simp add: b_def)
  from w(2) bk(2) obtain ks where ks: "chain vb_next (vb_storage s) (vb_hashBuckets s ! b) ks"
    "set ks = {k \<in> live_ix vb_used (vb_storage s). vb_bucket (vb_numHashBuckets (vbbm s)) (vb_storage s ! k) = int b}"
    by (rule hash_wf_chain)
  let ?P = "\<lambda>k. vb_lbid (vb_storage s ! k) = l \<and> vb_verID (vb_storage s ! k) = v"
  have get: "vb_getIndex l v s =
      (case fold_exit (\<lambda>prev k. if ?P k then Inl (int k, prev, int b) else Inr (int k)) ks (-1) of
         Inl r \<Rightarrow> Some r | Inr prev \<Rightarrow> Some (-1, prev, int b))"
    using bk(3) ks(1)
    by (cases "vb_hashBuckets s ! b = -1") (simp_all add: vb_getIndex_def hb Let_def scan_chain_eq [OF ks(1)])
  show thesis
  proof (cases "\<exists>k \<in> set ks. ?P k")
    case False
    then have "fold_exit (\<lambda>prev k. if ?P k then Inl (int k, prev, int b) else Inr (int k)) ks (prev_of []) = Inr (prev_of ks)"
      using fold_exit_prev [of ks ?P "\<lambda>k prev. (int k, prev, int b)" "[]"] by simp
    with get have "vb_getIndex l v s = Some (-1, prev_of ks, int b)" by simp
    moreover have "vb_abs s (l, v) = None"
      unfolding vb_abs_def table_None using False ks(2) hb by (auto simp: vb_key_def vb_bucket_def)
    ultimately show thesis using None by blast
  next
    case True
    then obtain pre i post where split: "ks = pre @ i # post" "?P i" "\<And>k. k \<in> set pre \<Longrightarrow> \<not> ?P k"
      using split_list_first_prop [of ks ?P] by blast
    have "fold_exit (\<lambda>prev k. if ?P k then Inl (int k, prev, int b) else Inr (int k)) pre (prev_of []) = Inr (prev_of pre)"
      using fold_exit_prev [of pre ?P "\<lambda>k prev. (int k, prev, int b)" "[]"] split(3) by simp
    with split get have g: "vb_getIndex l v s = Some (int i, prev_of pre, int b)"
      by (simp add: fold_exit_append)
    have live: "i \<in> live_ix vb_used (vb_storage s)" using split(1) ks(2) by auto
    have key: "vb_key (vb_storage s ! i) = (l, v)" using split(2) by (simp add: vb_key_def)
    have "vb_abs s (l, v) = Some (vb_val (vb_storage s ! i))"
      using table_live [OF w(3) live, of vb_val] key by (simp add: vb_abs_def)
    with Some [OF _ g key _ live] ks(1) split(1) show thesis by simp
  qed
qed

lemma vb_lookup_ok:
  assumes wf: "vb_wf s" and pos: "0 \<le> l" "0 \<le> v"
  shows "vb_lookup l v s = ret (vb_abs s (l, v))"
  using wf refl
proof (cases rule: vb_getIndex_ok [where l = l and v = v])
  case (None prev)
  with pos show ?thesis by (simp add: vb_lookup_def)
next
  case (Some pre i post)
  have "i < length (vb_storage s)" using Some(5) by (rule live_ix_less)
  with Some(2,4) pos show ?thesis by (simp add: vb_lookup_def vb_val_def)
qed

end
