(* ===== verification/VBBM_Write.thy ===== *)
theory VBBM_Write
  imports VBBM_Props
begin

text \<open>
  Removal from the version buffer block map, the undo of its changes, and the image that
  \<open>save\<close> writes and \<open>load\<close> reads back.
\<close>

section \<open>The undo log\<close>

definition vb_undone :: "VBBM \<Rightarrow> VBShmseg" where
  "vb_undone st = foldr vb_apply_delta (map snd (vb_undoRecords st)) (vb_seg st)"

definition vb_log_ok :: "VBBM \<Rightarrow> bool" where
  "vb_log_ok st \<longleftrightarrow> (\<forall>r \<in> set (vb_undoRecords st). fst r = tableShmkey (vbbmShminfo st))"

definition vb_undo_ext :: "VBBM \<Rightarrow> VBBM \<Rightarrow> bool" where
  "vb_undo_ext st st' \<longleftrightarrow> vbbmShminfo st' = vbbmShminfo st \<and> (vb_log_ok st \<longrightarrow> vb_log_ok st') \<and>
     vb_undone st' = vb_undone st"

lemma vb_undo_ext_refl [simp]: "vb_undo_ext st st"
  by (simp add: vb_undo_ext_def)

lemma vb_undo_ext_trans: "vb_undo_ext st st' \<Longrightarrow> vb_undo_ext st' st'' \<Longrightarrow> vb_undo_ext st st''"
  by (simp add: vb_undo_ext_def)

lemma vb_undoChanges_log: "vb_log_ok st \<Longrightarrow>
    vb_undoChanges st = Some (st\<lparr>vb_seg := vb_undone st, vb_undoRecords := []\<rparr>)"
  by (simp add: vb_undoChanges_def vb_log_ok_def vb_undone_def)

lemma vb_undo_ext_save:
  "vb_apply_delta d s' = vb_seg st \<Longrightarrow> vb_undo_ext st ((vb_makeUndoRecord d st)\<lparr>vb_seg := s'\<rparr>)"
  by (auto simp: vb_undo_ext_def vb_makeUndoRecord_def vb_log_ok_def vb_undone_def)

lemma vb_undo_fold:
  "vb_undoRecords (fold vb_makeUndoRecord ds st) =
     vb_undoRecords st @ map (Pair (tableShmkey (vbbmShminfo st))) ds"
  by (induction ds arbitrary: st) (simp_all add: vb_makeUndoRecord_def)

lemma vb_insert_entry_undo:
  assumes "vb_insert_entry e False s = Some (s', ds)"
  shows "foldr vb_apply_delta (ds @ [bd_currentSize n]) (s'\<lparr>vbbm := h\<rparr>) = s"
proof -
  from assms obtain i b where
    s': "s' = s\<lparr>vbbm := (vbbm s)\<lparr>vbLWM := int i\<rparr>, vb_storage := (vb_storage s)[i := e\<lparr>vb_next := vb_hashBuckets s ! b\<rparr>],
       vb_hashBuckets := (vb_hashBuckets s)[b := int i]\<rparr>"
    and ds: "ds = [bd_header (vbbm s), bd_entry i (vb_storage s ! i), bd_bucket b (vb_hashBuckets s ! b)]"
    by (auto simp: vb_insert_entry_def Let_def arr_get_def bind_eq_Some_conv split: if_splits)
  show ?thesis unfolding s' ds by (cases s) simp
qed

lemma vb_insert_undo:
  assumes ins: "vb_insert l v oid fbo False st = ret st'"
    and room: "vbCurrentSize (vbbm (vb_seg st)) \<noteq> vbCapacity (vbbm (vb_seg st))"
  shows "vb_undo_ext st st'"
proof -
  let ?e = "\<lparr>vb_lbid = l, vb_verID = v, vbOID = oid, vbFBO = fbo, vb_next = -1\<rparr>"
  from ins room obtain s ds where s: "vb_insert_entry ?e False (vb_seg st) = Some (s, ds)"
    by (cases "vb_insert_entry ?e False (vb_seg st)") (auto simp: vb_insert_def Let_def)
  define h where "h = (vbbm s)\<lparr>vbCurrentSize := vbCurrentSize (vbbm s) + 1\<rparr>"
  let ?st3 = "vb_makeUndoRecord (bd_currentSize (vbCurrentSize (vbbm s))) (fold vb_makeUndoRecord ds (st\<lparr>vb_seg := s\<rparr>))"
  have st': "st' = ?st3\<lparr>vb_seg := s\<lparr>vbbm := h\<rparr>\<rparr>"
    using ins room s by (simp add: vb_insert_def Let_def h_def)
  have rec: "vb_undoRecords st' = vb_undoRecords st @
      map (Pair (tableShmkey (vbbmShminfo st))) (ds @ [bd_currentSize (vbCurrentSize (vbbm s))])"
    unfolding st' by (simp add: vb_makeUndoRecord_def vb_undo_fold)
  have "vb_undone st' = vb_undone st"
    unfolding vb_undone_def rec
    using vb_insert_entry_undo [OF s, of "vbCurrentSize (vbbm s)" h] by (simp add: st' comp_def)
  moreover have "vbbmShminfo st' = vbbmShminfo st" by (simp add: st')
  ultimately show ?thesis
    by (auto simp: vb_undo_ext_def vb_log_ok_def rec)
qed

section \<open>removeEntry\<close>

definition vb_unlinked :: "nat list \<Rightarrow> nat \<Rightarrow> nat \<Rightarrow> VBShmseg \<Rightarrow> VBShmseg" where
  "vb_unlinked pre i b s =
     s\<lparr>vb_storage := unlink_st vb_next vb_set_next vb_retire (prev_of pre) i (vb_storage s),
       vb_hashBuckets := unlink_bs vb_next vb_retire (prev_of pre) i b (vb_storage s) (vb_hashBuckets s)\<rparr>"

lemma vb_unlink_ok:
  assumes b: "b < length (vb_hashBuckets (vb_seg st))"
    and ch: "chain vb_next (vb_storage (vb_seg st)) (vb_hashBuckets (vb_seg st) ! b) (pre @ i # post)"
  shows "\<exists>st'. vb_unlink (prev_of pre) (int i) (int b) st = Some st' \<and>
    vb_seg st' = vb_unlinked pre i b (vb_seg st) \<and> vb_undo_ext st st'"
proof -
  have i: "i < length (vb_storage (vb_seg st))" "i \<notin> set pre"
    using chain_less [OF ch, of i] chain_distinct [OF ch] by auto
  let ?e = "vb_storage (vb_seg st) ! i"
  let ?st2 = "(vb_makeUndoRecord (bd_entry i ?e) st)\<lparr>vb_seg :=
    (vb_seg st)\<lparr>vb_storage := (vb_storage (vb_seg st))[i := ?e\<lparr>vb_lbid := -1\<rparr>]\<rparr>\<rparr>"
  have ext: "vb_undo_ext st ?st2" by (rule vb_undo_ext_save) simp
  show ?thesis
  proof (cases pre rule: rev_cases)
    case Nil
    let ?st3 = "(vb_makeUndoRecord (bd_bucket b (vb_hashBuckets (vb_seg st) ! b)) ?st2)\<lparr>vb_seg :=
      (vb_seg ?st2)\<lparr>vb_hashBuckets := (vb_hashBuckets (vb_seg st))[b := vb_next ?e]\<rparr>\<rparr>"
    have "vb_undo_ext ?st2 ?st3" by (rule vb_undo_ext_save) simp
    moreover have "vb_unlink (prev_of pre) (int i) (int b) st = Some ?st3"
      using Nil i b by (simp add: vb_unlink_def Let_def)
    moreover have "vb_seg ?st3 = vb_unlinked pre i b (vb_seg st)"
      using Nil by (simp add: vb_unlinked_def unlink_st_def unlink_bs_def Let_def vb_retire_def)
    ultimately show ?thesis using vb_undo_ext_trans [OF ext] by blast
  next
    case (snoc ps p)
    have p: "p < length (vb_storage (vb_seg st))" using chain_less [OF ch, of p] snoc by simp
    have "p \<noteq> i" using i snoc by auto
    let ?st3 = "(vb_makeUndoRecord (bd_entry p (vb_storage (vb_seg st) ! p)) ?st2)\<lparr>vb_seg :=
      (vb_seg ?st2)\<lparr>vb_storage := (vb_storage (vb_seg ?st2))[p := (vb_storage (vb_seg st) ! p)\<lparr>vb_next := vb_next ?e\<rparr>]\<rparr>\<rparr>"
    have "vb_undo_ext ?st2 ?st3"
      using \<open>p \<noteq> i\<close> p by (intro vb_undo_ext_save) (simp add: list_update_swap)
    moreover have "vb_unlink (prev_of pre) (int i) (int b) st = Some ?st3"
      using snoc i p \<open>p \<noteq> i\<close> by (simp add: vb_unlink_def Let_def)
    moreover have "vb_seg ?st3 = vb_unlinked pre i b (vb_seg st)"
      using snoc i \<open>p \<noteq> i\<close>
      by (simp add: vb_unlinked_def unlink_st_def unlink_bs_def Let_def vb_retire_def vb_set_next_def)
    ultimately show ?thesis using vb_undo_ext_trans [OF ext] by blast
  qed
qed

lemma vb_unlinked_ok:
  assumes inv: "vb_inv s" and b: "b < length (vb_hashBuckets s)"
    and ch: "chain vb_next (vb_storage s) (vb_hashBuckets s ! b) (pre @ i # post)"
    and live: "i \<in> live_ix vb_used (vb_storage s)"
    and h: "vbCapacity h = vbCapacity (vbbm s)" "vb_numHashBuckets h = vb_numHashBuckets (vbbm s)"
      "vbCurrentSize h = vbCurrentSize (vbbm s) - 1" "vbLWM h = min (vbLWM (vbbm s)) (int i)" "nFiles h = nFiles (vbbm s)"
  shows "vb_inv ((vb_unlinked pre i b s)\<lparr>vbbm := h\<rparr>)" (is "vb_inv ?s")
    and "vb_abs ((vb_unlinked pre i b s)\<lparr>vbbm := h\<rparr>) = (vb_abs s)(vb_key (vb_storage s ! i) := None)"
proof -
  have wf: "vb_wf s" using inv by (simp add: vb_inv_def)
  note w = vb_wfD [OF wf]
  have i: "i < length (vb_storage s)" "i \<notin> set pre"
    using chain_less [OF ch, of i] chain_distinct [OF ch] by auto
  have live': "live_ix vb_used (vb_storage ?s) = live_ix vb_used (vb_storage s) - {i}"
    using bt.unlink_live [OF i] by (simp add: vb_unlinked_def)
  have "vb_wf ?s"
  proof (rule vb_wfI)
    show "hash_wf vb_used vb_next vb_bucket (vb_numHashBuckets (vbbm ?s)) (vb_hashBuckets ?s) (vb_storage ?s)"
      using bt.unlink_wf [OF w(2) b ch] h by (simp add: vb_unlinked_def)
    show "keys_inj vb_used vb_key (vb_storage ?s)"
      using bt.unlink_table(1) [OF w(3) live i(2)] by (simp add: vb_unlinked_def)
    fix k assume "k < nat (vbLWM (vbbm ?s))"
    then have k: "k < nat (vbLWM (vbbm s))" "k \<noteq> i" "k < length (vb_storage s)" using h w(5) by auto
    then show "vb_used (vb_storage ?s ! k)"
      using w(6) [of k] bt.unlink_nth(2) [of k "vb_storage s" i "prev_of pre"] by (simp add: vb_unlinked_def)
  qed (use h w in \<open>simp_all add: vb_unlinked_def\<close>)
  moreover have "vb_count ?s = vb_count s - 1"
    using live unfolding vb_count_def live' by simp
  moreover have "0 < vb_count s" using live by (auto simp: vb_count_def card_gt_0_iff)
  ultimately show "vb_inv ?s" using h(3) inv by (simp add: vb_inv_def of_nat_diff)
  show "vb_abs ?s = (vb_abs s)(vb_key (vb_storage s ! i) := None)"
    using bt.unlink_table(2) [OF w(3) live i(2)] by (simp add: vb_unlinked_def vb_abs_def)
qed

text \<open>No slot gains an entry: the slots still in use hold what they held.\<close>

definition vb_shrinks :: "VBShmseg \<Rightarrow> VBShmseg \<Rightarrow> bool" where
  "vb_shrinks s s' \<longleftrightarrow> length (vb_storage s') = length (vb_storage s) \<and>
     (\<forall>j < length (vb_storage s). vb_used (vb_storage s' ! j) \<longrightarrow> vb_used (vb_storage s ! j) \<and>
        vb_key (vb_storage s' ! j) = vb_key (vb_storage s ! j) \<and> vb_val (vb_storage s' ! j) = vb_val (vb_storage s ! j))"

lemma vb_shrinks_refl [simp]: "vb_shrinks s s"
  by (simp add: vb_shrinks_def)

lemma vb_shrinks_trans: "vb_shrinks s s' \<Longrightarrow> vb_shrinks s' s'' \<Longrightarrow> vb_shrinks s s''"
  by (auto simp: vb_shrinks_def)

lemma vb_shrinks_unlinked:
  assumes "i < length (vb_storage s)" "i \<notin> set pre"
  shows "vb_shrinks s ((vb_unlinked pre i b s)\<lparr>vbbm := h\<rparr>)"
proof -
  have "vb_used (vb_storage s ! j) \<and> vb_key (unlink_st vb_next vb_set_next vb_retire (prev_of pre) i (vb_storage s) ! j) = vb_key (vb_storage s ! j)
      \<and> vb_val (unlink_st vb_next vb_set_next vb_retire (prev_of pre) i (vb_storage s) ! j) = vb_val (vb_storage s ! j)"
    if "j < length (vb_storage s)" "vb_used (unlink_st vb_next vb_set_next vb_retire (prev_of pre) i (vb_storage s) ! j)" for j
    using that bt.unlink_nth(1,2,3) [of j "vb_storage s" i "prev_of pre"] bt.unlink_nth_self [OF assms]
    by (cases "j = i") (auto simp: vb_used_def vb_retire_def)
  then show ?thesis by (simp add: vb_shrinks_def vb_unlinked_def)
qed

lemma vb_removeEntry_ok:
  assumes inv: "vb_inv (vb_seg st)"
  shows "\<exists>st'. vb_removeEntry l v st = Some st' \<and> vb_inv (vb_seg st') \<and>
    vb_abs (vb_seg st') = (vb_abs (vb_seg st))((l, v) := None) \<and> vb_undo_ext st st' \<and>
    files (vb_seg st') = files (vb_seg st) \<and> vbCapacity (vbbm (vb_seg st')) = vbCapacity (vbbm (vb_seg st)) \<and>
    vbCurrentSize (vbbm (vb_seg st')) \<le> vbCurrentSize (vbbm (vb_seg st)) \<and> vb_shrinks (vb_seg st) (vb_seg st')"
proof -
  have wf: "vb_wf (vb_seg st)" using inv by (simp add: vb_inv_def)
  define b where "b = nat (vb_hash (vb_numHashBuckets (vbbm (vb_seg st))) l v)"
  note bk = vb_bucket_ok [OF wf, of l v, folded b_def]
  from wf b_def show ?thesis
  proof (cases rule: vb_getIndex_ok [where v = v])
    case (None prev)
    then show ?thesis using inv by (simp add: vb_removeEntry_def fun_upd_idem)
  next
    case (Some pre i post)
    from vb_unlink_ok [OF bk(2) Some(1)] obtain st1 where st1:
      "vb_unlink (prev_of pre) (int i) (int b) st = Some st1"
      "vb_seg st1 = vb_unlinked pre i b (vb_seg st)" "vb_undo_ext st st1" by blast
    have seg1: "vbbm (vb_seg st1) = vbbm (vb_seg st)" using st1(2) by (simp add: vb_unlinked_def)
    define h where "h = (let h = (vbbm (vb_seg st))\<lparr>vbCurrentSize := vbCurrentSize (vbbm (vb_seg st)) - 1\<rparr>
      in if vbLWM h > int i then h\<lparr>vbLWM := int i\<rparr> else h)"
    let ?st2 = "(vb_makeUndoRecord (bd_header (vbbm (vb_seg st1))) st1)\<lparr>vb_seg := (vb_seg st1)\<lparr>vbbm := h\<rparr>\<rparr>"
    have "vb_removeEntry l v st = Some ?st2"
      using Some(2) st1(1) seg1 by (simp add: vb_removeEntry_def Let_def h_def)
    moreover have "vb_undo_ext st1 ?st2" by (rule vb_undo_ext_save) simp
    moreover have "vbCapacity h = vbCapacity (vbbm (vb_seg st))" "vb_numHashBuckets h = vb_numHashBuckets (vbbm (vb_seg st))"
      "vbCurrentSize h = vbCurrentSize (vbbm (vb_seg st)) - 1" "vbLWM h = min (vbLWM (vbbm (vb_seg st))) (int i)"
      "nFiles h = nFiles (vbbm (vb_seg st))" by (simp_all add: h_def Let_def)
    moreover note vb_unlinked_ok [OF inv bk(2) Some(1,5) this]
    moreover have "files (vb_seg st1) = files (vb_seg st)" using st1(2) by (simp add: vb_unlinked_def)
    moreover have "vb_shrinks (vb_seg st) (vb_seg ?st2)"
      using vb_shrinks_unlinked [of i "vb_seg st" pre h b] chain_less [OF Some(1), of i] chain_distinct [OF Some(1)]
      by (auto simp: st1(2))
    ultimately show ?thesis using Some(3) st1(2) vb_undo_ext_trans [OF st1(3)] by (intro exI [of _ ?st2]) simp
  qed
qed

end
