(* ===== verification/VSS_VBBM.thy ===== *)
theory VSS_VBBM
  imports VBBM_Write
begin

text \<open>
  The operations of the version substitution structure that work on the version buffer
  block map as well: \<open>removeEntriesFromDB\<close> and \<open>checkConsistency\<close> (\<open>vss.cpp\<close>), and the block
  map's own \<open>checkConsistency\<close> (\<open>vbbm.cpp\<close>).
\<close>

section \<open>removeEntriesFromDB\<close>

definition vss_drop_body ::
  "LBID_t \<Rightarrow> bool \<Rightarrow> int \<Rightarrow> int \<Rightarrow> int \<times> VSS \<times> VBBM \<Rightarrow> (unit + int \<times> VSS \<times> VBBM) option"
where
  "vss_drop_body l use_vbbm bucket index = (\<lambda>(prev, st, vb).
     Option.bind (arr_get (storage (seg st)) index) (\<lambda>e.
       if lbid e = l
       then Option.bind (if vbFlag e \<and> use_vbbm then vb_removeEntry (lbid e) (verID e) vb else Some vb) (\<lambda>vb1.
            Option.bind (vss_unlink prev index bucket st) (\<lambda>st1.
            Option.bind (vss_uncount index st1) (\<lambda>st2. Some (Inr (prev, st2, vb1)))))
       else Some (Inr (index, st, vb))))"

definition vss_drop_block :: "LBID_t \<Rightarrow> bool \<Rightarrow> VSS \<times> VBBM \<Rightarrow> (VSS \<times> VBBM) option" where
  "vss_drop_block l use_vbbm = (\<lambda>(st, vb).
     let bucket = vss_hash (numHashBuckets (vss (seg st))) l
     in Option.bind (arr_get (hashBuckets (seg st)) bucket) (\<lambda>head.
        Option.bind (for_chain (\<lambda>(_, st, _) i. map_option next' (arr_get (storage (seg st)) i))
                       (vss_drop_body l use_vbbm bucket) head (-1, st, vb)) (\<lambda>out.
          case out of Inl _ \<Rightarrow> None | Inr (_, st', vb') \<Rightarrow> Some (st', vb'))))"

fun vss_drop_blocks :: "nat \<Rightarrow> LBID_t \<Rightarrow> bool \<Rightarrow> VSS \<times> VBBM \<Rightarrow> (VSS \<times> VBBM) option" where
  "vss_drop_blocks 0 l use_vbbm s = Some s"
| "vss_drop_blocks (Suc n) l use_vbbm s = Option.bind (vss_drop_block l use_vbbm s) (vss_drop_blocks n (l + 1) use_vbbm)"

definition vss_removeEntriesFromDB :: "LBIDRange \<Rightarrow> bool \<Rightarrow> VSS \<Rightarrow> VBBM \<Rightarrow> (VSS \<times> VBBM) option" where
  "vss_removeEntriesFromDB rng use_vbbm st vb =
     vss_drop_blocks (nat (range_size rng)) (range_start rng) use_vbbm
       (vss_makeUndoRecord (vd_header (vss (seg st))) st, vb)"

section \<open>checkConsistency\<close>

text \<open>Walks along one bucket: no empty element, no two elements with the same key.\<close>

definition chain_no_empty :: "('e \<Rightarrow> int) \<Rightarrow> ('e \<Rightarrow> bool) \<Rightarrow> 'e list \<Rightarrow> int \<Rightarrow> unit cpp" where
  "chain_no_empty nxt used st head =
     bind_cpp (defined (scan_chain nxt st (\<lambda>_ _ e. if \<not> used e then Inl () else Inr ()) head ()))
       (\<lambda>out. case out of Inl _ \<Rightarrow> throw logic_error | Inr _ \<Rightarrow> ret ())"

definition chain_no_dup :: "('e \<Rightarrow> int) \<Rightarrow> ('e \<Rightarrow> 'k) \<Rightarrow> 'e list \<Rightarrow> int \<Rightarrow> unit cpp" where
  "chain_no_dup nxt key st head =
     bind_cpp (defined (for_chain (\<lambda>_ j. map_option nxt (arr_get st j))
         (\<lambda>j _. Option.bind (arr_get st j) (\<lambda>e.
            scan_chain nxt st (\<lambda>_ _ e'. if key e = key e' then Inl () else Inr ()) (nxt e) ())) head ()))
       (\<lambda>out. case out of Inl _ \<Rightarrow> throw logic_error | Inr _ \<Rightarrow> ret ())"

definition slots_used_below :: "('e \<Rightarrow> bool) \<Rightarrow> 'e list \<Rightarrow> int \<Rightarrow> unit cpp" where
  "slots_used_below used st n =
     for_each (\<lambda>i. bind_cpp (defined (arr_get st (int i))) (\<lambda>e. if \<not> used e then throw logic_error else ret ()))
       [0..<nat n]"

definition vss_checkConsistency :: "VBShmseg \<Rightarrow> VSSShmseg \<Rightarrow> int cpp" where
  "vss_checkConsistency vb s =
     bind_cpp (defined (vss_slots s)) (\<lambda>es.
     bind_cpp (for_each (\<lambda>e. if lbid e \<noteq> -1 \<and> vbFlag e
         then bind_cpp (vb_lookup (lbid e) (verID e) vb) (\<lambda>r. if r = None then throw logic_error else ret ())
         else ret ()) es) (\<lambda>_.
     bind_cpp (vss_size s) (\<lambda>_.
     bind_cpp (for_each (\<lambda>i. bind_cpp (defined (arr_get (hashBuckets s) (int i))) (\<lambda>head.
         if head \<noteq> -1 then chain_no_empty next' entry_used (storage s) head else ret ()))
         [0..<nat (numHashBuckets (vss s))]) (\<lambda>_.
     bind_cpp (slots_used_below entry_used (storage s) (LWM (vss s))) (\<lambda>_.
     bind_cpp (for_each (\<lambda>i. bind_cpp (defined (arr_get (hashBuckets s) (int i))) (\<lambda>head.
         if head \<noteq> -1 then chain_no_dup next' (\<lambda>e. (lbid e, verID e)) (storage s) head else ret ()))
         [0..<nat (numHashBuckets (vss s))]) (\<lambda>_. ret 0))))))"

text \<open>Test 4a of the block map: no two entries share a place in the version buffer.\<close>

fun vb_places_distinct :: "VBBMEntry list \<Rightarrow> unit cpp" where
  "vb_places_distinct [] = ret ()"
| "vb_places_distinct (e # es) =
     bind_cpp (if vb_lbid e \<noteq> -1
               then for_each (\<lambda>e'. if vb_lbid e' \<noteq> -1 \<and> vbOID e' = vbOID e \<and> vbFBO e' = vbFBO e
                                   then throw logic_error else ret ()) es
               else ret ()) (\<lambda>_. vb_places_distinct es)"

text \<open>
  Test 1 calls \<open>size()\<close> for its check of the recorded size; outside debug builds \<open>size()\<close>
  only answers that size, so the test checks nothing.
\<close>

definition vb_checkConsistency :: "VBShmseg \<Rightarrow> int cpp" where
  "vb_checkConsistency s =
     (let _ = vb_size s in
     bind_cpp (for_each (\<lambda>i. bind_cpp (defined (arr_get (vb_hashBuckets s) (int i))) (\<lambda>head.
         if head \<noteq> -1 then chain_no_empty vb_next vb_used (vb_storage s) head else ret ()))
         [0..<nat (vb_numHashBuckets (vbbm s))]) (\<lambda>_.
     bind_cpp (slots_used_below vb_used (vb_storage s) (vbLWM (vbbm s))) (\<lambda>_.
     bind_cpp (for_each (\<lambda>i. bind_cpp (defined (arr_get (vb_hashBuckets s) (int i))) (\<lambda>head.
         if head \<noteq> -1 then chain_no_dup vb_next (\<lambda>e. (vb_lbid e, vb_verID e)) (vb_storage s) head else ret ()))
         [0..<nat (vb_numHashBuckets (vbbm s))]) (\<lambda>_.
     bind_cpp (if vbCapacity (vbbm s) \<le> int (length (vb_storage s))
               then vb_places_distinct (take (nat (vbCapacity (vbbm s))) (vb_storage s)) else None) (\<lambda>_. ret 0)))))"

section \<open>Removing a range of blocks\<close>

definition drop_inv :: "LBID_t \<Rightarrow> nat \<Rightarrow> VSS \<Rightarrow> VBBM \<Rightarrow> int \<times> VSS \<times> VBBM \<Rightarrow> nat list \<Rightarrow> bool" where
  "drop_inv l b st0 vb0 = (\<lambda>(prev, st, vb) ks. purge_inv l b st0 (prev, st) ks \<and> vb_inv (vb_seg vb) \<and> vb_undo_ext vb0 vb \<and>
     vss_abs (seg st) \<subseteq>\<^sub>m vss_abs (seg st0) \<and>
     (\<forall>k. vb_abs (vb_seg vb) k = (if (\<exists>lk. vss_abs (seg st0) k = Some (True, lk)) \<and> vss_abs (seg st) k = None
        then None else vb_abs (vb_seg vb0) k)))"

lemma vss_drop_body_eq:
  assumes "k < length (storage (seg st))"
  shows "vss_drop_body l True bucket (int k) (prev, st, vb) =
    (let e = storage (seg st) ! k in
     if lbid e = l
     then Option.bind (if vbFlag e then vb_removeEntry (lbid e) (verID e) vb else Some vb) (\<lambda>vb1.
          Option.bind (vss_purge_body l bucket (int k) (prev, st)) (\<lambda>out.
            case out of Inl u \<Rightarrow> Some (Inl u) | Inr (prev', st') \<Rightarrow> Some (Inr (prev', st', vb1))))
     else Some (Inr (int k, st, vb)))"
  using assms by (simp add: vss_drop_body_def vss_purge_body_def Let_def Option.bind_assoc cong: if_cong)

lemma drop_step:
  assumes inv: "drop_inv l b st0 vb0 (prev, st, vb) (k # ks)"
  shows "\<exists>s'. vss_drop_body l True (int b) (int k) (prev, st, vb) = Some (Inr s') \<and>
    map_option next' (arr_get (storage (seg (fst (snd s')))) (int k)) = Some (head_of ks) \<and> drop_inv l b st0 vb0 s' ks"
proof -
  from inv have p: "purge_inv l b st0 (prev, st) (k # ks)" and v: "vb_inv (vb_seg vb)" "vb_undo_ext vb0 vb"
    and le: "vss_abs (seg st) \<subseteq>\<^sub>m vss_abs (seg st0)"
    and vb: "\<And>j. vb_abs (vb_seg vb) j = (if (\<exists>lk. vss_abs (seg st0) j = Some (True, lk)) \<and> vss_abs (seg st) j = None
        then None else vb_abs (vb_seg vb0) j)" by (auto simp: drop_inv_def)
  let ?e = "storage (seg st) ! k"
  from purge_step [OF p] obtain prev' st' where
    s': "vss_purge_body l (int b) (int k) (prev, st) = Some (Inr (prev', st'))"
    "map_option next' (arr_get (storage (seg st')) (int k)) = Some (head_of ks)" "purge_inv l b st0 (prev', st') ks"
    and k: "k < length (storage (seg st))" "vss_abs (seg st) (vss_key ?e) = Some (vss_val ?e)"
    and abs: "if lbid ?e = l then vss_abs (seg st') = (vss_abs (seg st))(vss_key ?e := None) else st' = st"
    by (auto split del: if_split) (metis snd_conv)
  show ?thesis
  proof (cases "lbid ?e = l")
    case False
    then have "vss_purge_body l (int b) (int k) (prev, st) = Some (Inr (int k, st))"
      using k by (simp add: vss_purge_body_def)
    with s'(1) have "prev' = int k" "st' = st" by auto
    with s' False k v le vb show ?thesis
      by (intro exI [of _ "(int k, st, vb)"]) (auto simp: vss_drop_body_eq drop_inv_def)
  next
    case True
    have abs': "vss_abs (seg st') = (vss_abs (seg st))(vss_key ?e := None)" using abs True by simp
    have st0: "vss_abs (seg st0) (vss_key ?e) = Some (vss_val ?e)"
      using le k(2) by (force simp: map_le_def)
    have le': "vss_abs (seg st') \<subseteq>\<^sub>m vss_abs (seg st0)" using le unfolding abs' by (auto simp: map_le_def)
    have "\<exists>vb1. (if vbFlag ?e then vb_removeEntry (lbid ?e) (verID ?e) vb else Some vb) = Some vb1 \<and>
        vb_inv (vb_seg vb1) \<and> vb_undo_ext vb0 vb1 \<and>
        vb_abs (vb_seg vb1) = (if vbFlag ?e then (vb_abs (vb_seg vb))(vss_key ?e := None) else vb_abs (vb_seg vb))"
      using vb_removeEntry_ok [OF v(1), of "lbid ?e" "verID ?e"] v vb_undo_ext_trans
      by (cases "vbFlag ?e") (auto simp: vss_key_def)
    then obtain vb1 where vb1: "(if vbFlag ?e then vb_removeEntry (lbid ?e) (verID ?e) vb else Some vb) = Some vb1"
      "vb_inv (vb_seg vb1)" "vb_undo_ext vb0 vb1"
      "vb_abs (vb_seg vb1) = (if vbFlag ?e then (vb_abs (vb_seg vb))(vss_key ?e := None) else vb_abs (vb_seg vb))" by blast
    have "drop_inv l b st0 vb0 (prev', st', vb1) ks"
      using s'(3) vb1(2-4) le' st0 vb k(2) by (auto simp: drop_inv_def abs' vss_val_def)
    moreover have "vss_drop_body l True (int b) (int k) (prev, st, vb) = Some (Inr (prev', st', vb1))"
      using vss_drop_body_eq [OF k(1)] True vb1(1) s'(1) by (simp add: Let_def)
    ultimately show ?thesis using s'(2) by (intro exI [of _ "(prev', st', vb1)"]) simp
  qed
qed

definition dropped :: "LBID_t set \<Rightarrow> VSSShmseg \<Rightarrow> VBShmseg \<Rightarrow> VSSShmseg \<Rightarrow> VBShmseg \<Rightarrow> bool" where
  "dropped ls s vb s' vb' \<longleftrightarrow>
     vss_abs s' = (\<lambda>k. if fst k \<in> ls then None else vss_abs s k) \<and>
     vb_abs vb' = (\<lambda>k. if fst k \<in> ls \<and> (\<exists>lk. vss_abs s k = Some (True, lk)) then None else vb_abs vb k)"

lemma dropped_trans:
  "dropped ls s vb s1 vb1 \<Longrightarrow> dropped ls' s1 vb1 s2 vb2 \<Longrightarrow> dropped (ls \<union> ls') s vb s2 vb2"
  by (auto simp: dropped_def fun_eq_iff)

lemma vss_drop_block_ok:
  assumes "vss_inv (seg st)" "header_logged st" "vb_inv (vb_seg vb)"
  shows "\<exists>st' vb'. vss_drop_block l True (st, vb) = Some (st', vb') \<and> vss_inv (seg st') \<and> header_logged st' \<and>
    vb_inv (vb_seg vb') \<and> undo_ext st st' \<and> vb_undo_ext vb vb' \<and> dropped {l} (seg st) (vb_seg vb) (seg st') (vb_seg vb')"
proof -
  from purge_start [OF assms(1,2), of l] obtain b ks where b: "vss_hash (numHashBuckets (vss (seg st))) l = int b"
    "b < length (hashBuckets (seg st))" "hashBuckets (seg st) ! b = head_of ks" "purge_inv l b st (-1, st) ks" .
  have start: "drop_inv l b st vb (-1, st, vb) ks" using b(4) assms by (auto simp: drop_inv_def)
  obtain s' where s': "for_chain (\<lambda>(_, st, _) i. map_option next' (arr_get (storage (seg st)) i))
      (vss_drop_body l True (int b)) (head_of ks) (-1, st, vb) = Some (Inr s')" "drop_inv l b st vb s' []"
    using for_chain_rule [where Inv = "drop_inv l b st vb" and body = "vss_drop_body l True (int b)"
        and nxt = "\<lambda>(_, st, _) i. map_option next' (arr_get (storage (seg st)) i)", OF _ start] drop_step
    by (fastforce simp: split_beta)
  obtain prev st' vb' where eq: "s' = (prev, st', vb')" by (cases s')
  from s'(2) have d: "purge_inv l b st (prev, st') []" "vb_inv (vb_seg vb')" "vb_undo_ext vb vb'"
    "\<And>k. vb_abs (vb_seg vb') k = (if (\<exists>lk. vss_abs (seg st) k = Some (True, lk)) \<and> vss_abs (seg st') k = None
        then None else vb_abs (vb_seg vb) k)" by (auto simp: drop_inv_def eq)
  from purge_done [OF d(1)] have "dropped {l} (seg st) (vb_seg vb) (seg st') (vb_seg vb')"
    by (auto simp: dropped_def fun_eq_iff d(4) split: if_splits)
  with purge_done [OF d(1)] d(2,3) s'(1) b show ?thesis by (simp add: vss_drop_block_def Let_def eq)
qed

lemma vss_drop_blocks_ok:
  assumes "vss_inv (seg st)" "header_logged st" "vb_inv (vb_seg vb)"
  shows "\<exists>st' vb'. vss_drop_blocks n l True (st, vb) = Some (st', vb') \<and> vss_inv (seg st') \<and>
    vb_inv (vb_seg vb') \<and> undo_ext st st' \<and> vb_undo_ext vb vb' \<and>
    dropped {l..<l + int n} (seg st) (vb_seg vb) (seg st') (vb_seg vb')"
  using assms
proof (induction n arbitrary: l st vb)
  case 0
  then show ?case by (simp add: dropped_def fun_eq_iff)
next
  case (Suc n)
  from vss_drop_block_ok [OF Suc.prems, of l] obtain st1 vb1 where
    1: "vss_drop_block l True (st, vb) = Some (st1, vb1)" "vss_inv (seg st1)" "header_logged st1" "vb_inv (vb_seg vb1)"
      "undo_ext st st1" "vb_undo_ext vb vb1" "dropped {l} (seg st) (vb_seg vb) (seg st1) (vb_seg vb1)" by blast
  from Suc.IH [OF 1(2-4), of "l + 1"] obtain st2 vb2 where
    2: "vss_drop_blocks n (l + 1) True (st1, vb1) = Some (st2, vb2)" "vss_inv (seg st2)" "vb_inv (vb_seg vb2)"
      "undo_ext st1 st2" "vb_undo_ext vb1 vb2" "dropped {l + 1..<l + 1 + int n} (seg st1) (vb_seg vb1) (seg st2) (vb_seg vb2)"
    by blast
  have "{l} \<union> {l + 1..<l + 1 + int n} = {l..<l + int (Suc n)}" by auto
  with dropped_trans [OF 1(7) 2(6)] have "dropped {l..<l + int (Suc n)} (seg st) (vb_seg vb) (seg st2) (vb_seg vb2)"
    by simp
  with 1 2 undo_ext_trans [OF 1(5) 2(4)] vb_undo_ext_trans [OF 1(6) 2(5)] show ?case by simp
qed

lemma vss_removeEntriesFromDB_ok:
  assumes "vss_inv (seg st)" "vb_inv (vb_seg vb)"
  shows "\<exists>st' vb'. vss_removeEntriesFromDB rng True st vb = Some (st', vb') \<and> vss_inv (seg st') \<and>
    vb_inv (vb_seg vb') \<and> undo_ext st st' \<and> vb_undo_ext vb vb' \<and>
    dropped {range_start rng..<range_start rng + range_size rng} (seg st) (vb_seg vb) (seg st') (vb_seg vb')"
proof -
  let ?st = "vss_makeUndoRecord (vd_header (vss (seg st))) st"
  have "seg ?st = seg st" by (simp add: vss_makeUndoRecord_def)
  moreover have "header_logged ?st" by (auto simp: header_logged_def vss_makeUndoRecord_def)
  moreover have "{range_start rng..<range_start rng + int (nat (range_size rng))} =
      {range_start rng..<range_start rng + range_size rng}" by auto
  ultimately show ?thesis
    using vss_drop_blocks_ok [of ?st vb "nat (range_size rng)" "range_start rng"] assms
      undo_ext_trans [OF undo_ext_save_header [of st]]
    unfolding vss_removeEntriesFromDB_def by force
qed

section \<open>What the consistency checks decide\<close>

lemma chain_no_empty_ok:
  assumes "chain nxt st head ks" "\<And>k. k \<in> set ks \<Longrightarrow> used (st ! k)"
  shows "chain_no_empty nxt used st head = ret ()"
proof -
  have "fold_exit (\<lambda>a k. if \<not> used (st ! k) then Inl () else Inr ()) ks () = Inr ()"
    using assms(2) by (induction ks) auto
  then show ?thesis by (simp add: chain_no_empty_def scan_chain_eq [OF assms(1)] del: not_not)
qed

lemma chain_no_dup_ok:
  assumes ch: "chain nxt st head ks" and inj: "inj_on (\<lambda>k. key (st ! k)) (set ks)"
  shows "chain_no_dup nxt key st head = ret ()"
proof -
  let ?body = "\<lambda>j _. Option.bind (arr_get st j) (\<lambda>e.
            scan_chain nxt st (\<lambda>_ _ e'. if key e = key e' then Inl () else Inr ()) (nxt e) ())"
  let ?Inv = "\<lambda>_ js. \<exists>i. chain nxt st i js \<and> inj_on (\<lambda>k. key (st ! k)) (set js)"
  have step: "\<exists>u. ?body (int k) s = Some (Inr u) \<and> map_option nxt (arr_get st (int k)) = Some (head_of js) \<and> ?Inv u js"
    if "?Inv s (k # js)" for s k js
  proof -
    from that have k: "k < length st" "chain nxt st (nxt (st ! k)) js" "inj_on (\<lambda>k. key (st ! k)) (set (k # js))"
      by auto
    have "k \<notin> set js" using chain_head_notin_tail [OF k(2)] .
    with k(3) have "j \<in> set js \<Longrightarrow> key (st ! k) \<noteq> key (st ! j)" for j by (auto dest: inj_onD)
    then have "fold_exit (\<lambda>a j. if key (st ! k) = key (st ! j) then Inl () else Inr ()) js () = Inr ()"
      by (induction js) auto
    with k scan_chain_eq [OF k(2), where f = "\<lambda>_ _ e'. if key (st ! k) = key e' then Inl () else Inr ()"] chain_head [OF k(2)]
    show ?thesis by (auto intro: inj_on_subset)
  qed
  have "\<exists>s'. for_chain (\<lambda>_ j. map_option nxt (arr_get st j)) ?body (head_of ks) () = Some (Inr s') \<and> ?Inv s' []"
    by (rule for_chain_rule [where Inv = ?Inv and body = ?body and nxt = "\<lambda>_ j. map_option nxt (arr_get st j)"])
      (rule step, assumption, use assms in blast)
  with chain_head [OF ch] show ?thesis by (auto simp: chain_no_dup_def)
qed

lemma hash_wf_checks:
  assumes wf: "hash_wf used nxt bucket n bs st" and inj: "keys_inj used key st"
  shows "for_each (\<lambda>i. bind_cpp (defined (arr_get bs (int i))) (\<lambda>head.
      if head \<noteq> -1 then chain_no_empty nxt used st head else ret ())) [0..<nat n] = ret ()" (is ?empty)
    and "for_each (\<lambda>i. bind_cpp (defined (arr_get bs (int i))) (\<lambda>head.
      if head \<noteq> -1 then chain_no_dup nxt key st head else ret ())) [0..<nat n] = ret ()" (is ?dup)
proof -
  have len: "nat n = length bs" using hash_wf_len [OF wf] by simp
  have "chain_no_empty nxt used st (bs ! i) = ret () \<and> chain_no_dup nxt key st (bs ! i) = ret ()" if i: "i < length bs" for i
  proof -
    from wf i obtain ks where ks: "chain nxt st (bs ! i) ks"
      "set ks = {k \<in> live_ix used st. bucket n (st ! k) = int i}" by (rule hash_wf_chain)
    then have live: "set ks \<subseteq> live_ix used st" by auto
    then have "inj_on (\<lambda>k. key (st ! k)) (set ks)" using inj unfolding keys_inj_def by (rule inj_on_subset [rotated])
    moreover have "used (st ! k)" if "k \<in> set ks" for k using that live by (auto simp: live_ix_def)
    ultimately show ?thesis using chain_no_empty_ok chain_no_dup_ok ks(1) by metis
  qed
  then show ?empty ?dup unfolding len by (auto intro!: for_each_ok)
qed

lemma slots_used_below_ok:
  assumes "n \<le> int (length st)" "\<And>k. k < nat n \<Longrightarrow> used (st ! k)"
  shows "slots_used_below used st n = ret ()"
  unfolding slots_used_below_def using assms by (intro for_each_ok) auto

text \<open>
  On a well-formed table the check passes exactly when the recorded size is the number of
  used slots and every entry whose block is in the version buffer is in the block map.
\<close>

lemma vss_checkConsistency_iff:
  assumes wf: "vss_wf s" and vb: "vb_wf vb"
    and pos: "\<And>l v x. vss_abs s (l, v) = Some x \<Longrightarrow> 0 \<le> l \<and> 0 \<le> v"
  shows "vss_checkConsistency vb s = ret 0 \<longleftrightarrow>
    currentSize (vss s) = int (vss_count s) \<and> {k. \<exists>lk. vss_abs s k = Some (True, lk)} \<subseteq> dom (vb_abs vb)"
proof -
  note d = vss_wfD [OF wf]
  let ?t = "\<lambda>e. if lbid e \<noteq> -1 \<and> vbFlag e
         then bind_cpp (vb_lookup (lbid e) (verID e) vb) (\<lambda>r. if r = None then throw logic_error else ret ())
         else ret ()"
  have slots: "vss_slots s = Some (storage s)" using d(1) by (simp add: vss_slots_def)
  have abs: "vss_abs s (lbid e, verID e) = Some (vbFlag e, locked e)" if "e \<in> set (storage s)" "lbid e \<noteq> -1" for e
  proof -
    from that(1) obtain k where "k < length (storage s)" "e = storage s ! k" by (auto simp: in_set_conv_nth)
    with that table_live [OF d(3), of k vss_val] show ?thesis by (simp add: vss_abs_def live_ix_def vss_entry_defs)
  qed
  have ex: "\<exists>e \<in> set (storage s). lbid e = l \<and> lbid e \<noteq> -1 \<and> verID e = v \<and> vbFlag e = f \<and> locked e = lk"
    if "vss_abs s (l, v) = Some (f, lk)" for l v f lk
    using that unfolding vss_abs_def table_Some [OF d(3)] by (auto simp: vss_entry_defs live_ix_def)
  have t: "?t e = ret () \<longleftrightarrow> (vbFlag e \<longrightarrow> (lbid e, verID e) \<in> dom (vb_abs vb))" if "e \<in> set (storage s)" "lbid e \<noteq> -1" for e
    using that pos [OF abs [OF that]] by (auto simp: vb_lookup_ok [OF vb])
  have "for_each ?t (storage s) = ret () \<longleftrightarrow> {k. \<exists>lk. vss_abs s k = Some (True, lk)} \<subseteq> dom (vb_abs vb)"
    (is "?l \<longleftrightarrow> ?r")
  proof
    assume ?l
    then have all: "\<forall>e \<in> set (storage s). ?t e = ret ()" by (simp only: for_each_ret)
    show ?r
    proof
      fix k assume "k \<in> {k. \<exists>lk. vss_abs s k = Some (True, lk)}"
      then obtain lk where "vss_abs s (fst k, snd k) = Some (True, lk)" by auto
      from ex [OF this] obtain e where e: "e \<in> set (storage s)" "lbid e \<noteq> -1" "k = (lbid e, verID e)" "vbFlag e" by auto
      from e(4) t [OF e(1,2)] bspec [OF all e(1)] show "k \<in> dom (vb_abs vb)" unfolding e(3) by blast
    qed
  next
    assume r: ?r
    have "?t e = ret ()" if e: "e \<in> set (storage s)" for e
    proof (cases "lbid e = -1")
      case False
      have "(lbid e, verID e) \<in> dom (vb_abs vb)" if "vbFlag e"
        using abs [OF e False] that by (intro subsetD [OF r]) simp
      with t [OF e False] show ?thesis by blast
    qed simp
    then show ?l unfolding for_each_ret by blast
  qed
  moreover have "vss_size s = (if currentSize (vss s) = int (vss_count s) then ret (int (vss_count s)) else throw logic_error)"
    by (auto simp: vss_size_def slots vss_count_def card_live_ix)
  moreover have inj: "keys_inj entry_used (\<lambda>e. (lbid e, verID e)) (storage s)" using d(3) by (simp add: keys_inj_def vss_key_def)
  ultimately show ?thesis
    using slots_used_below_ok [of _ _ entry_used, OF d(5) d(6)]
    unfolding vss_checkConsistency_def slots defined_simps bind_cpp_ret hash_wf_checks [OF d(2) inj]
    by (simp add: bind_cpp_eq_ret)
qed

lemma map_of_inj_iff:
  "distinct (map fst xs) \<Longrightarrow> inj_on (map_of xs) (dom (map_of xs)) \<longleftrightarrow> distinct (map snd xs)"
proof (induction xs)
  case (Cons x xs)
  obtain k v where x: "x = (k, v)" by (cases x)
  from Cons.prems have k: "k \<notin> dom (map_of xs)" and d: "distinct (map fst xs)" by (auto simp: x dom_map_of_conv_image_fst)
  have "inj_on (map_of (x # xs)) (dom (map_of xs)) \<longleftrightarrow> inj_on (map_of xs) (dom (map_of xs))"
    using k by (intro inj_on_cong) (auto simp: x)
  moreover have "Some v \<in> map_of (x # xs) ` dom (map_of xs) \<longleftrightarrow> v \<in> ran (map_of xs)"
    using k by (force simp: x ran_def dom_def image_iff)
  moreover have "dom (map_of (x # xs)) = insert k (dom (map_of xs))" "map_of (x # xs) k = Some v" by (simp_all add: x)
  ultimately have "inj_on (map_of (x # xs)) (dom (map_of (x # xs))) \<longleftrightarrow>
      inj_on (map_of xs) (dom (map_of xs)) \<and> v \<notin> ran (map_of xs)"
    using k by (simp only: inj_on_insert) simp
  moreover have "distinct (map snd (x # xs)) \<longleftrightarrow> v \<notin> ran (map_of xs) \<and> distinct (map snd xs)"
    by (simp add: x ran_distinct [OF d])
  ultimately show ?case using Cons.IH [OF d] by blast
qed simp

lemma table_inj_iff:
  assumes "keys_inj used key st"
  shows "inj_on (table used key val st) (dom (table used key val st)) \<longleftrightarrow> distinct (map val (filter used st))"
  using map_of_inj_iff [of "map (\<lambda>e. (key e, val e)) (filter used st)"] keys_inj_distinct [OF assms]
  by (simp add: table_def comp_def)

lemma vb_places_distinct_iff:
  "vb_places_distinct es = ret () \<longleftrightarrow> distinct (map vb_val (filter vb_used es))"
proof (induction es)
  case (Cons e es)
  have "vb_val e \<in> vb_val ` set (filter vb_used es) \<longleftrightarrow>
      (\<exists>e' \<in> set es. vb_lbid e' \<noteq> -1 \<and> vbOID e' = vbOID e \<and> vbFBO e' = vbFBO e)"
    unfolding image_iff by (auto simp: vb_used_def vb_val_def)
  with Cons.IH show ?case by (auto simp: bind_cpp_eq_ret for_each_ret vb_used_def)
qed simp

lemma vb_checkConsistency_iff:
  assumes wf: "vb_wf s"
  shows "vb_checkConsistency s = ret 0 \<longleftrightarrow> inj_on (vb_abs s) (dom (vb_abs s))"
proof -
  note d = vb_wfD [OF wf]
  have inj: "keys_inj vb_used (\<lambda>e. (vb_lbid e, vb_verID e)) (vb_storage s)" using d(3) by (simp add: keys_inj_def vb_key_def)
  have "distinct (map vb_val (filter vb_used (vb_storage s))) \<longleftrightarrow> inj_on (vb_abs s) (dom (vb_abs s))"
    unfolding vb_abs_def by (rule table_inj_iff [OF d(3), symmetric])
  then show ?thesis
    using hash_wf_checks [OF d(2) inj] slots_used_below_ok [where used = vb_used, OF d(5,6)] d(1)
    by (simp add: vb_checkConsistency_def Let_def bind_cpp_eq_ret vb_places_distinct_iff)
qed

end
