(* ===== verification/VBBM_Blocks.thy ===== *)
theory VBBM_Blocks
  imports VBBM_Write
begin

text \<open>
  Allocation of version buffer space (\<open>VBBM::getBlocks\<close>): the ranges it hands out lie in the
  file, add up to the request, are disjoint, and no entry of the block map points into them.
\<close>

section \<open>Gathering ranges\<close>

text \<open>The number of blocks of a file and the block its next range starts at.\<close>

definition vb_blocks :: "VBFileMetadata \<Rightarrow> int" where
  "vb_blocks f = fileSize f div BLOCK_SIZE"

definition vb_pos :: "VBFileMetadata \<Rightarrow> int" where
  "vb_pos f = nextOffset f div BLOCK_SIZE"

text \<open>A file's position is the start of one of its blocks; its block count fits an \<open>int\<close>.\<close>

definition file_ok :: "VBFileMetadata \<Rightarrow> bool" where
  "file_ok f \<longleftrightarrow> nextOffset f = vb_pos f * BLOCK_SIZE \<and> 0 \<le> vb_pos f \<and> vb_pos f < vb_blocks f \<and>
     0 \<le> fileSize f \<and> vb_blocks f < 2 ^ 31"

lemma gather_range_ok:
  assumes f: "file_ok f" and k: "0 < k" "k < 2 ^ 31" and sz_def: "sz = min k (vb_blocks f - vb_pos f)"
  shows "gather_range f k = (\<lparr>vbr_OID = OID f, vbr_FBO = vb_pos f, vbr_size = sz\<rparr>,
    f\<lparr>nextOffset := if vb_pos f + sz = vb_blocks f then 0 else (vb_pos f + sz) * BLOCK_SIZE\<rparr>)"
proof -
  define n where "n = vb_blocks f"
  define p where "p = vb_pos f"
  have off: "nextOffset f = p * 8192" and p: "0 \<le> p" "p < n" and n: "n < 2147483648"
    using f by (auto simp: file_ok_def p_def n_def BLOCK_SIZE_def)
  have div: "n = fileSize f div 8192" by (simp add: n_def vb_blocks_def BLOCK_SIZE_def)
  have fs: "n * 8192 \<le> fileSize f" "fileSize f < n * 8192 + 8192"
    using div_mult_mod_eq [of "fileSize f" 8192] pos_mod_bound [of 8192 "fileSize f"] pos_mod_sign [of 8192 "fileSize f"]
    unfolding div by linarith+
  have "u64_of (fileSize f - nextOffset f) = fileSize f - p * 8192"
  proof -
    have "0 \<le> fileSize f - p * 8192" using fs(1) p by linarith
    moreover have "fileSize f - p * 8192 < 18446744073709551616" using fs(2) p(1) n by simp
    ultimately show ?thesis unfolding off by (rule u64_id)
  qed
  moreover have "(fileSize f - p * 8192) div 8192 = n - p"
    using div_mult_self1 [of 8192 "fileSize f" "- p"] unfolding div by simp
  ultimately have left: "s32_of (u64_of (fileSize f - nextOffset f) div BLOCK_SIZE) = n - p"
    using p n by (simp add: BLOCK_SIZE_def s32_id)
  have sz: "0 < sz" "sz \<le> n - p" "sz = n - p \<longleftrightarrow> p + sz = n" using k p by (auto simp: sz_def n_def p_def)
  have u: "u32_of (if n - p \<ge> k then k else n - p) = sz"
  proof -
    have "(if n - p \<ge> k then k else n - p) = sz" by (auto simp: sz_def n_def p_def min_def)
    then show ?thesis using sz p n by (simp add: u32_id)
  qed
  have "u32_of (n - p) = n - p" "u32_of p = p" using p n by (simp_all add: u32_id)
  moreover have "u64_of (nextOffset f + sz * BLOCK_SIZE) = (p + sz) * BLOCK_SIZE"
  proof -
    have "u64_of (p * 8192 + sz * 8192) = p * 8192 + sz * 8192"
      by (rule u64_id) (use sz(1,2) p n in simp_all)
    then show ?thesis by (simp add: off BLOCK_SIZE_def algebra_simps)
  qed
  moreover have "nextOffset f div BLOCK_SIZE = p" by (simp add: p_def vb_pos_def)
  ultimately show ?thesis
    unfolding gather_range_def left u Let_def p_def [symmetric] n_def [symmetric] using sz(3) by simp
qed

text \<open>The ranges a request of \<open>k\<close> blocks gets, and where it leaves the file.\<close>

definition gathered :: "VBFileMetadata \<Rightarrow> int \<Rightarrow> VBRange list" where
  "gathered f k =
     (let left = vb_blocks f - vb_pos f
      in if k \<le> left then [\<lparr>vbr_OID = OID f, vbr_FBO = vb_pos f, vbr_size = k\<rparr>]
         else [\<lparr>vbr_OID = OID f, vbr_FBO = vb_pos f, vbr_size = left\<rparr>,
               \<lparr>vbr_OID = OID f, vbr_FBO = 0, vbr_size = k - left\<rparr>])"

definition next_pos :: "VBFileMetadata \<Rightarrow> int \<Rightarrow> int" where
  "next_pos f k = (vb_pos f + k) mod vb_blocks f"

definition set_file :: "nat \<Rightarrow> VBFileMetadata \<Rightarrow> VBShmseg \<Rightarrow> VBShmseg" where
  "set_file fi f s = s\<lparr>files := (files s)[fi := f]\<rparr>"

lemma vb_gather_step:
  assumes "g < num" "fi < length (files (vb_seg st))" "gather_range (files (vb_seg st) ! fi) (num - g) = (r, f')"
  shows "\<exists>st'. vb_gather fi num g rs st = vb_gather fi num (s32_of (g + vbr_size r)) (rs @ [r]) st' \<and>
    vb_seg st' = set_file fi f' (vb_seg st) \<and> vb_undo_ext st st'"
proof -
  let ?f = "files (vb_seg st) ! fi"
  let ?st = "(vb_makeUndoRecord (bd_file fi ?f) st)\<lparr>vb_seg := set_file fi f' (vb_seg st)\<rparr>"
  have "vb_undo_ext st ?st" by (rule vb_undo_ext_save) (simp add: set_file_def)
  moreover have "vb_gather fi num g rs st = vb_gather fi num (s32_of (g + vbr_size r)) (rs @ [r]) ?st"
    using assms by (subst vb_gather.simps) (simp add: set_file_def)
  ultimately show ?thesis by (intro exI [of _ ?st]) simp
qed

lemma vb_gather_ok:
  assumes fi: "fi < length (files (vb_seg st))" and f_def: "f = files (vb_seg st) ! fi"
    and f: "file_ok f" and k: "0 < k" "k \<le> vb_blocks f"
  shows "\<exists>st'. vb_gather fi k 0 [] st = Some (gathered f k, st') \<and> vb_undo_ext st st' \<and>
    vb_seg st' = set_file fi (f\<lparr>nextOffset := next_pos f k * BLOCK_SIZE\<rparr>) (vb_seg st)"
proof -
  define n where "n = vb_blocks f"
  define p where "p = vb_pos f"
  have p: "0 \<le> p" "p < n" "n < 2 ^ 31" using f by (auto simp: file_ok_def p_def n_def)
  have stop: "vb_gather fi k k rs s = Some (rs, s)" for rs s by (subst vb_gather.simps) simp
  have g1: "gather_range f k = (\<lparr>vbr_OID = OID f, vbr_FBO = p, vbr_size = min k (n - p)\<rparr>,
      f\<lparr>nextOffset := if p + min k (n - p) = n then 0 else (p + min k (n - p)) * BLOCK_SIZE\<rparr>)"
    using gather_range_ok [OF f k(1) _ refl] k p by (simp add: n_def p_def)
  let ?f1 = "f\<lparr>nextOffset := if p + min k (n - p) = n then 0 else (p + min k (n - p)) * BLOCK_SIZE\<rparr>"
  let ?r1 = "\<lparr>vbr_OID = OID f, vbr_FBO = p, vbr_size = min k (n - p)\<rparr>"
  have "gather_range (files (vb_seg st) ! fi) (k - 0) = (?r1, ?f1)" using g1 by (simp add: f_def)
  from vb_gather_step [OF k(1) fi this, of "[]"] obtain st1 where
    st1: "vb_gather fi k 0 [] st = vb_gather fi k (s32_of (min k (n - p))) [?r1] st1"
    "vb_seg st1 = set_file fi ?f1 (vb_seg st)" "vb_undo_ext st st1" by auto
  have s1: "s32_of (min k (n - p)) = min k (n - p)" using k p by (intro s32_id) (auto simp: n_def)
  show ?thesis
  proof (cases "k \<le> n - p")
    case True
    have "next_pos f k = (if p + k = n then 0 else p + k)"
      using True k p by (simp add: next_pos_def n_def [symmetric] p_def [symmetric])
    then show ?thesis using True st1 s1 stop
      by (auto simp: gathered_def n_def [symmetric] p_def [symmetric] Let_def min_def)
  next
    case False
    have f1: "?f1 = f\<lparr>nextOffset := 0\<rparr>" using False by simp
    have fi1: "fi < length (files (vb_seg st1))" "files (vb_seg st1) ! fi = f\<lparr>nextOffset := 0\<rparr>"
      using fi st1(2) f1 by (simp_all add: set_file_def)
    have n0: "vb_blocks (f\<lparr>nextOffset := 0\<rparr>) = n" "vb_pos (f\<lparr>nextOffset := 0\<rparr>) = 0"
      by (simp_all add: vb_blocks_def vb_pos_def n_def)
    have ok0: "file_ok (f\<lparr>nextOffset := 0\<rparr>)"
      using f p n0 by (simp add: file_ok_def)
    let ?j = "k - (n - p)"
    have j: "0 < ?j" "?j < n" using False k p by (auto simp: n_def)
    let ?r2 = "\<lparr>vbr_OID = OID f, vbr_FBO = 0, vbr_size = ?j\<rparr>" and ?f2 = "f\<lparr>nextOffset := ?j * BLOCK_SIZE\<rparr>"
    have "gather_range (files (vb_seg st1) ! fi) (k - (n - p)) = (?r2, ?f2)"
      unfolding fi1(2) using gather_range_ok [OF ok0 j(1) _ refl] j p n0 by simp
    moreover have "n - p < k" using False by simp
    ultimately obtain st2 where
      st2: "vb_gather fi k (n - p) [?r1] st1 = vb_gather fi k (s32_of k) [?r1, ?r2] st2"
      "vb_seg st2 = set_file fi ?f2 (vb_seg st1)" "vb_undo_ext st1 st2"
      using vb_gather_step [OF _ fi1(1), of "n - p" k ?r2 ?f2 "[?r1]"] by auto
    have "s32_of k = k" using k p by (intro s32_id) (auto simp: n_def)
    moreover have "next_pos f k = ?j"
    proof -
      have "(p + k) mod n = (?j + n) mod n" by (simp add: add.commute)
      also have "\<dots> = ?j mod n" by (rule mod_add_self2)
      also have "\<dots> = ?j" using j by (intro mod_pos_pos_trivial) auto
      finally show ?thesis by (simp add: next_pos_def n_def [symmetric] p_def [symmetric])
    qed
    moreover have "set_file fi (f\<lparr>nextOffset := ?j * BLOCK_SIZE\<rparr>) (vb_seg st1) =
        set_file fi (f\<lparr>nextOffset := ?j * BLOCK_SIZE\<rparr>) (vb_seg st)"
      unfolding st1(2) by (simp add: set_file_def)
    ultimately show ?thesis
      using False st1(1,3) st2 s1 stop vb_undo_ext_trans
      by (auto simp: gathered_def n_def [symmetric] p_def [symmetric] Let_def min_def)
  qed
qed

section \<open>Aging out entries\<close>

lemma age_slots_ok:
  assumes "vss_inv (seg vs)" "vb_inv (vb_seg vb)" "\<And>i. i \<in> set is \<Longrightarrow> i < length (vb_storage (vb_seg vb))"
  shows "\<exists>ov vs' vb' fl'. age_slots oid a b is (vs, vb, fl) = Some (ov, vs', vb', fl') \<and>
      vss_inv (seg vs') \<and> vb_inv (vb_seg vb') \<and> undo_ext vs vs' \<and> vb_undo_ext vb vb' \<and>
      files (vb_seg vb') = files (vb_seg vb) \<and> vbCapacity (vbbm (vb_seg vb')) = vbCapacity (vbbm (vb_seg vb)) \<and>
      vb_shrinks (vb_seg vb) (vb_seg vb') \<and> vb_abs (vb_seg vb') \<subseteq>\<^sub>m vb_abs (vb_seg vb) \<and>
      (\<not> ov \<longrightarrow> (\<forall>i \<in> set is. \<not> age_match oid a b (vb_storage (vb_seg vb') ! i)))"
  using assms
proof (induction "is" arbitrary: vs vb fl)
  case Nil
  then show ?case by auto
next
  case (Cons i "is")
  let ?e = "vb_storage (vb_seg vb) ! i"
  have i: "i < length (vb_storage (vb_seg vb))" using Cons.prems(3) by simp
  have gen: "\<not> age_match oid a b (vb_storage s' ! j)"
    if "vb_shrinks s s'" "j < length (vb_storage s)" "\<not> age_match oid a b (vb_storage s ! j)" for s s' j
    using that by (auto simp: vb_shrinks_def age_match_def vb_used_def vb_val_def)
  show ?case
  proof (cases "age_match oid a b ?e")
    case False
    have "\<And>j. j \<in> set is \<Longrightarrow> j < length (vb_storage (vb_seg vb))" using Cons.prems(3) by simp
    note IH = Cons.IH [OF Cons.prems(1,2) this, of fl]
    have step: "age_slots oid a b (i # is) (vs, vb, fl) = age_slots oid a b is (vs, vb, fl)"
      using i False by simp
    show ?thesis unfolding step using IH gen [OF _ i False] by fastforce
  next
    case True
    then have l: "vb_lbid ?e \<noteq> -1" by (simp add: age_match_def)
    have wf: "vss_wf (seg vs)" using Cons.prems(1) by (simp add: vss_inv_def)
    obtain lk where lk: "vss_isEntryLocked (vb_lbid ?e) (vb_verID ?e) (seg vs) = Some lk"
      using vss_isEntryLocked_ok [OF wf l] by blast
    show ?thesis
    proof (cases lk)
      case lkd: True
      then show ?thesis using True i lk Cons.prems(1,2) by (simp, blast)
    next
      case nlk: False
      obtain vs1 fl1 where vs1: "vss_removeEntry (vb_lbid ?e) (vb_verID ?e) fl vs = Some (vs1, fl1)"
        "vss_inv (seg vs1)" "undo_ext vs vs1"
        using vss_removeEntry_ok [OF Cons.prems(1), of "vb_lbid ?e" "vb_verID ?e" fl] by blast
      obtain vb1 where vb1: "vb_removeEntry (vb_lbid ?e) (vb_verID ?e) vb = Some vb1" "vb_inv (vb_seg vb1)"
        "vb_abs (vb_seg vb1) = (vb_abs (vb_seg vb))((vb_lbid ?e, vb_verID ?e) := None)" "vb_undo_ext vb vb1"
        "files (vb_seg vb1) = files (vb_seg vb)" "vbCapacity (vbbm (vb_seg vb1)) = vbCapacity (vbbm (vb_seg vb))"
        "vb_shrinks (vb_seg vb) (vb_seg vb1)"
        using vb_removeEntry_ok [OF Cons.prems(2), of "vb_lbid ?e" "vb_verID ?e"] by blast
      have len: "length (vb_storage (vb_seg vb1)) = length (vb_storage (vb_seg vb))"
        using vb1(7) by (simp add: vb_shrinks_def)
      have gone: "\<not> age_match oid a b (vb_storage (vb_seg vb1) ! i)"
      proof
        assume m: "age_match oid a b (vb_storage (vb_seg vb1) ! i)"
        then have "i \<in> live_ix vb_used (vb_storage (vb_seg vb1))"
          using i len by (simp add: live_ix_def vb_used_def age_match_def)
        moreover have "vb_key (vb_storage (vb_seg vb1) ! i) = (vb_lbid ?e, vb_verID ?e)"
          using m vb1(7) i by (simp add: vb_shrinks_def age_match_def vb_used_def vb_key_def)
        moreover have "vb_abs (vb_seg vb1) (vb_lbid ?e, vb_verID ?e) = None" using vb1(3) by simp
        ultimately show False unfolding vb_abs_def table_None by blast
      qed
      have sub: "vb_abs (vb_seg vb1) \<subseteq>\<^sub>m vb_abs (vb_seg vb)"
        unfolding vb1(3) by (auto simp: map_le_def)
      have "\<And>j. j \<in> set is \<Longrightarrow> j < length (vb_storage (vb_seg vb1))" using Cons.prems(3) len by simp
      from Cons.IH [OF vs1(2) vb1(2) this, of fl1] obtain ov vs2 vb2 fl2 where
        r: "age_slots oid a b is (vs1, vb1, fl1) = Some (ov, vs2, vb2, fl2)"
        "vss_inv (seg vs2)" "vb_inv (vb_seg vb2)" "undo_ext vs1 vs2" "vb_undo_ext vb1 vb2"
        "files (vb_seg vb2) = files (vb_seg vb1)" "vbCapacity (vbbm (vb_seg vb2)) = vbCapacity (vbbm (vb_seg vb1))"
        "vb_shrinks (vb_seg vb1) (vb_seg vb2)" "vb_abs (vb_seg vb2) \<subseteq>\<^sub>m vb_abs (vb_seg vb1)"
        "\<not> ov \<longrightarrow> (\<forall>i \<in> set is. \<not> age_match oid a b (vb_storage (vb_seg vb2) ! i))" by blast
      have step: "age_slots oid a b (i # is) (vs, vb, fl) = Some (ov, vs2, vb2, fl2)"
        using True i lk nlk vs1(1) vb1(1) r(1) by simp
      have i1: "i < length (vb_storage (vb_seg vb1))" using i len by simp
      have "undo_ext vs vs2" using vs1(3) r(4) by (rule undo_ext_trans)
      moreover have "vb_undo_ext vb vb2" using vb1(4) r(5) by (rule vb_undo_ext_trans)
      moreover have "vb_shrinks (vb_seg vb) (vb_seg vb2)" using vb1(7) r(8) by (rule vb_shrinks_trans)
      moreover have "vb_abs (vb_seg vb2) \<subseteq>\<^sub>m vb_abs (vb_seg vb)" using r(9) sub by (rule map_le_trans)
      moreover have "\<not> age_match oid a b (vb_storage (vb_seg vb2) ! i)" using gen [OF r(8) i1 gone] .
      ultimately show ?thesis unfolding step using r(2,3,6,7,10) vb1(5,6) by simp
    qed
  qed
qed

text \<open>No entry of the map points into the offsets \<open>a..b\<close> of file \<open>oid\<close>.\<close>

definition no_entry :: "((LBID_t \<times> VER_t) \<rightharpoonup> (OID_t \<times> int)) \<Rightarrow> OID_t \<Rightarrow> int \<Rightarrow> int \<Rightarrow> bool" where
  "no_entry m oid a b \<longleftrightarrow> (\<forall>k fbo. m k = Some (oid, fbo) \<longrightarrow> \<not> (a \<le> fbo \<and> fbo \<le> b))"

lemma no_entryD: "no_entry m oid a b \<Longrightarrow> m k = Some (oid, x) \<Longrightarrow> a \<le> x \<Longrightarrow> x \<le> b \<Longrightarrow> False"
  unfolding no_entry_def by blast

lemma no_entry_mono: "m' \<subseteq>\<^sub>m m \<Longrightarrow> no_entry m oid a b \<Longrightarrow> no_entry m' oid a b"
  by (force simp: no_entry_def map_le_def)

lemma no_match_no_entry:
  assumes "vb_wf s" and "\<forall>i < length (vb_storage s). \<not> age_match oid a b (vb_storage s ! i)"
  shows "no_entry (vb_abs s) oid a b"
  unfolding no_entry_def
proof (intro allI impI)
  fix k fbo assume "vb_abs s k = Some (oid, fbo)"
  then obtain i where "i \<in> live_ix vb_used (vb_storage s)" "vb_val (vb_storage s ! i) = (oid, fbo)"
    unfolding vb_abs_def table_Some [OF vb_wfD(3) [OF assms(1)]] by blast
  then show "\<not> (a \<le> fbo \<and> fbo \<le> b)"
    using assms(2) by (auto simp: live_ix_def age_match_def vb_used_def vb_val_def)
qed

lemma age_ranges_ok:
  assumes "vss_inv (seg vs)" "vb_inv (vb_seg vb)" "fi < length (files (vb_seg vb))" "files (vb_seg vb) ! fi = f"
  shows "\<exists>ov vs' vb' fl'. age_ranges fi rs (vs, vb, fl) = Some (ov, vs', vb', fl') \<and>
      vss_inv (seg vs') \<and> vb_inv (vb_seg vb') \<and> undo_ext vs vs' \<and> vb_undo_ext vb vb' \<and>
      files (vb_seg vb') = files (vb_seg vb) \<and> vb_abs (vb_seg vb') \<subseteq>\<^sub>m vb_abs (vb_seg vb) \<and>
      (\<not> ov \<longrightarrow> (\<forall>r \<in> set rs. \<forall>a b. age_bounds f r = Some (a, b) \<longrightarrow> no_entry (vb_abs (vb_seg vb')) (vbr_OID r) a b))"
  using assms
proof (induction rs arbitrary: vs vb fl)
  case Nil
  then show ?case by auto
next
  case (Cons r rs)
  show ?case
  proof (cases "age_bounds f r")
    case None
    then have "age_ranges fi (r # rs) (vs, vb, fl) = age_ranges fi rs (vs, vb, fl)"
      using Cons.prems by simp
    with Cons.IH [OF Cons.prems, of fl] None show ?thesis by simp
  next
    case (Some ab)
    obtain a b where ab: "ab = (a, b)" by (cases ab)
    let ?is = "[0..<nat (vbCapacity (vbbm (vb_seg vb)))]"
    have cap: "nat (vbCapacity (vbbm (vb_seg vb))) = length (vb_storage (vb_seg vb))"
      using Cons.prems(2) vb_wfD(1) [of "vb_seg vb"] by (simp add: vb_inv_def)
    have step: "age_ranges fi (r # rs) (vs, vb, fl) =
        Option.bind (age_slots (vbr_OID r) a b ?is (vs, vb, fl)) (\<lambda>(overflow, s'). if overflow then Some (True, s') else age_ranges fi rs s')"
      using Cons.prems Some ab by simp
    have "\<And>i. i \<in> set ?is \<Longrightarrow> i < length (vb_storage (vb_seg vb))" using cap by simp
    from age_slots_ok [OF Cons.prems(1,2) this, where oid = "vbr_OID r" and a = a and b = b and fl = fl] obtain ov vs1 vb1 fl1 where
      2: "age_slots (vbr_OID r) a b ?is (vs, vb, fl) = Some (ov, vs1, vb1, fl1)"
      "vss_inv (seg vs1)" "vb_inv (vb_seg vb1)" "undo_ext vs vs1" "vb_undo_ext vb vb1"
      "files (vb_seg vb1) = files (vb_seg vb)" "vb_shrinks (vb_seg vb) (vb_seg vb1)"
      "vb_abs (vb_seg vb1) \<subseteq>\<^sub>m vb_abs (vb_seg vb)"
      "\<not> ov \<longrightarrow> (\<forall>i \<in> set ?is. \<not> age_match (vbr_OID r) a b (vb_storage (vb_seg vb1) ! i))" by blast
    show ?thesis
    proof (cases ov)
      case True
      with 2 show ?thesis unfolding step by (simp, blast)
    next
      case False
      have no: "no_entry (vb_abs (vb_seg vb1)) (vbr_OID r) a b"
        using 2(3,7,9) False cap by (intro no_match_no_entry) (auto simp: vb_inv_def vb_shrinks_def)
      have "fi < length (files (vb_seg vb1))" "files (vb_seg vb1) ! fi = f"
        using 2(6) Cons.prems(3,4) by simp_all
      from Cons.IH [OF 2(2,3) this, of fl1] obtain ov2 vs2 vb2 fl2 where
        b: "age_ranges fi rs (vs1, vb1, fl1) = Some (ov2, vs2, vb2, fl2)"
        "vss_inv (seg vs2)" "vb_inv (vb_seg vb2)" "undo_ext vs1 vs2" "vb_undo_ext vb1 vb2"
        "files (vb_seg vb2) = files (vb_seg vb1)" "vb_abs (vb_seg vb2) \<subseteq>\<^sub>m vb_abs (vb_seg vb1)"
        "\<not> ov2 \<longrightarrow> (\<forall>r \<in> set rs. \<forall>a b. age_bounds f r = Some (a, b) \<longrightarrow> no_entry (vb_abs (vb_seg vb2)) (vbr_OID r) a b)" by blast
      have step2: "age_ranges fi (r # rs) (vs, vb, fl) = Some (ov2, vs2, vb2, fl2)"
        unfolding step 2(1) using False b(1) by simp
      have "undo_ext vs vs2" using 2(4) b(4) by (rule undo_ext_trans)
      moreover have "vb_undo_ext vb vb2" using 2(5) b(5) by (rule vb_undo_ext_trans)
      moreover have "vb_abs (vb_seg vb2) \<subseteq>\<^sub>m vb_abs (vb_seg vb)" using b(7) 2(8) by (rule map_le_trans)
      moreover have "no_entry (vb_abs (vb_seg vb2)) (vbr_OID r) a b" using b(7) no by (rule no_entry_mono)
      ultimately show ?thesis unfolding step2 using b(2,3,6,8) 2(6) Some ab by simp
    qed
  qed
qed

section \<open>Which offsets are aged out\<close>

text \<open>The first chunk boundary at or after an offset.\<close>

definition chunk_up :: "int \<Rightarrow> int" where
  "chunk_up q = ((q - 1) div VBBM_CHUNK_SIZE + 1) * VBBM_CHUNK_SIZE"

lemma chunk_up_aligned: "q mod VBBM_CHUNK_SIZE = 0 \<Longrightarrow> chunk_up q = q"
proof -
  assume "q mod VBBM_CHUNK_SIZE = 0"
  then obtain c where "q = 100 * c" by (auto simp: VBBM_CHUNK_SIZE_def)
  moreover have "(100 * (c - 1) + 99) div 100 = c - 1" by simp
  ultimately show ?thesis by (simp add: chunk_up_def VBBM_CHUNK_SIZE_def)
qed

lemma chunk_up_unaligned: "q mod VBBM_CHUNK_SIZE \<noteq> 0 \<Longrightarrow> chunk_up q = (q div VBBM_CHUNK_SIZE + 1) * VBBM_CHUNK_SIZE"
proof -
  assume m: "q mod VBBM_CHUNK_SIZE \<noteq> 0"
  define c where "c = q div 100"
  define d where "d = q mod 100"
  have "q = 100 * c + d" by (simp add: c_def d_def)
  moreover have "0 < d" "d < 100" using m by (auto simp: d_def VBBM_CHUNK_SIZE_def order_less_le)
  moreover have "(100 * c + (d - 1)) div 100 = c + (d - 1) div 100" by simp
  ultimately have "(q - 1) div 100 = c" by (simp add: add_diff_eq div_pos_pos_trivial)
  then show ?thesis by (simp add: chunk_up_def VBBM_CHUNK_SIZE_def c_def)
qed

lemma chunk_up_bounds: "q \<le> chunk_up q" "chunk_up q < q + VBBM_CHUNK_SIZE"
proof -
  have "(q - 1) div 100 * 100 + (q - 1) mod 100 = q - 1" by simp
  moreover have "0 \<le> (q - 1) mod 100" "(q - 1) mod 100 < 100" by simp_all
  ultimately show "q \<le> chunk_up q" "chunk_up q < q + VBBM_CHUNK_SIZE"
    by (simp_all add: chunk_up_def VBBM_CHUNK_SIZE_def algebra_simps)
qed

lemma age_bounds_cover:
  assumes r: "0 \<le> vbr_FBO r" "0 < vbr_size r" "vbr_FBO r + vbr_size r \<le> vb_blocks f" "vb_blocks f < 2 ^ 31"
    and x: "vbr_FBO r \<le> x" "x < chunk_up (vbr_FBO r + vbr_size r)" "x < vb_blocks f"
  shows "x < chunk_up (vbr_FBO r) \<or> (\<exists>a b. age_bounds f r = Some (a, b) \<and> a \<le> x \<and> x \<le> b)"
proof -
  define p where "p = vbr_FBO r"
  define q where "q = p + vbr_size r"
  define n where "n = vb_blocks f"
  have b: "0 \<le> p" "p < q" "q \<le> n" "n < 2147483648" "p \<le> x" "x < chunk_up q" "x < n"
    using r x by (simp_all add: p_def q_def n_def)
  have last: "u32_of (p + vbr_size r - 1) = q - 1" using b by (simp add: u32_of_def q_def)
  have up: "chunk_up q = ((q - 1) div VBBM_CHUNK_SIZE + 1) * VBBM_CHUNK_SIZE" by (simp add: chunk_up_def)
  have lastc: "u32_of (((q - 1) div VBBM_CHUNK_SIZE + 1) * VBBM_CHUNK_SIZE - 1) = chunk_up q - 1"
    unfolding up [symmetric] using chunk_up_bounds [of q] b
    by (simp add: u32_of_def VBBM_CHUNK_SIZE_def)
  define e where "e = (if chunk_up q - 1 > n then u32_of n else chunk_up q - 1)"
  have e: "x \<le> e" using b by (simp add: e_def u32_of_def)
  show ?thesis
  proof (cases "p mod VBBM_CHUNK_SIZE = 0")
    case True
    then have "age_bounds f r = Some (p, e)"
      unfolding age_bounds_def Let_def p_def [symmetric] last lastc e_def n_def vb_blocks_def by simp
    with b e show ?thesis by auto
  next
    case False
    note pu = chunk_up_unaligned [OF False]
    show ?thesis
    proof (cases "x < chunk_up p")
      case ge: False
      have "p div VBBM_CHUNK_SIZE \<noteq> (q - 1) div VBBM_CHUNK_SIZE"
        using ge b(6) unfolding up pu by auto
      moreover have "u32_of ((p div VBBM_CHUNK_SIZE + 1) * VBBM_CHUNK_SIZE) = chunk_up p"
        unfolding pu [symmetric] using chunk_up_bounds [of p] b by (simp add: u32_of_def VBBM_CHUNK_SIZE_def)
      ultimately have "age_bounds f r = Some (chunk_up p, e)"
        unfolding age_bounds_def Let_def p_def [symmetric] last lastc e_def n_def vb_blocks_def
        using False by simp
      with ge e show ?thesis by auto
    qed (simp add: p_def)
  qed
qed

section \<open>getBlocks\<close>

lemma file_index_OID: "file_index oid fs < length fs \<Longrightarrow> OID (fs ! file_index oid fs) = oid"
  by (induction fs) auto

text \<open>The rest of the current chunk of a file is clear; its other blocks are aged out chunk by chunk.\<close>

definition chunk_clear :: "((LBID_t \<times> VER_t) \<rightharpoonup> (OID_t \<times> int)) \<Rightarrow> OID_t \<Rightarrow> int \<Rightarrow> bool" where
  "chunk_clear m oid p \<longleftrightarrow> no_entry m oid p (chunk_up p - 1)"

definition in_range :: "VBRange \<Rightarrow> int \<Rightarrow> bool" where
  "in_range r x \<longleftrightarrow> vbr_FBO r \<le> x \<and> x < vbr_FBO r + vbr_size r"

lemma chunk_up_0 [simp]: "chunk_up 0 = 0"
  by (simp add: chunk_up_aligned)

lemma chunk_clear_0 [simp]: "chunk_clear m oid 0"
  by (auto simp: chunk_clear_def no_entry_def)

text \<open>The ranges a request gets: inside the file, together as many blocks as asked for, disjoint.\<close>

lemma gathered_ok:
  assumes "file_ok f" "0 < k" "k \<le> vb_blocks f"
  shows "sum_list (map vbr_size (gathered f k)) = k"
    and "\<forall>r \<in> set (gathered f k). vbr_OID r = OID f \<and> 0 \<le> vbr_FBO r \<and> 0 < vbr_size r \<and> vbr_FBO r + vbr_size r \<le> vb_blocks f"
    and "\<forall>i < length (gathered f k). \<forall>j < i. \<forall>x. \<not> (in_range (gathered f k ! i) x \<and> in_range (gathered f k ! j) x)"
  using assms by (auto simp: gathered_def Let_def file_ok_def in_range_def less_Suc_eq)

lemma aged_clear:
  assumes aged: "\<forall>r \<in> set rs. \<forall>a b. age_bounds f r = Some (a, b) \<longrightarrow> no_entry m (vbr_OID r) a b"
    and r: "r \<in> set rs" "vbr_OID r = oid" "0 \<le> vbr_FBO r" "0 < vbr_size r" "vbr_FBO r + vbr_size r \<le> vb_blocks f"
      "vb_blocks f < 2 ^ 31"
    and clear: "chunk_clear m oid (vbr_FBO r)" and bound: "\<And>k x. m k = Some (oid, x) \<Longrightarrow> x < vb_blocks f"
  shows "no_entry m oid (vbr_FBO r) (chunk_up (vbr_FBO r + vbr_size r) - 1)"
  unfolding no_entry_def
proof (intro allI impI notI)
  fix k x assume x: "m k = Some (oid, x)" "vbr_FBO r \<le> x \<and> x \<le> chunk_up (vbr_FBO r + vbr_size r) - 1"
  then have "x < chunk_up (vbr_FBO r) \<or> (\<exists>a b. age_bounds f r = Some (a, b) \<and> a \<le> x \<and> x \<le> b)"
    using bound [OF x(1)] r by (intro age_bounds_cover) auto
  then show False
  proof
    assume "x < chunk_up (vbr_FBO r)"
    with x show False using no_entryD [OF clear [unfolded chunk_clear_def] x(1)] by simp
  next
    assume "\<exists>a b. age_bounds f r = Some (a, b) \<and> a \<le> x \<and> x \<le> b"
    then obtain a b where "age_bounds f r = Some (a, b)" "a \<le> x" "x \<le> b" by blast
    with aged r(1,2) x(1) show False using no_entryD by blast
  qed
qed

text \<open>
  Aging the gathered ranges frees them, and leaves the rest of the chunk the file's next
  request starts in clear also when the handed-out blocks are used.
\<close>

lemma gathered_clear:
  assumes f: "file_ok f" "OID f = oid" and k: "0 < k" "k + VBBM_CHUNK_SIZE \<le> vb_blocks f"
    and aged: "\<forall>r \<in> set (gathered f k). \<forall>a b. age_bounds f r = Some (a, b) \<longrightarrow> no_entry m (vbr_OID r) a b"
    and clear: "chunk_clear m oid (vb_pos f)" and bound: "\<And>k x. m k = Some (oid, x) \<Longrightarrow> x < vb_blocks f"
  shows "\<forall>r \<in> set (gathered f k). \<forall>x. in_range r x \<longrightarrow> no_entry m oid x x"
    and "\<And>m'. (\<And>key x. m' key = Some (oid, x) \<Longrightarrow> m key = Some (oid, x) \<or> (\<exists>r \<in> set (gathered f k). in_range r x))
      \<Longrightarrow> chunk_clear m' oid (next_pos f k)"
proof -
  define n where "n = vb_blocks f"
  define p where "p = vb_pos f"
  have p: "0 \<le> p" "p < n" "n < 2 ^ 31" using f by (auto simp: file_ok_def p_def n_def)
  have kn: "k \<le> vb_blocks f" using k by (simp add: VBBM_CHUNK_SIZE_def)
  note g = gathered_ok(2) [OF f(1) k(1) kn]
  have ne: "no_entry m oid (vbr_FBO r) (chunk_up (vbr_FBO r + vbr_size r) - 1)" if r: "r \<in> set (gathered f k)" for r
  proof (rule aged_clear [OF aged r])
    show "chunk_clear m oid (vbr_FBO r)"
      using r clear by (auto simp: gathered_def Let_def split: if_splits)
  qed (use g r f bound p in \<open>auto simp: n_def\<close>)
  show "\<forall>r \<in> set (gathered f k). \<forall>x. in_range r x \<longrightarrow> no_entry m oid x x"
  proof (intro ballI allI impI)
    fix r x assume "r \<in> set (gathered f k)" "in_range r x"
    then have "no_entry m oid (vbr_FBO r) (chunk_up (vbr_FBO r + vbr_size r) - 1)"
      "vbr_FBO r \<le> x" "x \<le> chunk_up (vbr_FBO r + vbr_size r) - 1"
      using ne [of r] chunk_up_bounds(1) [of "vbr_FBO r + vbr_size r"] by (auto simp: in_range_def)
    then show "no_entry m oid x x"
      unfolding no_entry_def by (meson order.trans)
  qed
  fix m' assume m': "\<And>key x. m' key = Some (oid, x) \<Longrightarrow> m key = Some (oid, x) \<or> (\<exists>r \<in> set (gathered f k). in_range r x)"
  show "chunk_clear m' oid (next_pos f k)"
  proof (cases "k \<le> n - p")
    case True
    let ?r = "\<lparr>vbr_OID = OID f, vbr_FBO = p, vbr_size = k\<rparr>"
    have gs: "gathered f k = [?r]" using True by (simp add: gathered_def n_def p_def)
    show ?thesis
    proof (cases "p + k = n")
      case True
      then show ?thesis by (simp add: next_pos_def n_def [symmetric] p_def [symmetric])
    next
      case False
      then have np: "next_pos f k = p + k"
        using True p k by (simp add: next_pos_def n_def [symmetric] p_def [symmetric])
      show ?thesis unfolding np chunk_clear_def no_entry_def
      proof (intro allI impI notI)
        fix key x assume x: "m' key = Some (oid, x)" "p + k \<le> x \<and> x \<le> chunk_up (p + k) - 1"
        have "m key = Some (oid, x)" using m' [OF x(1)] x(2) by (auto simp: gs in_range_def)
        then show False using no_entryD [OF ne [of ?r], of key x] x(2) k by (simp add: gs f(2))
      qed
    qed
  next
    case False
    let ?j = "k - (n - p)"
    let ?r1 = "\<lparr>vbr_OID = OID f, vbr_FBO = p, vbr_size = n - p\<rparr>"
    let ?r2 = "\<lparr>vbr_OID = OID f, vbr_FBO = 0, vbr_size = ?j\<rparr>"
    have gs: "gathered f k = [?r1, ?r2]" using False by (simp add: gathered_def n_def p_def Let_def)
    have "(p + k) mod n = (?j + n) mod n" by (simp add: add.commute)
    also have "\<dots> = ?j mod n" by (rule mod_add_self2)
    also have "\<dots> = ?j" using False p kn by (intro mod_pos_pos_trivial) (auto simp: n_def)
    finally have np: "next_pos f k = ?j" by (simp add: next_pos_def n_def [symmetric] p_def [symmetric])
    have j: "?j + VBBM_CHUNK_SIZE \<le> p" using k by (simp add: n_def)
    show ?thesis unfolding np chunk_clear_def no_entry_def
    proof (intro allI impI notI)
      fix key x assume x: "m' key = Some (oid, x)" "?j \<le> x \<and> x \<le> chunk_up ?j - 1"
      have "x < p" using x(2) j chunk_up_bounds(2) [of ?j] by linarith
      then have "m key = Some (oid, x)" using m' [OF x(1)] x(2) by (auto simp: gs in_range_def)
      then show False using no_entryD [OF ne [of ?r2], of key x] x(2) False by (simp add: gs)
    qed
  qed
qed

lemma vb_getBlocks_ok:
  assumes inv: "vss_inv (seg vs)" "vb_inv (vb_seg st)"
    and fi: "file_index oid (files (vb_seg st)) < length (files (vb_seg st))"
    and f_def: "f = files (vb_seg st) ! file_index oid (files (vb_seg st))"
    and f: "file_ok f" and num: "0 < num" "num + VBBM_CHUNK_SIZE \<le> vb_blocks f"
    and room: "vbCurrentSize (vbbm (vb_seg st)) + num \<le> vbCapacity (vbbm (vb_seg st))"
    and clear: "chunk_clear (vb_abs (vb_seg st)) oid (vb_pos f)"
    and bound: "\<And>k x. vb_abs (vb_seg st) k = Some (oid, x) \<Longrightarrow> x < vb_blocks f"
  shows "\<exists>r vs' st' fl. vb_getBlocks num oid vs st = ret (r, vs', st', fl) \<and>
      vss_inv (seg vs') \<and> vb_inv (vb_seg st') \<and> undo_ext vs vs' \<and> vb_undo_ext st st' \<and>
      vb_abs (vb_seg st') \<subseteq>\<^sub>m vb_abs (vb_seg st) \<and>
      files (vb_seg st') = (files (vb_seg st))[file_index oid (files (vb_seg st)) := f\<lparr>nextOffset := next_pos f num * BLOCK_SIZE\<rparr>] \<and>
      (r = None \<or> r = Some (gathered f num) \<and>
        (\<forall>r \<in> set (gathered f num). \<forall>x. in_range r x \<longrightarrow> no_entry (vb_abs (vb_seg st')) oid x x) \<and>
        (\<forall>m'. (\<forall>key x. m' key = Some (oid, x) \<longrightarrow> vb_abs (vb_seg st') key = Some (oid, x) \<or>
          (\<exists>r \<in> set (gathered f num). in_range r x)) \<longrightarrow> chunk_clear m' oid (next_pos f num)))"
proof -
  let ?fi = "file_index oid (files (vb_seg st))"
  let ?f' = "f\<lparr>nextOffset := next_pos f num * BLOCK_SIZE\<rparr>"
  have n: "vb_blocks f < 2 ^ 31" "num \<le> vb_blocks f" "num < 2 ^ 31"
    using f num by (auto simp: file_ok_def VBBM_CHUNK_SIZE_def)
  have oid: "OID f = oid" using file_index_OID [OF fi] by (simp add: f_def)
  from vb_gather_ok [OF fi f_def f num(1) n(2)] obtain st3 where
    st3: "vb_gather ?fi num 0 [] st = Some (gathered f num, st3)" "vb_undo_ext st st3"
    "vb_seg st3 = set_file ?fi ?f' (vb_seg st)" by blast
  have inv3: "vb_inv (vb_seg st3)" "vb_abs (vb_seg st3) = vb_abs (vb_seg st)" "files (vb_seg st3) = (files (vb_seg st))[?fi := ?f']"
    using inv(2) by (auto simp: st3(3) set_file_def vb_inv_def vb_wf_def)
  have fi3: "?fi < length (files (vb_seg st3))" "files (vb_seg st3) ! ?fi = ?f'" using inv3(3) fi by simp_all
  have room_ok: "vb_make_room num st = ret st"
    using room by (subst vb_make_room.simps) (simp add: ret_def)
  have get: "vb_getBlocks num oid vs st = bind_cpp (defined (age_ranges ?fi (gathered f num) (vs, st3, [])))
      (\<lambda>(overflow, vs', st4, flushList). ret (if overflow then None else Some (gathered f num), vs', st4, flushList))"
    using fi n num st3(1) room_ok
    by (simp add: vb_getBlocks_def addVBFileIfNotExists_def f_def [symmetric] vb_blocks_def [symmetric] u32_id)
  have bounds: "age_bounds ?f' r = age_bounds f r" for r by (simp add: age_bounds_def Let_def)
  from age_ranges_ok [OF inv(1) inv3(1) fi3, where rs = "gathered f num" and fl = "[]"] obtain ov vs' vb' fl' where
    2: "age_ranges ?fi (gathered f num) (vs, st3, []) = Some (ov, vs', vb', fl')"
      "vss_inv (seg vs')" "vb_inv (vb_seg vb')" "undo_ext vs vs'" "vb_undo_ext st3 vb'"
      "files (vb_seg vb') = files (vb_seg st3)" "vb_abs (vb_seg vb') \<subseteq>\<^sub>m vb_abs (vb_seg st3)"
      "\<not> ov \<longrightarrow> (\<forall>r \<in> set (gathered f num). \<forall>a b. age_bounds f r = Some (a, b) \<longrightarrow> no_entry (vb_abs (vb_seg vb')) (vbr_OID r) a b)"
    unfolding bounds by blast
  note ext = vb_undo_ext_trans [OF st3(2) 2(5)]
  show ?thesis
  proof (cases ov)
    case True
    then show ?thesis unfolding get 2(1) using 2(2-7) inv3(2,3) ext by simp
  next
    case False
    have cc: "chunk_clear (vb_abs (vb_seg vb')) oid (vb_pos f)"
      using no_entry_mono [OF 2(7) [unfolded inv3(2)]] clear by (simp add: chunk_clear_def)
    have bb: "x < vb_blocks f" if "vb_abs (vb_seg vb') k = Some (oid, x)" for k x
    proof -
      have "k \<in> dom (vb_abs (vb_seg vb'))" using that by blast
      then have "vb_abs (vb_seg st) k = Some (oid, x)" using 2(7) that unfolding inv3(2) map_le_def by simp
      then show ?thesis by (rule bound)
    qed
    note gc = gathered_clear [OF f oid num mp [OF 2(8) False] cc bb]
    show ?thesis unfolding get 2(1)
      using 2(2-7) inv3(2,3) gc(1) gc(2) ext False
      by (intro exI [of _ "Some (gathered f num)"] exI [of _ vs'] exI [of _ vb'] exI [of _ fl']) auto
  qed
qed

end
