(* ===== verification/VBBM_Image.thy ===== *)
theory VBBM_Image
  imports VBBM_Write
begin

text \<open>
  The image of the version buffer block map: what \<open>save\<close> writes, the version 2 loader reads
  back, whatever state the loading process was in.
\<close>

lemma vb_initShmseg_ok:
  "vb_inv (vb_initShmseg fs)" "vb_abs (vb_initShmseg fs) = Map.empty" "files (vb_initShmseg fs) = fs"
  "live_ix vb_used (vb_storage (vb_initShmseg fs)) = {}" "length (vb_hashBuckets (vb_initShmseg fs)) = 25000"
  "vbCurrentSize (vbbm (vb_initShmseg fs)) = 0"
proof -
  have n: "0 < VBTABLE_INITIAL_COUNT" "0 \<le> VBSTORAGE_INITIAL_COUNT"
    by (simp_all add: VBTABLE_INITIAL_COUNT_def VBSTORAGE_INITIAL_COUNT_def)
  note f = vb_fresh_seg_ok [OF n, of fs 0, folded vb_initShmseg_def]
  have "length (vb_hashBuckets (vb_initShmseg fs)) = nat VBTABLE_INITIAL_COUNT"
    by (simp add: vb_initShmseg_def vb_fresh_seg_def)
  then show "length (vb_hashBuckets (vb_initShmseg fs)) = 25000" by (simp add: VBTABLE_INITIAL_COUNT_def)
  show c: "vbCurrentSize (vbbm (vb_initShmseg fs)) = 0" by (simp add: vb_initShmseg_def vb_fresh_seg_def)
  show "vb_inv (vb_initShmseg fs)" using f(1,3) c by (simp add: vb_inv_def vb_count_def)
qed (use vb_fresh_seg_ok [of VBTABLE_INITIAL_COUNT VBSTORAGE_INITIAL_COUNT fs 0, folded vb_initShmseg_def]
     in \<open>simp_all add: VBTABLE_INITIAL_COUNT_def VBSTORAGE_INITIAL_COUNT_def\<close>)

text \<open>An attached table without entries, as \<open>clear\<close> leaves it.\<close>

definition vb_blank :: "VBBM \<Rightarrow> bool" where
  "vb_blank st \<longleftrightarrow> vb_inv (vb_seg st) \<and> live_ix vb_used (vb_storage (vb_seg st)) = {} \<and>
     6 \<le> length (vb_hashBuckets (vb_seg st)) \<and> 0 < allocdSize (vbbmShminfo st)"

lemma vb_blank_compact: "vb_blank st \<Longrightarrow> vb_compact (vb_seg st)"
  by (auto simp: vb_blank_def vb_compact_def live_ix_def)

lemma live_empty_of_count: "vb_count s = 0 \<Longrightarrow> live_ix vb_used (vb_storage s) = {}"
  by (simp add: vb_count_def)

lemma vb_add_file_blank:
  assumes "vb_blank st"
  shows "\<exists>st' f. growVBBM True st = ret st' \<and> vb_blank st' \<and> files (vb_seg st') = files (vb_seg st) @ [f] \<and>
    vb_config st' = vb_config st"
proof -
  have b: "vb_inv (vb_seg st)" "6 \<le> length (vb_hashBuckets (vb_seg st))" "0 < allocdSize (vbbmShminfo st)"
    "vb_count (vb_seg st) = 0"
    using assms by (simp_all add: vb_blank_def vb_count_def)
  from growVBBM_ok [OF b(1) vb_blank_compact [OF assms], of True] b(2,3) obtain st' f where
    st': "growVBBM True st = ret st'" "vb_inv (vb_seg st')" "vbCurrentSize (vbbm (vb_seg st')) = vbCurrentSize (vbbm (vb_seg st))"
    "files (vb_seg st') = files (vb_seg st) @ [f]"
    "allocdSize (vbbmShminfo st') = allocdSize (vbbmShminfo st) + sizeof_VBFileMetadata" "vb_config st' = vb_config st"
    "vb_numHashBuckets (vbbm (vb_seg st')) = vb_numHashBuckets (vbbm (vb_seg st))"
    by auto
  have "vb_count (vb_seg st') = 0" using st'(2,3) b(1,4) by (simp add: vb_inv_def)
  moreover have "length (vb_hashBuckets (vb_seg st')) = length (vb_hashBuckets (vb_seg st))"
    using st'(2,7) b(1) hash_wf_len [OF vb_wfD(2), of "vb_seg st'"] hash_wf_len [OF vb_wfD(2), of "vb_seg st"]
    by (simp add: vb_inv_def)
  ultimately show ?thesis
    using st' b live_empty_of_count by (auto simp: vb_blank_def sizeof_VBFileMetadata_def)
qed

lemma vb_add_files_blank:
  assumes "vb_blank st"
  shows "\<exists>st'. vb_add_files n st = ret st' \<and> vb_blank st' \<and> length (files (vb_seg st')) = length (files (vb_seg st)) + n"
  using assms
proof (induction n arbitrary: st)
  case (Suc n)
  from vb_add_file_blank [OF Suc.prems] obtain st1 f where
    st1: "growVBBM True st = ret st1" "vb_blank st1" "files (vb_seg st1) = files (vb_seg st) @ [f]" by blast
  from Suc.IH [OF st1(2)] st1 show ?case by auto
qed simp

lemma vb_clear_blank:
  assumes "vb_config st = Some c" "0 < c"
  shows "\<exists>st'. vb_clear st = ret st' \<and> vb_blank st' \<and> length (files (vb_seg st')) = length (files (vb_seg st))"
proof -
  have "0 < vb_initial_alloc (int n)" for n
    by (simp add: vb_initial_alloc_def sizeof_VBShmsegHeader_def sizeof_VBFileMetadata_def
        VBSTORAGE_INITIAL_COUNT_def VBTABLE_INITIAL_COUNT_def sizeof_VBBMEntry_def)
  then show ?thesis
    using assms by (simp add: vb_clear_def setCurrentFileSize_def Let_def vb_blank_def vb_initShmseg_ok)
qed

lemma vb_growForLoad_ok:
  assumes "0 \<le> n"
  shows "vb_inv (vb_seg (vb_growForLoad n st))" "vb_abs (vb_seg (vb_growForLoad n st)) = Map.empty"
    "vb_count (vb_seg (vb_growForLoad n st)) = 0" "nat n \<le> length (vb_storage (vb_seg (vb_growForLoad n st)))"
    "length (files (vb_seg (vb_growForLoad n st))) = length (files (vb_seg st))"
proof -
  define m where "m = (if n < 100000 then 100000 else n)"
  define c where "c = (if m mod 10000 \<noteq> 0 then (m div 10000 + 1) * 10000 else m)"
  have m: "100000 \<le> m" "n \<le> m" by (simp_all add: m_def)
  have "m = 10000 * (m div 10000) + m mod 10000" "m mod 10000 < 10000" by simp_all
  then have "m \<le> m div 10000 * 10000 + 10000" by linarith
  then have "m \<le> c" by (simp add: c_def)
  with m have "100000 \<le> c" "n \<le> c" by linarith+
  then have c: "0 < c div 4" "0 \<le> c" "n \<le> c" by linarith+
  have s: "vb_seg (vb_growForLoad n st) = vb_fresh_seg (files (vb_seg st)) c (c div 4) 0"
    unfolding vb_growForLoad_def Let_def VBSTORAGE_INITIAL_COUNT_def VBSTORAGE_INCREMENT_COUNT_def
      m_def [symmetric] c_def [symmetric] by simp
  note f = vb_fresh_seg_ok [OF c(1,2), of "files (vb_seg st)" 0]
  show "vb_inv (vb_seg (vb_growForLoad n st))"
    unfolding s vb_inv_def using f(1,3) by (simp add: vb_count_def) (simp add: vb_fresh_seg_def)
  show "vb_abs (vb_seg (vb_growForLoad n st)) = Map.empty" "vb_count (vb_seg (vb_growForLoad n st)) = 0"
    "nat n \<le> length (vb_storage (vb_seg (vb_growForLoad n st)))"
    "length (files (vb_seg (vb_growForLoad n st))) = length (files (vb_seg st))"
    unfolding s vb_count_def using f(2-5) c(3) by simp_all
qed

lemma vb_load_entries_ok:
  assumes "vb_inv (vb_seg st)" "distinct (map vb_key es)" "\<And>e. e \<in> set es \<Longrightarrow> vb_used e"
    and "\<And>e. e \<in> set es \<Longrightarrow> vb_abs (vb_seg st) (vb_key e) = None"
    and "vb_count (vb_seg st) + length es \<le> length (vb_storage (vb_seg st))"
  shows "\<exists>st'. vb_load_entries False (length es) es st = ret st' \<and> vb_inv (vb_seg st') \<and>
    vb_abs (vb_seg st') = vb_abs (vb_seg st) ++ map_of (map (\<lambda>e. (vb_key e, vb_val e)) es) \<and>
    files (vb_seg st') = files (vb_seg st)"
  using assms
proof (induction es arbitrary: st)
  case (Cons e es)
  have pre: "vb_lbid e \<noteq> -1" "vb_abs (vb_seg st) (vb_lbid e, vb_verID e) = None" "vb_count (vb_seg st) < length (vb_storage (vb_seg st))"
    using Cons.prems(3) [of e] Cons.prems(4) [of e] Cons.prems(5) by (auto simp: vb_used_def vb_key_def)
  from vb_insert_room [OF Cons.prems(1) pre, of "vbOID e" "vbFBO e" True] obtain st1 where st1:
    "vb_insert (vb_lbid e) (vb_verID e) (vbOID e) (vbFBO e) True st = ret st1" "vb_inv (vb_seg st1)"
    "vb_abs (vb_seg st1) = (vb_abs (vb_seg st))(vb_key e \<mapsto> vb_val e)"
    "vb_count (vb_seg st1) = Suc (vb_count (vb_seg st))" "length (vb_storage (vb_seg st1)) = length (vb_storage (vb_seg st))"
    "files (vb_seg st1) = files (vb_seg st)"
    by (auto simp: vb_key_def vb_val_def)
  have nin: "vb_key x \<noteq> vb_key e" if "x \<in> set es" for x using Cons.prems(2) that by (auto simp: image_iff)
  have "distinct (map vb_key es)" "\<And>x. x \<in> set es \<Longrightarrow> vb_used x"
    "\<And>x. x \<in> set es \<Longrightarrow> vb_abs (vb_seg st1) (vb_key x) = None"
    "vb_count (vb_seg st1) + length es \<le> length (vb_storage (vb_seg st1))"
    using Cons.prems nin st1(3-5) by auto
  from Cons.IH [OF st1(2) this] obtain st' where
    st': "vb_load_entries False (length es) es st1 = ret st'" "vb_inv (vb_seg st')"
    "vb_abs (vb_seg st') = vb_abs (vb_seg st1) ++ map_of (map (\<lambda>e. (vb_key e, vb_val e)) es)"
    "files (vb_seg st') = files (vb_seg st1)" by blast
  have "vb_key e \<notin> vb_key ` set es" using Cons.prems(2) by simp
  then have "map_of (map (\<lambda>e. (vb_key e, vb_val e)) es) (vb_key e) = None"
    by (simp add: map_of_eq_None_iff image_image)
  then show ?case
    using st' st1 by (auto simp: fun_eq_iff map_add_def split: option.splits)
qed simp

lemma vb_save_load_ok:
  assumes inv: "vb_inv s" and st: "vb_wf (vb_seg st)" and cfg: "vb_config st = Some c" "0 < c"
  shows "\<exists>f st'. vb_save s = Some f \<and> vb_load f st = ret st' \<and> vb_inv (vb_seg st') \<and>
    vb_abs (vb_seg st') = vb_abs s \<and> files (vb_seg st') = files s"
proof -
  have wf: "vb_wf s" using inv by (simp add: vb_inv_def)
  note w = vb_wfD [OF wf]
  let ?es = "filter vb_used (vb_storage s)"
  let ?n = "length (files s)"
  let ?f = "\<lparr>bf_magic = VBBM_MAGIC_V2, bf_entries = vbCurrentSize (vbbm s), bf_nFiles = int ?n,
    bf_files = files s, bf_body = ?es\<rparr>"
  have n: "vbCurrentSize (vbbm s) = int (length ?es)"
    using inv by (simp add: vb_inv_def vb_count_def card_live_ix)
  have save: "vb_save s = Some ?f" using w(1,7) by (simp add: vb_save_def)
  have pos: "0 \<le> vbCurrentSize (vbbm s)" "nat (vbCurrentSize (vbbm s)) = length ?es" using n by simp_all
  define st0 where "st0 = (if nFiles (vbbm (vb_seg st)) > int ?n
    then st\<lparr>vb_seg := (vb_seg st)\<lparr>vbbm := (vbbm (vb_seg st))\<lparr>nFiles := int ?n\<rparr>, files := take ?n (files (vb_seg st))\<rparr>\<rparr>
    else st)"
  have "vb_config st0 = Some c" "length (files (vb_seg st0)) \<le> ?n"
    using cfg vb_wfD(7) [OF st] by (auto simp: st0_def)
  with vb_clear_blank [OF _ cfg(2), of st0] obtain st1 where
    st1: "vb_clear st0 = ret st1" "vb_blank st1" "length (files (vb_seg st1)) \<le> ?n" by auto
  have nf: "nFiles (vbbm (vb_seg st1)) = int (length (files (vb_seg st1)))"
    using st1(2) vb_wfD(7) by (auto simp: vb_blank_def vb_inv_def)
  from vb_add_files_blank [OF st1(2), of "?n - length (files (vb_seg st1))"] st1(3) obtain st2 where
    st2: "vb_add_files (?n - length (files (vb_seg st1))) st1 = ret st2" "length (files (vb_seg st2)) = ?n" by auto
  let ?g = "vb_growForLoad (vbCurrentSize (vbbm s)) st2"
  let ?h = "?g\<lparr>vb_seg := (vb_seg ?g)\<lparr>files := files s\<rparr>\<rparr>"
  note g = vb_growForLoad_ok [OF pos(1), of st2]
  have h: "vb_inv (vb_seg ?h)" "vb_abs (vb_seg ?h) = Map.empty" "vb_count (vb_seg ?h) = 0"
    "length ?es \<le> length (vb_storage (vb_seg ?h))"
    using g st2(2) pos(2) by (auto simp: vb_inv_def vb_wf_def)
  obtain st' where st': "vb_load_entries False (length ?es) ?es ?h = ret st'" "vb_inv (vb_seg st')"
    "vb_abs (vb_seg st') = vb_abs (vb_seg ?h) ++ map_of (map (\<lambda>e. (vb_key e, vb_val e)) ?es)"
    "files (vb_seg st') = files (vb_seg ?h)"
  proof (rule exE [OF vb_load_entries_ok [of ?h ?es]])
    show "vb_count (vb_seg ?h) + length ?es \<le> length (vb_storage (vb_seg ?h))" using h(3,4) by simp
    show "distinct (map vb_key ?es)" by (rule keys_inj_distinct [OF w(3)])
    show "vb_abs (vb_seg ?h) (vb_key e) = None" for e using h(2) by simp
  qed (use h(1) in auto)
  have d: "nat (int a - int b) = a - b" for a b by linarith
  have "vb_load ?f st = vb_loadVersion2 ?f st" by (simp add: vb_load_def VBBM_MAGIC_V1_def VBBM_MAGIC_V2_def)
  also have "\<dots> = vb_load_entries False (length ?es) ?es ?h"
    unfolding vb_loadVersion2_def Let_def VBBMFile.simps nat_int st0_def [symmetric]
    using st1(1) st2(1) nf pos(2) d by simp
  finally have "vb_load ?f st = ret st'" using st'(1) by simp
  moreover have "vb_abs (vb_seg st') = vb_abs s"
    using st'(3) h(2) by (simp add: vb_abs_def [of s] table_def)
  ultimately show ?thesis using save st'(2,4) by auto
qed

end
