(* ===== verification/Table_Theorems.thy ===== *)
theory Table_Theorems
  imports VSS_VBBM VBBM_Blocks VBBM_Image
begin

text \<open>
  The theorems about the two version tables: what each operation of \<open>VSS\<close> and \<open>VBBM\<close> does to
  the table's contents seen as a finite map, that a whole operation sequence can be undone,
  and the saved images. The concrete tables at the start are the inputs on which the
  theorems with hypotheses are applied.
\<close>

section \<open>Concrete tables\<close>

definition ex_vss_seg :: VSSShmseg where
  "ex_vss_seg = \<lparr>vss = \<lparr>capacity = 3, currentSize = 2, LWM = 2, numHashBuckets = 1, lockedEntryCount = 1\<rparr>,
     hashBuckets = [1],
     storage = [\<lparr>lbid = 7, verID = 3, vbFlag = True, locked = False, next' = -1\<rparr>,
                \<lparr>lbid = 7, verID = 5, vbFlag = False, locked = True, next' = 0\<rparr>,
                vss_empty_entry]\<rparr>"

definition ex_vss :: VSS where
  "ex_vss = \<lparr>seg = ex_vss_seg, vssShminfo = \<lparr>tableShmkey = KEYRANGE_VSS_BASE, allocdSize = 96, mst_currentSize = 0\<rparr>,
     vss_undoRecords = []\<rparr>"

definition ex_vb_seg :: VBShmseg where
  "ex_vb_seg = \<lparr>vbbm = \<lparr>nFiles = 1, vbCapacity = 4, vbCurrentSize = 2, vbLWM = 1, vb_numHashBuckets = 1\<rparr>,
     files = [\<lparr>OID = 9, fileSize = 300 * BLOCK_SIZE, nextOffset = 200 * BLOCK_SIZE\<rparr>],
     vb_hashBuckets = [0],
     vb_storage = [\<lparr>vb_lbid = 7, vb_verID = 3, vbOID = 9, vbFBO = 150, vb_next = 2\<rparr>,
                \<lparr>vb_lbid = -1, vb_verID = 0, vbOID = 0, vbFBO = 0, vb_next = 0\<rparr>,
                \<lparr>vb_lbid = 8, vb_verID = 2, vbOID = 9, vbFBO = 199, vb_next = -1\<rparr>,
                \<lparr>vb_lbid = -1, vb_verID = 0, vbOID = 0, vbFBO = 0, vb_next = 0\<rparr>]\<rparr>"

definition ex_vb :: VBBM where
  "ex_vb = \<lparr>vb_seg = ex_vb_seg, vbbmShminfo = \<lparr>tableShmkey = KEYRANGE_VBBM_BASE, allocdSize = 200, mst_currentSize = 0\<rparr>,
     vb_undoRecords = [], currentFileSize = 300 * BLOCK_SIZE, vb_config = Some 1\<rparr>"

lemma hash_mod_1 [simp]: "hash_mod b 1 = 0"
  using hash_mod_range [of 1 b] by simp

lemma ex_vss_live: "live_ix entry_used (storage ex_vss_seg) = {0, 1}"
  by (auto simp: live_ix_def ex_vss_seg_def entry_used_def vss_empty_entry_def less_Suc_eq numeral_3_eq_3 numeral_2_eq_2)

lemma ex_vss_abs:
  "vss_abs ex_vss_seg = [(7, 3) \<mapsto> (True, False), (7, 5) \<mapsto> (False, True)]"
  by (auto simp: vss_abs_def table_def ex_vss_seg_def vss_entry_defs vss_empty_entry_def fun_eq_iff)

lemma ex_vss_inv [simp]: "vss_inv ex_vss_seg"
proof -
  have "hash_wf entry_used next' vss_bucket 1 [1] (storage ex_vss_seg)"
  proof (rule hash_wfI)
    fix b assume "b < length [1::int]"
    then show "\<exists>ks. chain next' (storage ex_vss_seg) ([1] ! b) ks \<and>
        set ks = {k \<in> live_ix entry_used (storage ex_vss_seg). vss_bucket 1 (storage ex_vss_seg ! k) = int b}"
      unfolding ex_vss_live
      by (intro exI [of _ "[1, 0]"]) (auto simp: ex_vss_seg_def vss_bucket_def vss_hash_def)
  qed simp_all
  moreover have "keys_inj entry_used vss_key (storage ex_vss_seg)"
    unfolding keys_inj_def ex_vss_live by (auto simp: ex_vss_seg_def vss_key_def)
  moreover have "\<forall>k < 2. entry_used (storage ex_vss_seg ! k)"
    by (auto simp: ex_vss_seg_def entry_used_def less_2_cases_iff)
  ultimately show ?thesis
    unfolding vss_inv_def vss_wf_def vss_count_def ex_vss_live by (simp add: ex_vss_seg_def)
qed

lemma ex_vss_wf [simp]: "vss_wf ex_vss_seg"
  using ex_vss_inv by (simp add: vss_inv_def)

lemma ex_vss_simps [simp]:
  "seg ex_vss = ex_vss_seg" "vss_undoRecords ex_vss = []" "allocdSize (vssShminfo ex_vss) = 96"
  by (simp_all add: ex_vss_def)

lemma ex_vb_live: "live_ix vb_used (vb_storage ex_vb_seg) = {0, 2}"
  by (auto simp: live_ix_def ex_vb_seg_def vb_used_def less_Suc_eq numeral_3_eq_3 numeral_2_eq_2)

lemma ex_vb_abs: "vb_abs ex_vb_seg = [(7, 3) \<mapsto> (9, 150), (8, 2) \<mapsto> (9, 199)]"
  by (auto simp: vb_abs_def table_def ex_vb_seg_def vb_entry_defs fun_eq_iff)

lemma ex_vb_inv [simp]: "vb_inv ex_vb_seg"
proof -
  have "hash_wf vb_used vb_next vb_bucket 1 [0] (vb_storage ex_vb_seg)"
  proof (rule hash_wfI)
    fix b assume "b < length [0::int]"
    then show "\<exists>ks. chain vb_next (vb_storage ex_vb_seg) ([0] ! b) ks \<and>
        set ks = {k \<in> live_ix vb_used (vb_storage ex_vb_seg). vb_bucket 1 (vb_storage ex_vb_seg ! k) = int b}"
      unfolding ex_vb_live
      by (intro exI [of _ "[0, 2]"]) (auto simp: ex_vb_seg_def vb_bucket_def vb_hash_def)
  qed simp_all
  moreover have "keys_inj vb_used vb_key (vb_storage ex_vb_seg)"
    unfolding keys_inj_def ex_vb_live by (auto simp: ex_vb_seg_def vb_key_def)
  ultimately show ?thesis
    unfolding vb_inv_def vb_wf_def vb_count_def ex_vb_live by (simp add: ex_vb_seg_def vb_used_def)
qed

lemma ex_vb_wf [simp]: "vb_wf ex_vb_seg"
  using ex_vb_inv by (simp add: vb_inv_def)

lemma ex_vb_simps [simp]:
  "vb_seg ex_vb = ex_vb_seg" "vb_undoRecords ex_vb = []" "allocdSize (vbbmShminfo ex_vb) = 200" "vb_config ex_vb = Some 1"
  by (simp_all add: ex_vb_def)

section \<open>Tables of a prefix of the slots\<close>

lemma table_take:
  assumes inj: "keys_inj used key st"
  shows "table used key val (take n st) \<subseteq>\<^sub>m table used key val st"
    and "table used key val (take n st) = table used key val st \<longleftrightarrow> (\<forall>k \<in> live_ix used st. k < n)"
proof -
  have inj': "keys_inj used key (take n st)" using inj by (auto simp: keys_inj_def inj_on_def live_ix_def)
  have sub: "table used key val (take n st) x = Some y \<longleftrightarrow> (\<exists>k \<in> live_ix used st. k < n \<and> key (st ! k) = x \<and> val (st ! k) = y)" for x y
    unfolding table_Some [OF inj'] by (auto simp: live_ix_def)
  have "table used key val st x = Some y" if "table used key val (take n st) x = Some y" for x y
    using that unfolding sub table_Some [OF inj] by blast
  then show "table used key val (take n st) \<subseteq>\<^sub>m table used key val st" by (auto simp: map_le_def)
  show "table used key val (take n st) = table used key val st \<longleftrightarrow> (\<forall>k \<in> live_ix used st. k < n)"
  proof
    assume eq: "table used key val (take n st) = table used key val st"
    show "\<forall>k \<in> live_ix used st. k < n"
    proof
      fix k assume k: "k \<in> live_ix used st"
      from table_live [OF inj k, of val] sub [of "key (st ! k)" "val (st ! k)"] obtain j where
        "j \<in> live_ix used st" "j < n" "key (st ! j) = key (st ! k)" unfolding eq by auto
      with keys_injD [OF inj _ k] show "k < n" by blast
    qed
  next
    assume "\<forall>k \<in> live_ix used st. k < n"
    then have "table used key val (take n st) x = Some y \<longleftrightarrow> table used key val st x = Some y" for x y
      unfolding sub table_Some [OF inj] by blast
    then show "table used key val (take n st) = table used key val st" by (rule map_eqI)
  qed
qed

section \<open>Undoing a sequence of operations\<close>

text \<open>
  One logged operation on the pair of tables. An insertion into a full table is left out: it
  moves the table to a new segment, which the log does not cover.
\<close>

inductive table_op :: "VSS \<times> VBBM \<Rightarrow> VSS \<times> VBBM \<Rightarrow> bool" where
  vss_ins: "vss_insert l v vb lk False vs = Some vs' \<Longrightarrow> l \<noteq> -1 \<Longrightarrow> vss_abs (seg vs) (l, v) = None \<Longrightarrow>
    currentSize (vss (seg vs)) \<noteq> capacity (vss (seg vs)) \<Longrightarrow> table_op (vs, bm) (vs', bm)"
| vss_rem: "vss_removeEntry l v fl vs = Some (vs', fl') \<Longrightarrow> table_op (vs, bm) (vs', bm)"
| vss_flag: "vss_setVBFlag l v flag vs = ret vs' \<Longrightarrow> table_op (vs, bm) (vs', bm)"
| vb_ins: "vb_insert l v oid fbo False bm = ret bm' \<Longrightarrow> l \<noteq> -1 \<Longrightarrow> vb_abs (vb_seg bm) (l, v) = None \<Longrightarrow>
    vbCurrentSize (vbbm (vb_seg bm)) \<noteq> vbCapacity (vbbm (vb_seg bm)) \<Longrightarrow> table_op (vs, bm) (vs, bm')"
| vb_rem: "vb_removeEntry l v bm = Some bm' \<Longrightarrow> table_op (vs, bm) (vs, bm')"
| drop: "vss_removeEntriesFromDB rng True vs bm = Some (vs', bm') \<Longrightarrow> table_op (vs, bm) (vs', bm')"

definition tables_inv :: "VSS \<times> VBBM \<Rightarrow> bool" where
  "tables_inv = (\<lambda>(vs, bm). vss_inv (seg vs) \<and> vb_inv (vb_seg bm))"

definition tables_ext :: "VSS \<times> VBBM \<Rightarrow> VSS \<times> VBBM \<Rightarrow> bool" where
  "tables_ext = (\<lambda>(vs, bm) (vs', bm'). undo_ext vs vs' \<and> vb_undo_ext bm bm')"

lemma vss_not_full: "vss_inv s \<Longrightarrow> currentSize (vss s) \<noteq> capacity (vss s) \<Longrightarrow> vss_count s < length (storage s)"
  unfolding vss_inv_def vss_count_def using card_live_ix_le [of entry_used "storage s"]
  by (auto dest: vss_wfD(1))

lemma vb_not_full:
  "vb_inv s \<Longrightarrow> vbCurrentSize (vbbm s) \<noteq> vbCapacity (vbbm s) \<Longrightarrow> vb_count s < length (vb_storage s)"
  unfolding vb_inv_def vb_count_def using card_live_ix_le [of vb_used "vb_storage s"]
  by (auto dest: vb_wfD(1))

lemma table_op_step:
  assumes "table_op p q" "tables_inv p"
  shows "tables_inv q \<and> tables_ext p q"
  using assms
proof cases
  case (vss_ins l v vb lk vs vs' bm)
  then have "vss_inv (seg vs)" using assms(2) by (simp add: tables_inv_def)
  from vss_insert_room [OF this vss_ins(4,5) vss_not_full [OF this vss_ins(6)], of vb lk False] vss_ins(3)
  have "vss_inv (seg vs')" by auto
  with vss_ins assms(2) vss_insert_undo [OF vss_ins(3,6)] show ?thesis by (simp add: tables_inv_def tables_ext_def)
next
  case (vss_rem l v fl vs vs' fl' bm)
  with assms(2) vss_removeEntry_ok [of vs l v fl] show ?thesis by (auto simp: tables_inv_def tables_ext_def)
next
  case (vss_flag l v flag vs vs' bm)
  with assms(2) vss_setVBFlag_ok [of vs l v flag] show ?thesis
    by (auto simp: tables_inv_def tables_ext_def split: option.splits)
next
  case (vb_ins l v oid fbo bm bm' vs)
  then have inv: "vb_inv (vb_seg bm)" using assms(2) by (simp add: tables_inv_def)
  have "vb_inv (vb_seg bm')" using vb_insert_room [OF inv vb_ins(4,5) vb_not_full [OF inv vb_ins(6)], of oid fbo False] vb_ins(3) by auto
  with vb_ins assms(2) vb_insert_undo [OF vb_ins(3,6)] show ?thesis by (simp add: tables_inv_def tables_ext_def)
next
  case (vb_rem l v bm bm' vs)
  with assms(2) vb_removeEntry_ok [of bm l v] show ?thesis by (auto simp: tables_inv_def tables_ext_def)
next
  case (drop rng vs bm vs' bm')
  with assms(2) vss_removeEntriesFromDB_ok [of vs bm rng] show ?thesis by (auto simp: tables_inv_def tables_ext_def)
qed

lemma table_ops:
  assumes "table_op\<^sup>*\<^sup>* p q" "tables_inv p"
  shows "tables_inv q \<and> tables_ext p q"
  using assms
proof (induction rule: rtranclp_induct)
  case base
  then show ?case by (simp add: tables_ext_def split_beta)
next
  case (step y z)
  then have y: "tables_inv y" "tables_ext p y" by auto
  with table_op_step [OF step.hyps(2) y(1)] show ?case
    by (auto simp: tables_ext_def intro: undo_ext_trans vb_undo_ext_trans)
qed



section \<open>The version table\<close>

text \<open>
  C2. What a query sees: for a table with its invariant and non-negative versions, \<open>lookup\<close>
  terminates and answers the newest version at or below the query's system change number
  among those that are not of another transaction in flight (and, on request, only those in
  the version buffer), with its buffer flag; \<open>ERR_SNAPSHOT_TOO_OLD\<close> when every such version is
  newer; and -1 when there is none.
\<close>

theorem vss_lookup_newest_visible:
  assumes "vss_wf s" and "0 \<le> currentScn q" and "\<And>v. vss_abs s (l, v) \<noteq> None \<Longrightarrow> 0 \<le> v"
  shows "vss_lookup l q txnID vbOnly s = Some (lookup_spec (vss_abs s) l q txnID vbOnly)"
  using assms by (rule vss_lookup_ok)

theorem vss_lookup_newest_visible_witness:
  "vss_lookup 7 \<lparr>currentScn = 10, txns = [5]\<rparr> 2 False ex_vss_seg = Some (0, 3, True)"
proof -
  have "vss_lookup 7 \<lparr>currentScn = 10, txns = [5]\<rparr> 2 False ex_vss_seg =
      Some (lookup_spec (vss_abs ex_vss_seg) 7 \<lparr>currentScn = 10, txns = [5]\<rparr> 2 False)"
    by (rule vss_lookup_newest_visible) (auto simp: ex_vss_abs split: if_splits)
  moreover have "visible (vss_abs ex_vss_seg) 7 \<lparr>currentScn = 10, txns = [5]\<rparr> 2 False = {3}"
    by (auto simp: visible_def ex_vss_abs split: if_splits)
  moreover have "{v. v = (3::int) \<and> v \<le> 10} = {3}" by auto
  ultimately show ?thesis by (simp add: lookup_spec_def Let_def ex_vss_abs)
qed

text \<open>
  C6. Inserting a version refines the map update, also when the table is full and has to be
  moved to a larger segment first, and keeps the table's invariant.
\<close>

theorem vss_insert_refines:
  assumes "vss_inv (seg st)" and "l \<noteq> -1" "vss_abs (seg st) (l, v) = None" and "allocdSize (vssShminfo st) \<noteq> 0"
  shows "\<exists>st'. vss_insert l v vb lk loading st = Some st' \<and> vss_inv (seg st') \<and>
    vss_abs (seg st') = (vss_abs (seg st))((l, v) \<mapsto> (vb, lk))"
  using assms by (rule vss_insert_ok)

theorem vss_insert_refines_witness:
  "\<exists>st'. vss_insert 4 6 True False False ex_vss = Some st' \<and> vss_inv (seg st') \<and>
    vss_abs (seg st') = (vss_abs ex_vss_seg)((4, 6) \<mapsto> (True, False))"
  using vss_insert_refines [of ex_vss 4 6 True False False] by (simp add: ex_vss_abs)

text \<open>
  C4. Removing a version: the entry goes, and when no other version of the block is in the
  version buffer or locked, all the block's remaining entries go with it and the block is
  reported for flushing; a version that is not in the table changes nothing. The operation
  always returns, keeps the invariant, and is covered by the undo log.
\<close>

theorem vss_removeEntry_refines:
  assumes "vss_inv (seg st)"
  shows "\<exists>st'. vss_removeEntry l v fl st = Some (st', fl @ snd (remove_spec l v (vss_abs (seg st)))) \<and>
    vss_inv (seg st') \<and> vss_abs (seg st') = fst (remove_spec l v (vss_abs (seg st))) \<and> undo_ext st st'"
  using assms by (rule vss_removeEntry_ok)

theorem vss_removeEntry_refines_witness:
  "\<exists>st'. vss_removeEntry 7 5 [1] ex_vss = Some (st', [1]) \<and> vss_abs (seg st') = [(7, 3) \<mapsto> (True, False)]"
proof -
  have "remove_spec 7 5 (vss_abs ex_vss_seg) = ([(7, 3) \<mapsto> (True, False)], [])"
    by (auto simp: remove_spec_def ex_vss_abs Let_def fun_eq_iff)
  with vss_removeEntry_refines [of ex_vss 7 5 "[1]"] show ?thesis by auto
qed

text \<open>
  C7. Commit clears the lock of every version the transaction wrote and changes nothing else.
\<close>

theorem vss_commit_refines:
  assumes "vss_inv (seg st)"
  shows "\<exists>st'. vss_commit txnID st = Some st' \<and> vss_inv (seg st') \<and>
    vss_abs (seg st') = commit_spec txnID (vss_abs (seg st))"
  using assms by (rule vss_commit_ok)

theorem vss_commit_refines_witness:
  "\<exists>st'. vss_commit 5 ex_vss = Some st' \<and> vss_abs (seg st') = [(7, 3) \<mapsto> (True, False), (7, 5) \<mapsto> (False, False)]"
proof -
  have "commit_spec 5 (vss_abs ex_vss_seg) = [(7, 3) \<mapsto> (True, False), (7, 5) \<mapsto> (False, False)]"
    by (auto simp: commit_spec_def ex_vss_abs fun_eq_iff)
  with vss_commit_refines [of ex_vss 5] show ?thesis by auto
qed

text \<open>
  C5. Dropping a range of blocks takes every version of those blocks out of the version
  table and out of the block map exactly the versions the version table has marked as being
  in the version buffer; both tables keep their invariants and both changes are logged.
\<close>

theorem removeEntriesFromDB_drops_range:
  assumes "vss_inv (seg st)" "vb_inv (vb_seg vb)"
  shows "\<exists>st' vb'. vss_removeEntriesFromDB rng True st vb = Some (st', vb') \<and> vss_inv (seg st') \<and>
    vb_inv (vb_seg vb') \<and> undo_ext st st' \<and> vb_undo_ext vb vb' \<and>
    dropped {range_start rng..<range_start rng + range_size rng} (seg st) (vb_seg vb) (seg st') (vb_seg vb')"
  using assms by (rule vss_removeEntriesFromDB_ok)

theorem removeEntriesFromDB_drops_range_witness:
  "\<exists>st' vb'. vss_removeEntriesFromDB \<lparr>range_start = 6, range_size = 2\<rparr> True ex_vss ex_vb = Some (st', vb') \<and>
    vss_abs (seg st') = Map.empty \<and> vb_abs (vb_seg vb') = [(8, 2) \<mapsto> (9, 199)]"
proof -
  from removeEntriesFromDB_drops_range [of ex_vss ex_vb "\<lparr>range_start = 6, range_size = 2\<rparr>"] obtain st' vb' where
    d: "vss_removeEntriesFromDB \<lparr>range_start = 6, range_size = 2\<rparr> True ex_vss ex_vb = Some (st', vb')"
       "dropped {6..<8} ex_vss_seg ex_vb_seg (seg st') (vb_seg vb')" by auto
  from d(2) have "vss_abs (seg st') = Map.empty" "vb_abs (vb_seg vb') = [(8, 2) \<mapsto> (9, 199)]"
    by (auto simp: dropped_def ex_vss_abs ex_vb_abs fun_eq_iff)
  with d(1) show ?thesis by blast
qed

text \<open>
  A block's current entry is locked when some version of it is locked and the version
  asked about is the newest committed one.
\<close>

theorem vss_isEntryLocked_spec:
  assumes "vss_wf s" and "l \<noteq> -1"
  shows "vss_isEntryLocked l v s =
    Some ((\<exists>x vb. vss_abs s (l, x) = Some (vb, True)) \<and>
      v = Max ({0} \<union> {x. \<exists>vb. vss_abs s (l, x) = Some (vb, False)}))"
  using assms by (rule vss_isEntryLocked_ok)

theorem vss_isEntryLocked_spec_witness: "vss_isEntryLocked 7 3 ex_vss_seg = Some True"
proof -
  have "{x. \<exists>vb. vss_abs ex_vss_seg (7, x) = Some (vb, False)} = {3}" by (auto simp: ex_vss_abs split: if_splits)
  moreover have "vss_abs ex_vss_seg (7, 5) = Some (False, True)" by (simp add: ex_vss_abs)
  ultimately show ?thesis using vss_isEntryLocked_spec [of ex_vss_seg 7 3] by auto
qed

text \<open>
  C8. Saving a table and loading the image into any other instance gives a table with the
  same contents and its invariant, whatever the order of the slots was.
\<close>

theorem vss_save_load_roundtrip:
  assumes "vss_inv s"
  shows "\<exists>f st'. vss_save s = Some f \<and> vss_load f st = ret st' \<and> vss_inv (seg st') \<and> vss_abs (seg st') = vss_abs s"
  using assms by (rule vss_save_load_ok)

theorem vss_save_load_roundtrip_witness:
  "\<exists>f st'. vss_save ex_vss_seg = Some f \<and> vss_load f ex_vss = ret st' \<and> vss_inv (seg st') \<and>
     vss_abs (seg st') = [(7, 3) \<mapsto> (True, False), (7, 5) \<mapsto> (False, True)]"
  using vss_save_load_roundtrip [of ex_vss_seg ex_vss] by (simp add: ex_vss_abs)



section \<open>The version buffer block map\<close>

text \<open>
  C9. Inserting into the block map refines the map update, also when the table has to grow,
  and the new entry is what a following lookup of its block and version answers.
\<close>

theorem vb_insert_lookup:
  assumes "vb_inv (vb_seg st)" and "0 \<le> l" "0 \<le> v" "vb_abs (vb_seg st) (l, v) = None"
    and "allocdSize (vbbmShminfo st) \<noteq> 0"
  shows "\<exists>st'. vb_insert l v oid fbo loading st = ret st' \<and> vb_inv (vb_seg st') \<and>
    vb_abs (vb_seg st') = (vb_abs (vb_seg st))((l, v) \<mapsto> (oid, fbo)) \<and> files (vb_seg st') = files (vb_seg st) \<and>
    vb_lookup l v (vb_seg st') = ret (Some (oid, fbo))"
proof -
  from assms vb_insert_ok [of st l v oid fbo loading] obtain st' where st': "vb_insert l v oid fbo loading st = ret st'"
    "vb_inv (vb_seg st')" "vb_abs (vb_seg st') = (vb_abs (vb_seg st))((l, v) \<mapsto> (oid, fbo))"
    "files (vb_seg st') = files (vb_seg st)" by auto
  moreover have "vb_lookup l v (vb_seg st') = ret (Some (oid, fbo))"
    using vb_lookup_ok [of "vb_seg st'" l v] st'(2,3) assms(2,3) by (simp add: vb_inv_def)
  ultimately show ?thesis by blast
qed

theorem vb_insert_lookup_witness:
  "\<exists>st'. vb_insert 4 1 9 120 False ex_vb = ret st' \<and> vb_lookup 4 1 (vb_seg st') = ret (Some (9, 120))"
  using vb_insert_lookup [of ex_vb 4 1 9 120 False] by (auto simp: ex_vb_abs)

text \<open>
  Removing an entry from the block map deletes exactly that entry and is covered by the
  undo log.
\<close>

theorem vb_removeEntry_refines:
  assumes "vb_inv (vb_seg st)"
  shows "\<exists>st'. vb_removeEntry l v st = Some st' \<and> vb_inv (vb_seg st') \<and>
    vb_abs (vb_seg st') = (vb_abs (vb_seg st))((l, v) := None) \<and> vb_undo_ext st st' \<and> files (vb_seg st') = files (vb_seg st)"
  using vb_removeEntry_ok [OF assms, of l v] by blast

theorem vb_removeEntry_refines_witness:
  "\<exists>st'. vb_removeEntry 7 3 ex_vb = Some st' \<and> vb_abs (vb_seg st') = [(8, 2) \<mapsto> (9, 199)]"
  using vb_removeEntry_refines [of ex_vb 7 3] by (auto simp: ex_vb_abs fun_upd_twist)



text \<open>
  C10. Saving the block map and loading the image into another instance gives the same
  entries and the same table of version buffer files.
\<close>

theorem vb_save_load_roundtrip:
  assumes "vb_inv s" and "vb_wf (vb_seg st)" and "vb_config st = Some c" "0 < c"
  shows "\<exists>f st'. vb_save s = Some f \<and> vb_load f st = ret st' \<and> vb_inv (vb_seg st') \<and>
    vb_abs (vb_seg st') = vb_abs s \<and> files (vb_seg st') = files s"
  using assms by (rule vb_save_load_ok)

theorem vb_save_load_roundtrip_witness:
  "\<exists>f st'. vb_save ex_vb_seg = Some f \<and> vb_load f ex_vb = ret st' \<and>
    vb_abs (vb_seg st') = [(7, 3) \<mapsto> (9, 150), (8, 2) \<mapsto> (9, 199)] \<and> files (vb_seg st') = files ex_vb_seg"
  using vb_save_load_roundtrip [of ex_vb_seg ex_vb 1] by (auto simp: ex_vb_abs)



text \<open>
  C13. Growing the block map copies the first \<open>vbCurrentSize\<close> slots: it keeps the recorded
  size, adds nothing, and keeps all entries exactly when no used slot lies above that many
  slots. After removals have left holes, an entry in a higher slot is lost.
\<close>

theorem growVBBM_keeps_iff_compact:
  assumes inv: "vb_inv (vb_seg st)" and "allocdSize (vbbmShminfo st) \<noteq> 0"
    and "addAFile \<Longrightarrow> 6 \<le> length (vb_hashBuckets (vb_seg st))"
  shows "\<exists>st'. growVBBM addAFile st = ret st' \<and> vb_wf (vb_seg st') \<and>
    vbCurrentSize (vbbm (vb_seg st')) = vbCurrentSize (vbbm (vb_seg st)) \<and>
    vb_abs (vb_seg st') \<subseteq>\<^sub>m vb_abs (vb_seg st) \<and>
    (vb_abs (vb_seg st') = vb_abs (vb_seg st) \<longleftrightarrow> vb_compact (vb_seg st))"
proof -
  let ?s = "vb_seg st" and ?es = "take (nat (vbCurrentSize (vbbm (vb_seg st)))) (vb_storage (vb_seg st))"
  from growVBBM_copy [OF assms refl] obtain st' where st': "growVBBM addAFile st = ret st'" "vb_wf (vb_seg st')"
    "vb_abs (vb_seg st') = table vb_used vb_key vb_val ?es"
    "vbCurrentSize (vbbm (vb_seg st')) = vbCurrentSize (vbbm ?s)" by blast
  have inj: "keys_inj vb_used vb_key (vb_storage ?s)" using inv vb_wfD(3) by (auto simp: vb_inv_def)
  note tab = table_take [OF inj, of vb_val]
  have "table vb_used vb_key vb_val ?es = vb_abs ?s \<longleftrightarrow> vb_compact ?s"
    unfolding vb_abs_def tab(2) by (auto simp: vb_compact_def live_ix_def)
  with st' tab(1) show ?thesis by (auto simp: vb_abs_def)
qed

theorem growVBBM_keeps_iff_compact_witness:
  "\<exists>st'. growVBBM False ex_vb = ret st' \<and> vbCurrentSize (vbbm (vb_seg st')) = 2 \<and>
    vb_abs (vb_seg st') \<noteq> vb_abs ex_vb_seg"
proof -
  have "\<not> vb_compact ex_vb_seg" by (auto simp: vb_compact_def ex_vb_seg_def vb_used_def intro!: exI [of _ 2])
  moreover have "vbCurrentSize (vbbm ex_vb_seg) = 2" by (simp add: ex_vb_seg_def)
  ultimately show ?thesis using growVBBM_keeps_iff_compact [of ex_vb False] by auto
qed

end
