(* ===== verification/CopyLocks.thy ===== *)
theory CopyLocks
  imports VSS "HOL-Library.Multiset"
begin

text \<open>
  The copy locks (\<open>versioning/BRM/copylocks.cpp\<close>): the shared array of block ranges that are
  being copied, each with the transaction that copies it. A slot is free when its size is 0.
  The table's contents are the multiset of its used entries.
\<close>

section \<open>Data and operations\<close>

record CopyLockEntry =
  cl_start :: LBID_t
  cl_size :: int
  cl_txnID :: VER_t

text \<open>
  The places the undo log saves: an entry, and the table's descriptor in the master segment
  table. A saved entry carries the key of the segment it points into.
\<close>

datatype cl_delta = cd_entry int nat CopyLockEntry | cd_shminfo MSTEntry

record CopyLocks =
  entries :: "CopyLockEntry list"
  cl_shminfo :: MSTEntry
  cl_undoRecords :: "cl_delta list"

definition sizeof_CopyLockEntry :: int where "sizeof_CopyLockEntry = 16"
definition CL_INITIAL_SIZE :: int where "CL_INITIAL_SIZE = 50 * sizeof_CopyLockEntry"
definition CL_INCREMENT :: int where "CL_INCREMENT = 50 * sizeof_CopyLockEntry"

definition empty_CopyLockEntry :: CopyLockEntry where
  "empty_CopyLockEntry = \<lparr>cl_start = 0, cl_size = 0, cl_txnID = 0\<rparr>"

definition cl_makeUndoRecord :: "cl_delta \<Rightarrow> CopyLocks \<Rightarrow> CopyLocks" where
  "cl_makeUndoRecord d st = st\<lparr>cl_undoRecords := cl_undoRecords st @ [d]\<rparr>"

fun cl_apply_delta :: "cl_delta \<Rightarrow> CopyLocks \<Rightarrow> CopyLocks" where
  "cl_apply_delta (cd_entry key i e) st = st\<lparr>entries := (entries st)[i := e]\<rparr>"
| "cl_apply_delta (cd_shminfo m) st = st\<lparr>cl_shminfo := m\<rparr>"

text \<open>Writing back an entry of a segment that has been replaced is a write to unmapped memory.\<close>

definition cl_undoChanges :: "CopyLocks \<Rightarrow> CopyLocks option" where
  "cl_undoChanges st =
     (if \<forall>d \<in> set (cl_undoRecords st). \<forall>key i e. d = cd_entry key i e \<longrightarrow> key = tableShmkey (cl_shminfo st)
      then Some ((foldr cl_apply_delta (cl_undoRecords st) st)\<lparr>cl_undoRecords := []\<rparr>)
      else None)"

definition cl_confirmChanges :: "CopyLocks \<Rightarrow> CopyLocks" where
  "cl_confirmChanges st = st\<lparr>cl_undoRecords := []\<rparr>"

definition cl_chooseShmkey :: "CopyLocks \<Rightarrow> int" where
  "cl_chooseShmkey st = choose_key KEYRANGE_CL_BASE (tableShmkey (cl_shminfo st))"

text \<open>The new segment holds the old entries, then zeroed ones.\<close>

definition growCL :: "CopyLocks \<Rightarrow> CopyLocks" where
  "growCL st =
     (let allocSize = (if allocdSize (cl_shminfo st) = 0 then CL_INITIAL_SIZE
                       else allocdSize (cl_shminfo st) + CL_INCREMENT);
          old = (if allocdSize (cl_shminfo st) = 0 then [] else entries st);
          newshmkey = cl_chooseShmkey st
      in cl_confirmChanges (st\<lparr>
           entries := old @ replicate (nat (allocSize div sizeof_CopyLockEntry) - length old) empty_CopyLockEntry,
           cl_shminfo := (cl_shminfo st)\<lparr>tableShmkey := newshmkey, allocdSize := allocSize\<rparr>\<rparr>))"

definition numEntries :: "CopyLocks \<Rightarrow> nat" where
  "numEntries st = nat (allocdSize (cl_shminfo st) div sizeof_CopyLockEntry)"

definition cl_used :: "CopyLockEntry \<Rightarrow> bool" where
  "cl_used e \<longleftrightarrow> cl_size e \<noteq> 0"

text \<open>The slots a loop over the entries visits; it is undefined beyond the end of the segment.\<close>

definition cl_slots :: "CopyLocks \<Rightarrow> CopyLockEntry list option" where
  "cl_slots st = (if numEntries st \<le> length (entries st) then Some (take (numEntries st) (entries st)) else None)"

definition cl_set_entry :: "nat \<Rightarrow> CopyLockEntry \<Rightarrow> int \<Rightarrow> CopyLocks \<Rightarrow> CopyLocks" where
  "cl_set_entry i e delta st =
     (let st1 = cl_makeUndoRecord (cd_entry (tableShmkey (cl_shminfo st)) i (entries st ! i)) st;
          st2 = st1\<lparr>entries := (entries st1)[i := e]\<rparr>;
          st3 = cl_makeUndoRecord (cd_shminfo (cl_shminfo st2)) st2
      in st3\<lparr>cl_shminfo := (cl_shminfo st3)\<lparr>mst_currentSize := mst_currentSize (cl_shminfo st3) + delta\<rparr>\<rparr>)"

definition cl_lockRange :: "LBIDRange \<Rightarrow> VER_t \<Rightarrow> CopyLocks \<Rightarrow> CopyLocks cpp" where
  "cl_lockRange l txnID st0 =
     (let st = (if mst_currentSize (cl_shminfo st0) = allocdSize (cl_shminfo st0) then growCL st0 else st0)
      in bind_cpp (defined (cl_slots st)) (\<lambda>es.
         case find (\<lambda>i. \<not> cl_used (es ! i)) [0..<length es] of
           None \<Rightarrow> throw logic_error
         | Some i \<Rightarrow> ret (cl_set_entry i \<lparr>cl_start = range_start l, cl_size = s32_of (range_size l), cl_txnID = txnID\<rparr>
                            sizeof_CopyLockEntry st)))"

text \<open>The intersection test of \<open>releaseRange\<close>, \<open>forceRelease\<close> and \<open>isLocked\<close>.\<close>

definition cl_overlaps :: "LBIDRange \<Rightarrow> CopyLockEntry \<Rightarrow> bool" where
  "cl_overlaps l e \<longleftrightarrow>
     range_start l \<le> cl_start e + cl_size e - 1 \<and> range_start l + range_size l - 1 \<ge> cl_start e"

text \<open>A loop over all slots that frees those with a property.\<close>

definition cl_free_slot :: "(CopyLockEntry \<Rightarrow> bool) \<Rightarrow> nat \<Rightarrow> CopyLocks \<Rightarrow> CopyLocks" where
  "cl_free_slot P i st =
     (let e = entries st ! i
      in if cl_used e \<and> P e then cl_set_entry i (e\<lparr>cl_size := 0\<rparr>) (- sizeof_CopyLockEntry) st else st)"

definition cl_free :: "(CopyLockEntry \<Rightarrow> bool) \<Rightarrow> CopyLocks \<Rightarrow> CopyLocks option" where
  "cl_free P st = Option.bind (cl_slots st) (\<lambda>es. Some (fold (cl_free_slot P) [0..<length es] st))"

definition cl_releaseRange :: "LBIDRange \<Rightarrow> CopyLocks \<Rightarrow> CopyLocks option" where
  "cl_releaseRange l st = cl_free (cl_overlaps l) st"

definition cl_forceRelease :: "LBIDRange \<Rightarrow> CopyLocks \<Rightarrow> CopyLocks option" where
  "cl_forceRelease l st = cl_free (cl_overlaps l) st"

definition cl_rollback :: "VER_t \<Rightarrow> CopyLocks \<Rightarrow> CopyLocks option" where
  "cl_rollback txnID st = cl_free (\<lambda>e. cl_txnID e = txnID) st"

definition cl_isLocked :: "LBIDRange \<Rightarrow> CopyLocks \<Rightarrow> bool option" where
  "cl_isLocked l st = map_option (\<lambda>es. \<exists>e \<in> set es. cl_used e \<and> cl_overlaps l e) (cl_slots st)"

definition cl_getCurrentTxnIDs :: "VER_t set \<Rightarrow> CopyLocks \<Rightarrow> VER_t set option" where
  "cl_getCurrentTxnIDs txnList st =
     map_option (\<lambda>es. txnList \<union> set (map cl_txnID (filter cl_used es))) (cl_slots st)"

section \<open>The invariant and the contents\<close>

definition cl_inv :: "CopyLocks \<Rightarrow> bool" where
  "cl_inv st \<longleftrightarrow> allocdSize (cl_shminfo st) = sizeof_CopyLockEntry * int (length (entries st)) \<and>
     mst_currentSize (cl_shminfo st) = sizeof_CopyLockEntry * int (length (filter cl_used (entries st)))"

definition cl_abs :: "CopyLocks \<Rightarrow> CopyLockEntry multiset" where
  "cl_abs st = mset (filter cl_used (entries st))"

lemma cl_abs_size: "size (cl_abs st) = length (filter cl_used (entries st))"
  unfolding cl_abs_def by (rule size_mset)

lemma cl_slots_inv [simp]: "cl_inv st \<Longrightarrow> cl_slots st = Some (entries st)"
  by (simp add: cl_inv_def cl_slots_def numEntries_def sizeof_CopyLockEntry_def)

text \<open>\<open>st'\<close> extends \<open>st\<close> by logged changes.\<close>

definition cl_undone :: "CopyLocks \<Rightarrow> CopyLocks" where
  "cl_undone st = (foldr cl_apply_delta (cl_undoRecords st) st)\<lparr>cl_undoRecords := []\<rparr>"

definition cl_log_ok :: "CopyLocks \<Rightarrow> bool" where
  "cl_log_ok st \<longleftrightarrow> (\<forall>d \<in> set (cl_undoRecords st). \<forall>key i e. d = cd_entry key i e \<longrightarrow> key = tableShmkey (cl_shminfo st))"

definition cl_undo_ext :: "CopyLocks \<Rightarrow> CopyLocks \<Rightarrow> bool" where
  "cl_undo_ext st st' \<longleftrightarrow> (cl_log_ok st \<longrightarrow> cl_log_ok st') \<and> cl_undone st' = cl_undone st"

lemma cl_undo_ext_refl [simp]: "cl_undo_ext st st"
  by (simp add: cl_undo_ext_def)

lemma cl_undo_ext_trans: "cl_undo_ext st st' \<Longrightarrow> cl_undo_ext st' st'' \<Longrightarrow> cl_undo_ext st st''"
  by (simp add: cl_undo_ext_def)

lemma cl_undoChanges_log: "cl_log_ok st \<Longrightarrow> cl_undoChanges st = Some (cl_undone st)"
  by (simp add: cl_undoChanges_def cl_undone_def cl_log_ok_def)

lemma foldr_cl_apply_log:
  "foldr cl_apply_delta ds (st\<lparr>cl_undoRecords := r\<rparr>) = (foldr cl_apply_delta ds st)\<lparr>cl_undoRecords := r\<rparr>"
proof (induction ds)
  case (Cons d ds)
  then show ?case by (cases d; cases "foldr cl_apply_delta ds st") simp_all
qed simp

lemma cl_set_entry_undo:
  assumes "i < length (entries st)"
  shows "cl_undo_ext st (cl_set_entry i e d st)"
proof -
  have eq: "cl_apply_delta (cd_entry key i (entries st ! i)) (cl_apply_delta (cd_shminfo (cl_shminfo st))
      (st\<lparr>entries := (entries st)[i := e], cl_undoRecords := r, cl_shminfo := m\<rparr>)) = st\<lparr>cl_undoRecords := r\<rparr>" for key r m
    using assms by (cases st) simp
  have "cl_set_entry i e d st = st\<lparr>entries := (entries st)[i := e],
      cl_undoRecords := cl_undoRecords st @ [cd_entry (tableShmkey (cl_shminfo st)) i (entries st ! i), cd_shminfo (cl_shminfo st)],
      cl_shminfo := (cl_shminfo st)\<lparr>mst_currentSize := mst_currentSize (cl_shminfo st) + d\<rparr>\<rparr>"
    by (cases st) (simp add: cl_set_entry_def cl_makeUndoRecord_def Let_def)
  then show ?thesis
    using eq by (auto simp: cl_undo_ext_def cl_log_ok_def cl_undone_def foldr_cl_apply_log)
qed

lemma cl_set_entry_simps [simp]:
  "entries (cl_set_entry i e d st) = (entries st)[i := e]"
  "cl_shminfo (cl_set_entry i e d st) = (cl_shminfo st)\<lparr>mst_currentSize := mst_currentSize (cl_shminfo st) + d\<rparr>"
  by (simp_all add: cl_set_entry_def cl_makeUndoRecord_def Let_def)

lemma mset_filter_update:
  assumes "i < length xs"
  shows "mset (filter P (xs[i := x])) + (if P (xs ! i) then {#xs ! i#} else {#}) =
    mset (filter P xs) + (if P x then {#x#} else {#})"
proof -
  have "mset (xs[i := x]) + {#xs ! i#} = mset xs + {#x#}"
    using assms by (simp add: mset_update)
  then have "filter_mset P (mset (xs[i := x]) + {#xs ! i#}) = filter_mset P (mset xs + {#x#})" by simp
  then show ?thesis by (simp split: if_splits)
qed

section \<open>Locking\<close>

lemma growCL_ok:
  assumes "cl_inv st" "allocdSize (cl_shminfo st) \<noteq> 0"
  shows "cl_inv (growCL st)" "cl_abs (growCL st) = cl_abs st"
    "length (entries (growCL st)) = length (entries st) + 50" "cl_undoRecords (growCL st) = []"
  using assms
  by (auto simp: growCL_def Let_def cl_inv_def cl_abs_def cl_confirmChanges_def cl_used_def empty_CopyLockEntry_def
      sizeof_CopyLockEntry_def CL_INCREMENT_def nat_add_distrib)

lemma cl_lockRange_ok:
  assumes inv: "cl_inv st" and alloc: "allocdSize (cl_shminfo st) \<noteq> 0"
    and size: "0 < range_size l" "range_size l < 2 ^ 31"
  shows "\<exists>st'. cl_lockRange l txnID st = ret st' \<and> cl_inv st' \<and> allocdSize (cl_shminfo st') \<noteq> 0 \<and>
    cl_abs st' = add_mset \<lparr>cl_start = range_start l, cl_size = range_size l, cl_txnID = txnID\<rparr> (cl_abs st) \<and>
    (mst_currentSize (cl_shminfo st) \<noteq> allocdSize (cl_shminfo st) \<longrightarrow> cl_undo_ext st st')"
proof -
  let ?full = "mst_currentSize (cl_shminfo st) = allocdSize (cl_shminfo st)"
  define s where "s = (if ?full then growCL st else st)"
  have s: "cl_inv s" "cl_abs s = cl_abs st" using growCL_ok [OF inv alloc] inv by (auto simp: s_def)
  have lt: "length (filter cl_used (entries s)) < length (entries s)"
  proof (cases ?full)
    case True
    then have "size (cl_abs st) = length (entries st)"
      using inv by (simp add: cl_inv_def cl_abs_size sizeof_CopyLockEntry_def)
    with True growCL_ok [OF inv alloc] show ?thesis by (simp add: s_def cl_abs_size [symmetric])
  next
    case False
    then have "length (filter cl_used (entries st)) \<noteq> length (entries st)"
      using inv by (simp add: cl_inv_def sizeof_CopyLockEntry_def)
    moreover have "length (filter cl_used (entries st)) \<le> length (entries st)" by (rule length_filter_le)
    ultimately have "length (filter cl_used (entries st)) < length (entries st)" by linarith
    then show ?thesis using False by (simp add: s_def)
  qed
  have "find (\<lambda>i. \<not> cl_used (entries s ! i)) [0..<length (entries s)] \<noteq> None"
  proof
    assume "find (\<lambda>i. \<not> cl_used (entries s ! i)) [0..<length (entries s)] = None"
    then have "filter cl_used (entries s) = entries s" by (auto simp: find_None_iff filter_id_conv in_set_conv_nth)
    with lt show False by simp
  qed
  then obtain i where i: "find (\<lambda>i. \<not> cl_used (entries s ! i)) [0..<length (entries s)] = Some i" by blast
  then have i': "i < length (entries s)" "\<not> cl_used (entries s ! i)" by (auto simp: find_Some_iff)
  let ?e = "\<lparr>cl_start = range_start l, cl_size = range_size l, cl_txnID = txnID\<rparr>"
  have "s32_of (range_size l) = range_size l" using size by (intro s32_id) auto
  then have eq: "cl_lockRange l txnID st = ret (cl_set_entry i ?e sizeof_CopyLockEntry s)"
    using s(1) i by (simp add: cl_lockRange_def Let_def s_def [symmetric])
  have used: "cl_used ?e" using size by (simp add: cl_used_def)
  have abs: "cl_abs (cl_set_entry i ?e sizeof_CopyLockEntry s) = add_mset ?e (cl_abs st)"
    using mset_filter_update [OF i'(1), of cl_used ?e] i'(2) used s(2) by (simp add: cl_abs_def)
  from arg_cong [OF this, of size] have "cl_inv (cl_set_entry i ?e sizeof_CopyLockEntry s)"
    using s by (simp add: cl_inv_def cl_abs_size [symmetric] algebra_simps) (simp add: cl_abs_size algebra_simps)
  moreover have "allocdSize (cl_shminfo s) \<noteq> 0" using s(1) i'(1) by (auto simp: cl_inv_def sizeof_CopyLockEntry_def)
  moreover have "\<not> ?full \<longrightarrow> cl_undo_ext st (cl_set_entry i ?e sizeof_CopyLockEntry s)"
    using cl_set_entry_undo [OF i'(1)] by (auto simp: s_def)
  ultimately show ?thesis using eq abs by simp
qed

section \<open>Releasing\<close>

lemma cl_free_fold:
  fixes P
  assumes "cl_inv st" "n \<le> length (entries st)"
  defines "st' \<equiv> fold (cl_free_slot P) [0..<n] st"
  shows "cl_inv st' \<and> cl_undo_ext st st' \<and> allocdSize (cl_shminfo st') = allocdSize (cl_shminfo st) \<and>
    entries st' = map (\<lambda>e. if cl_used e \<and> P e then e\<lparr>cl_size := 0\<rparr> else e) (take n (entries st)) @ drop n (entries st)"
  unfolding st'_def using assms(2)
proof (induction n)
  case 0
  then show ?case using assms(1) by simp
next
  case (Suc n)
  let ?f = "\<lambda>e. if cl_used e \<and> P e then e\<lparr>cl_size := 0\<rparr> else e"
  let ?s = "fold (cl_free_slot P) [0..<n] st" and ?e = "entries st ! n"
  from Suc have IH: "cl_inv ?s" "cl_undo_ext st ?s" "allocdSize (cl_shminfo ?s) = allocdSize (cl_shminfo st)"
    "entries ?s = map ?f (take n (entries st)) @ drop n (entries st)" by auto
  have n: "n < length (entries st)" "n < length (entries ?s)" using Suc.prems IH(4) by simp_all
  have en: "entries ?s ! n = ?e" using n(1) IH(4) by (simp add: nth_append)
  have upd: "(entries ?s)[n := ?f ?e] = map ?f (take (Suc n) (entries st)) @ drop (Suc n) (entries st)"
    using n(1) by (simp add: IH(4) take_Suc_conv_app_nth list_update_append Cons_nth_drop_Suc [symmetric])
  show ?case
  proof (cases "cl_used ?e \<and> P ?e")
    case True
    let ?t = "cl_set_entry n (?e\<lparr>cl_size := 0\<rparr>) (- sizeof_CopyLockEntry) ?s"
    have eq: "fold (cl_free_slot P) [0..<Suc n] st = ?t"
      using True en by (simp add: cl_free_slot_def Let_def)
    have "mset (filter cl_used (entries ?t)) + {#?e#} = mset (filter cl_used (entries ?s))"
      using mset_filter_update [OF n(2), of cl_used "?e\<lparr>cl_size := 0\<rparr>"] True en by (simp add: cl_used_def)
    from arg_cong [OF this, of size] have "length (filter cl_used (entries ?s)) = Suc (length (filter cl_used (entries ?t)))"
      by (simp del: cl_set_entry_simps mset_filter)
    then have "cl_inv ?t" using IH(1) by (simp add: cl_inv_def algebra_simps)
    moreover have "cl_undo_ext st ?t" using IH(2) cl_set_entry_undo [OF n(2)] by (rule cl_undo_ext_trans)
    moreover have "entries ?t = map ?f (take (Suc n) (entries st)) @ drop (Suc n) (entries st)"
      using upd True by simp
    ultimately show ?thesis unfolding eq using IH(3) by simp
  next
    case False
    then have eq: "fold (cl_free_slot P) [0..<Suc n] st = ?s" using en by (auto simp: cl_free_slot_def Let_def)
    have "(entries ?s)[n := ?f ?e] = entries ?s" using False en by (auto simp: list_update_same_conv n)
    then show ?thesis unfolding eq using IH upd by simp
  qed
qed

lemma cl_free_ok:
  assumes "cl_inv st"
  shows "\<exists>st'. cl_free P st = Some st' \<and> cl_inv st' \<and> cl_undo_ext st st' \<and>
    allocdSize (cl_shminfo st') = allocdSize (cl_shminfo st) \<and> cl_abs st' = filter_mset (\<lambda>e. \<not> P e) (cl_abs st)"
proof -
  let ?f = "\<lambda>e. if cl_used e \<and> P e then e\<lparr>cl_size := 0\<rparr> else e"
  let ?t = "fold (cl_free_slot P) [0..<length (entries st)] st"
  have "filter cl_used (map ?f es) = filter (\<lambda>e. \<not> P e) (filter cl_used es)" for es
    by (induction es) (auto simp: cl_used_def)
  moreover note t = cl_free_fold [OF assms order.refl, of P]
  ultimately have "cl_abs ?t = filter_mset (\<lambda>e. \<not> P e) (cl_abs st)" by (simp add: cl_abs_def del: filter_filter)
  with t assms show ?thesis by (simp add: cl_free_def)
qed

lemma cl_isLocked_ok: "cl_inv st \<Longrightarrow> cl_isLocked l st = Some (\<exists>e \<in># cl_abs st. cl_overlaps l e)"
  by (auto simp: cl_isLocked_def cl_abs_def)

text \<open>The blocks of a range and of a lock.\<close>

definition range_blocks :: "LBIDRange \<Rightarrow> LBID_t set" where
  "range_blocks l = {range_start l ..< range_start l + range_size l}"

definition lock_blocks :: "CopyLockEntry \<Rightarrow> LBID_t set" where
  "lock_blocks e = {cl_start e ..< cl_start e + cl_size e}"

text \<open>For a non-empty range and a non-empty lock the test is that they share a block.\<close>

lemma cl_overlaps_blocks:
  "0 < range_size l \<Longrightarrow> 0 < cl_size e \<Longrightarrow> cl_overlaps l e \<longleftrightarrow> range_blocks l \<inter> lock_blocks e \<noteq> {}"
proof -
  assume s: "0 < range_size l" "0 < cl_size e"
  have "cl_overlaps l e \<longleftrightarrow> max (range_start l) (cl_start e) \<in> range_blocks l \<inter> lock_blocks e"
    using s by (auto simp: cl_overlaps_def range_blocks_def lock_blocks_def)
  moreover have "x \<in> range_blocks l \<inter> lock_blocks e \<Longrightarrow> cl_overlaps l e" for x
    by (auto simp: cl_overlaps_def range_blocks_def lock_blocks_def)
  ultimately show ?thesis by blast
qed

end
