(* ===== verification/SlaveNode.thy ===== *)
theory SlaveNode
  imports CopyLocks VBBM_Blocks VSS_VBBM
begin

text \<open>
  The worker node's version buffer operations (\<open>versioning/BRM/slavedbrmnode.cpp\<close>): recording a
  block's old version before it is overwritten, the copy locks around it, commit, rollback
  and the confirmation or undoing of what an operation did to the three tables.
\<close>

section \<open>State\<close>

record SlaveDBRMNode =
  sn_vbbm :: VBBM
  sn_vss :: VSS
  copylocks :: CopyLocks
  locked_vbbm :: bool
  locked_vss :: bool
  locked_cl :: bool

definition ERR_VBBM_OVERFLOW :: int where "ERR_VBBM_OVERFLOW = 8"
definition ERR_OLDTXN_OVERWRITING_NEWTXN :: int where "ERR_OLDTXN_OVERWRITING_NEWTXN = 17"

text \<open>
  \<open>lock(WRITE)\<close> takes the table's process-shared lock and maps the current segment, creating it
  when there is none; what an operation sees of it is the \<open>locked\<close> flag. A handler
  \<open>catch (exception &e)\<close> that returns -1: the tables stay as the throwing call found them
  (the calls below throw before they change a table that has a segment).
\<close>

definition try_or_fail :: "'a cpp \<Rightarrow> SlaveDBRMNode \<Rightarrow> ('a \<Rightarrow> (int \<times> SlaveDBRMNode) option) \<Rightarrow> (int \<times> SlaveDBRMNode) option" where
  "try_or_fail m sn f = (case m of None \<Rightarrow> None | Some (Inl _) \<Rightarrow> Some (-1, sn) | Some (Inr x) \<Rightarrow> f x)"

lemma try_or_fail_ret [simp]: "try_or_fail (ret x) sn f = f x" "try_or_fail (throw e) sn f = Some (-1, sn)"
  by (simp_all add: try_or_fail_def ret_def throw_def)

section \<open>Operations\<close>

definition writeVBEntry :: "VER_t \<Rightarrow> LBID_t \<Rightarrow> OID_t \<Rightarrow> int \<Rightarrow> SlaveDBRMNode \<Rightarrow> (int \<times> SlaveDBRMNode) option" where
  "writeVBEntry transID l vboid vbfbo sn0 =
     (let sn = sn0\<lparr>locked_vbbm := True, locked_vss := True\<rparr>
      in Option.bind (vss_getCurrentVersion l (seg (sn_vss sn))) (\<lambda>(oldVerID, _).
         if oldVerID = transID then Some (0, sn)
         else if oldVerID > transID then Some (ERR_OLDTXN_OVERWRITING_NEWTXN, sn)
         else try_or_fail (vb_insert l oldVerID vboid vbfbo False (sn_vbbm sn)) sn (\<lambda>vb.
              let sn1 = sn\<lparr>sn_vbbm := vb\<rparr>
              in try_or_fail (if oldVerID > 0 then vss_setVBFlag l oldVerID True (sn_vss sn1)
                              else defined (vss_insert l oldVerID True False False (sn_vss sn1))) sn1 (\<lambda>vs.
                 let sn2 = sn1\<lparr>sn_vss := vs\<rparr>
                 in Option.bind (vss_insert l transID False True False (sn_vss sn2)) (\<lambda>vs'.
                    Some (0, sn2\<lparr>sn_vss := vs'\<rparr>))))))"

definition vbCommit :: "VER_t \<Rightarrow> SlaveDBRMNode \<Rightarrow> (int \<times> SlaveDBRMNode) option" where
  "vbCommit transID sn =
     Option.bind (vss_commit transID (sn_vss sn)) (\<lambda>vs. Some (0, sn\<lparr>locked_vss := True, sn_vss := vs\<rparr>))"

text \<open>One block of \<open>vbRollback\<close>; \<^term>\<open>Inl\<close> of the tables when \<open>setVBFlag\<close> throws.\<close>

definition rollback_block ::
  "VER_t \<Rightarrow> LBID_t \<Rightarrow> VSS \<times> VBBM \<times> LBID_t list \<Rightarrow> (VSS \<times> VBBM + VSS \<times> VBBM \<times> LBID_t list) option"
where
  "rollback_block transID l = (\<lambda>(vs, vb, flushList).
     Option.bind (vss_getHighestVerInVB l transID (seg vs)) (\<lambda>oldVerID.
     Option.bind (if oldVerID \<noteq> -1
        then Option.bind (vb_removeEntry l oldVerID vb) (\<lambda>vb'.
             map_option (case_sum (\<lambda>_. Inl (vs, vb')) (\<lambda>vs'. Inr (vs', vb'))) (vss_setVBFlag l oldVerID False vs))
        else Some (Inr (vs, vb))) (\<lambda>out.
       case out of
         Inl t \<Rightarrow> Some (Inl t)
       | Inr (vs', vb') \<Rightarrow> Option.bind (vss_removeEntry l transID flushList vs') (\<lambda>(vs'', flushList').
                             Some (Inr (vs'', vb', flushList'))))))"

fun rollback_blocks ::
  "VER_t \<Rightarrow> LBID_t list \<Rightarrow> VSS \<times> VBBM \<times> LBID_t list \<Rightarrow> (VSS \<times> VBBM + VSS \<times> VBBM \<times> LBID_t list) option"
where
  "rollback_blocks transID [] s = Some (Inr s)"
| "rollback_blocks transID (l # ls) s =
     Option.bind (rollback_block transID l s) (\<lambda>out.
       case out of Inl t \<Rightarrow> Some (Inl t) | Inr s' \<Rightarrow> rollback_blocks transID ls s')"

text \<open>
  \<open>vbRollback\<close> over a list of blocks answers the return code, the node and the blocks handed to
  \<open>cacheutils::flushPrimProcAllverBlocks\<close>; the overload on ranges visits the ranges' blocks.
\<close>

definition vbRollback :: "VER_t \<Rightarrow> LBID_t list \<Rightarrow> SlaveDBRMNode \<Rightarrow> (int \<times> SlaveDBRMNode \<times> LBID_t list) option" where
  "vbRollback transID lbidList sn0 =
     (let sn = sn0\<lparr>locked_vbbm := True, locked_vss := True, locked_cl := True\<rparr>
      in Option.bind (cl_rollback transID (copylocks sn)) (\<lambda>cl.
         Option.bind (rollback_blocks transID lbidList (sn_vss sn, sn_vbbm sn, [])) (\<lambda>out.
           case out of
             Inl (vs, vb) \<Rightarrow> Some (-1, sn\<lparr>copylocks := cl, sn_vss := vs, sn_vbbm := vb\<rparr>, [])
           | Inr (vs, vb, flushList) \<Rightarrow> Some (0, sn\<lparr>copylocks := cl, sn_vss := vs, sn_vbbm := vb\<rparr>, flushList))))"

definition vbRollback_ranges :: "VER_t \<Rightarrow> LBIDRange list \<Rightarrow> SlaveDBRMNode \<Rightarrow> (int \<times> SlaveDBRMNode \<times> LBID_t list) option" where
  "vbRollback_ranges transID rs =
     vbRollback transID (concat (map (\<lambda>r. map (\<lambda>i. range_start r + int i) [0..<nat (range_size r)]) rs))"

fun release_all :: "LBIDRange list \<Rightarrow> CopyLocks \<Rightarrow> CopyLocks option" where
  "release_all [] cl = Some cl"
| "release_all (r # rs) cl = Option.bind (cl_releaseRange r cl) (release_all rs)"

definition endVBCopy :: "LBIDRange list \<Rightarrow> SlaveDBRMNode \<Rightarrow> (int \<times> SlaveDBRMNode) option" where
  "endVBCopy ranges sn =
     Option.bind (release_all ranges (copylocks sn)) (\<lambda>cl. Some (0, sn\<lparr>locked_cl := True, copylocks := cl\<rparr>))"

definition sn_confirmChanges :: "SlaveDBRMNode \<Rightarrow> SlaveDBRMNode" where
  "sn_confirmChanges sn =
     sn\<lparr>sn_vbbm := (if locked_vbbm sn then vb_confirmChanges (sn_vbbm sn) else sn_vbbm sn),
        sn_vss := (if locked_vss sn then vss_confirmChanges (sn_vss sn) else sn_vss sn),
        copylocks := (if locked_cl sn then cl_confirmChanges (copylocks sn) else copylocks sn),
        locked_vbbm := False, locked_vss := False, locked_cl := False\<rparr>"

definition sn_undoChanges :: "SlaveDBRMNode \<Rightarrow> SlaveDBRMNode option" where
  "sn_undoChanges sn =
     Option.bind (if locked_vbbm sn then vb_undoChanges (sn_vbbm sn) else Some (sn_vbbm sn)) (\<lambda>vb.
     Option.bind (if locked_vss sn then vss_undoChanges (sn_vss sn) else Some (sn_vss sn)) (\<lambda>vs.
     Option.bind (if locked_cl sn then cl_undoChanges (copylocks sn) else Some (copylocks sn)) (\<lambda>cl.
       Some (sn\<lparr>sn_vbbm := vb, sn_vss := vs, copylocks := cl,
                locked_vbbm := False, locked_vss := False, locked_cl := False\<rparr>))))"

section \<open>Taking the copy locks\<close>

text \<open>
  One pass over the requested ranges, each with its \<open>lockedRanges\<close> flag: the ranges that nobody
  holds are locked. \<^term>\<open>Inl\<close> of flags and table when \<open>lockRange\<close> throws.
\<close>

fun lock_pass ::
  "VER_t \<Rightarrow> (LBIDRange \<times> bool) list \<Rightarrow> CopyLocks \<Rightarrow>
    ((LBIDRange \<times> bool) list \<times> CopyLocks + (LBIDRange \<times> bool) list \<times> CopyLocks) option"
where
  "lock_pass transID [] cl = Some (Inr ([], cl))"
| "lock_pass transID ((r, held) # rs) cl =
     Option.bind (if held then Some (Inr (True, cl))
        else Option.bind (cl_isLocked r cl) (\<lambda>lk.
          if lk then Some (Inr (False, cl))
          else map_option (case_sum (\<lambda>_. Inl ()) (\<lambda>cl'. Inr (True, cl'))) (cl_lockRange r transID cl)))
     (\<lambda>out. case out of
         Inl _ \<Rightarrow> Some (Inl ((r, held) # rs, cl))
       | Inr (b, cl') \<Rightarrow> map_option (map_sum (apfst (Cons (r, b))) (apfst (Cons (r, b)))) (lock_pass transID rs cl'))"

text \<open>The ranges still missing after the last retry are taken by force.\<close>

fun force_pass ::
  "VER_t \<Rightarrow> (LBIDRange \<times> bool) list \<Rightarrow> CopyLocks \<Rightarrow>
    ((LBIDRange \<times> bool) list \<times> CopyLocks + (LBIDRange \<times> bool) list \<times> CopyLocks) option"
where
  "force_pass transID [] cl = Some (Inr ([], cl))"
| "force_pass transID ((r, held) # rs) cl =
     Option.bind (if held then Some (Inr cl)
        else Option.bind (cl_forceRelease r cl) (\<lambda>cl1.
          map_option (case_sum (\<lambda>_. Inl cl1) (\<lambda>cl2. Inr cl2)) (cl_lockRange r transID cl1)))
     (\<lambda>out. case out of
         Inl cl' \<Rightarrow> Some (Inl ((r, held) # rs, cl'))
       | Inr cl' \<Rightarrow> map_option (map_sum (apfst (Cons (r, True))) (apfst (Cons (r, True)))) (force_pass transID rs cl'))"

text \<open>
  The retry loop, with the number of retries left. While the node sleeps it holds no lock:
  \<open>env n\<close> is what other processes do to the tables during the sleep that leaves \<open>n\<close> retries.
\<close>

fun lock_retry ::
  "(nat \<Rightarrow> SlaveDBRMNode \<Rightarrow> SlaveDBRMNode) \<Rightarrow> VER_t \<Rightarrow> nat \<Rightarrow> (LBIDRange \<times> bool) list \<Rightarrow> SlaveDBRMNode \<Rightarrow>
    ((LBIDRange \<times> bool) list \<times> SlaveDBRMNode + (LBIDRange \<times> bool) list \<times> SlaveDBRMNode) option"
where
  "lock_retry env transID 0 rs sn =
     map_option (map_sum (\<lambda>(rs', cl). (rs', sn\<lparr>copylocks := cl\<rparr>)) (\<lambda>(rs', cl). (rs', sn\<lparr>copylocks := cl\<rparr>)))
       (force_pass transID rs (copylocks sn))"
| "lock_retry env transID (Suc n) rs sn =
     Option.bind (lock_pass transID rs (copylocks sn)) (\<lambda>out.
       case out of
         Inl (rs', cl) \<Rightarrow> Some (Inl (rs', sn\<lparr>copylocks := cl\<rparr>))
       | Inr (rs', cl) \<Rightarrow>
           let sn' = sn\<lparr>copylocks := cl\<rparr>
           in if \<forall>(r, held) \<in> set rs'. held then Some (Inr (rs', sn'))
              else lock_retry env transID n rs' (env n sn'))"

definition maxRetries :: nat where
  "maxRetries = (60 * 1000000) div 50000"

definition held_ranges :: "(LBIDRange \<times> bool) list \<Rightarrow> LBIDRange list" where
  "held_ranges rs = map fst (filter snd rs)"

fun any_vss_locked :: "LBIDRange list \<Rightarrow> VER_t \<Rightarrow> VSSShmseg \<Rightarrow> bool option" where
  "any_vss_locked [] transID s = Some False"
| "any_vss_locked (r # rs) transID s =
     Option.bind (vss_isLocked r transID s) (\<lambda>lk. if lk then Some True else any_vss_locked rs transID s)"

text \<open>
  \<open>beginVBCopy\<close> answers the return code, the free ranges and the node. Both handlers release the
  ranges locked so far.
\<close>

definition fail_copy :: "int \<Rightarrow> (LBIDRange \<times> bool) list \<Rightarrow> SlaveDBRMNode \<Rightarrow> (int \<times> VBRange list \<times> SlaveDBRMNode) option" where
  "fail_copy code rs sn =
     Option.bind (release_all (held_ranges rs) (copylocks sn)) (\<lambda>cl. Some (code, [], sn\<lparr>copylocks := cl\<rparr>))"

definition beginVBCopy ::
  "(nat \<Rightarrow> SlaveDBRMNode \<Rightarrow> SlaveDBRMNode) \<Rightarrow> VER_t \<Rightarrow> OID_t \<Rightarrow> LBIDRange list \<Rightarrow> SlaveDBRMNode \<Rightarrow>
    (int \<times> VBRange list \<times> SlaveDBRMNode) option"
where
  "beginVBCopy env transID vboid ranges sn0 =
     (let sum = sum_list (map range_size ranges);
          sn = sn0\<lparr>locked_vbbm := True, locked_vss := True\<rparr>
      in Option.bind (any_vss_locked ranges transID (seg (sn_vss sn))) (\<lambda>lk.
         if lk then Some (-1, [], sn)
         else Option.bind (lock_retry env transID maxRetries (map (\<lambda>r. (r, False)) ranges) (sn\<lparr>locked_cl := True\<rparr>)) (\<lambda>out.
           case out of
             Inl (rs, sn1) \<Rightarrow> fail_copy (-1) rs sn1
           | Inr (rs, sn1) \<Rightarrow>
               (case vb_getBlocks (s32_of sum) vboid (sn_vss sn1) (sn_vbbm sn1) of
                  None \<Rightarrow> None
                | Some (Inl _) \<Rightarrow> fail_copy (-1) rs sn1
                | Some (Inr (None, vs, vb, _)) \<Rightarrow> fail_copy ERR_VBBM_OVERFLOW rs (sn1\<lparr>sn_vss := vs, sn_vbbm := vb\<rparr>)
                | Some (Inr (Some freeList, vs, vb, _)) \<Rightarrow> Some (0, freeList, sn1\<lparr>sn_vss := vs, sn_vbbm := vb\<rparr>)))))"

text \<open>The same locking without an allocation.\<close>

definition dmlLockLBIDRanges ::
  "(nat \<Rightarrow> SlaveDBRMNode \<Rightarrow> SlaveDBRMNode) \<Rightarrow> LBIDRange list \<Rightarrow> VER_t \<Rightarrow> SlaveDBRMNode \<Rightarrow> (int \<times> SlaveDBRMNode) option"
where
  "dmlLockLBIDRanges env ranges txnID sn0 =
     Option.bind (lock_retry env txnID maxRetries (map (\<lambda>r. (r, False)) ranges) (sn0\<lparr>locked_cl := True\<rparr>)) (\<lambda>out.
       case out of
         Inl (rs, sn) \<Rightarrow> map_option (\<lambda>(code, _, sn'). (code, sn')) (fail_copy (-1) rs sn)
       | Inr (rs, sn) \<Rightarrow> Some (0, sn))"

definition dmlReleaseLBIDRanges :: "LBIDRange list \<Rightarrow> SlaveDBRMNode \<Rightarrow> (int \<times> SlaveDBRMNode) option" where
  "dmlReleaseLBIDRanges ranges sn =
     Option.bind (release_all ranges (copylocks sn)) (\<lambda>cl. Some (0, sn\<lparr>locked_cl := True, copylocks := cl\<rparr>))"

definition sn_clear :: "SlaveDBRMNode \<Rightarrow> (int \<times> SlaveDBRMNode) option" where
  "sn_clear sn =
     try_or_fail (vb_clear (sn_vbbm sn)) sn (\<lambda>vb.
       Some (0, sn\<lparr>sn_vbbm := vb, sn_vss := vss_clear (sn_vss sn)\<rparr>))"

end
