(* ===== verification/SlaveNode_Props.thy ===== *)
theory SlaveNode_Props
  imports SlaveNode
begin

text \<open>
  What the worker node's operations do to the versions of a block. A block's state is the
  pair of its column in the version table and its column in the block map; recording an old
  version and rolling it back are functions on such pairs, and each operation of the node
  changes only the blocks it names.
\<close>

section \<open>The versions of one block\<close>

type_synonym blk = "(VER_t \<rightharpoonup> bool \<times> bool) \<times> (VER_t \<rightharpoonup> OID_t \<times> int)"

definition blk :: "SlaveDBRMNode \<Rightarrow> LBID_t \<Rightarrow> blk" where
  "blk sn l = (\<lambda>v. vss_abs (seg (sn_vss sn)) (l, v), \<lambda>v. vb_abs (vb_seg (sn_vbbm sn)) (l, v))"

text \<open>
  The version protocol. Versions and the transactions that hold locks are numbered from 0
  and from 1; a version is in the block map exactly when it is marked as such, and then it
  is not locked; the version outside the version buffer is the newest; a block with
  versions has such a current version and an older one in the version buffer (otherwise its
  entries would have been dropped).
\<close>

definition blk_ok :: "blk \<Rightarrow> bool" where
  "blk_ok = (\<lambda>(m, b).
     (\<forall>v vb lk. m v = Some (vb, lk) \<longrightarrow> 0 \<le> v \<and> (lk \<longrightarrow> 0 < v \<and> \<not> vb)) \<and>
     (\<forall>v. (\<exists>lk. m v = Some (True, lk)) \<longleftrightarrow> b v \<noteq> None) \<and>
     (\<forall>v lk v' x. m v = Some (False, lk) \<longrightarrow> m v' = Some x \<longrightarrow> v' \<le> v) \<and>
     (m \<noteq> Map.empty \<longrightarrow> (\<exists>v lk. m v = Some (False, lk)) \<and> (\<exists>v lk. m v = Some (True, lk))))"

text \<open>The version \<open>getCurrentVersion\<close> finds: the one outside the version buffer, 0 when there is none.\<close>

definition is_current :: "(VER_t \<rightharpoonup> bool \<times> bool) \<Rightarrow> VER_t \<Rightarrow> bool" where
  "is_current m v \<longleftrightarrow> (if m = Map.empty then v = 0 else \<exists>lk. m v = Some (False, lk))"

definition no_lock :: "(VER_t \<rightharpoonup> bool \<times> bool) \<Rightarrow> bool" where
  "no_lock m \<longleftrightarrow> (\<forall>v vb. m v \<noteq> Some (vb, True))"

definition write_blk :: "VER_t \<Rightarrow> VER_t \<Rightarrow> OID_t \<times> int \<Rightarrow> blk \<Rightarrow> blk" where
  "write_blk old t p = (\<lambda>(m, b). (m(old \<mapsto> (True, False), t \<mapsto> (False, True)), b(old \<mapsto> p)))"

definition highest_vb :: "VER_t \<Rightarrow> (VER_t \<rightharpoonup> bool \<times> bool) \<Rightarrow> VER_t" where
  "highest_vb t m = Max ({-1} \<union> {v. (\<exists>lk. m v = Some (True, lk)) \<and> v \<le> t})"

definition drop_version :: "VER_t \<Rightarrow> (VER_t \<rightharpoonup> bool \<times> bool) \<Rightarrow> (VER_t \<rightharpoonup> bool \<times> bool)" where
  "drop_version t m =
     (if m t = None then m
      else if \<exists>v vb lk. v \<noteq> t \<and> m v = Some (vb, lk) \<and> (vb \<or> lk) then m(t := None) else Map.empty)"

definition rollback_blk :: "VER_t \<Rightarrow> blk \<Rightarrow> blk" where
  "rollback_blk t = (\<lambda>(m, b).
     let old = highest_vb t m
     in if old = -1 then (drop_version t m, b)
        else (drop_version t (m(old \<mapsto> (False, snd (the (m old))))), b(old := None)))"

lemma blk_ok_None: "blk_ok (m, b) \<Longrightarrow> b v = None \<longleftrightarrow> (\<forall>lk. m v \<noteq> Some (True, lk))"
  unfolding blk_ok_def prod.case by blast

lemma blk_ok_newest: "blk_ok (m, b) \<Longrightarrow> m v = Some (False, lk) \<Longrightarrow> m v' = Some x \<Longrightarrow> v' \<le> v"
  unfolding blk_ok_def prod.case by blast

lemma blk_ok_vb: "blk_ok (m, b) \<Longrightarrow> m v = Some x \<Longrightarrow> \<exists>v' lk. m v' = Some (True, lk)"
  unfolding blk_ok_def prod.case by force

lemma blk_ok_range: "blk_ok (m, b) \<Longrightarrow> m v = Some (vb, lk) \<Longrightarrow> 0 \<le> v \<and> (lk \<longrightarrow> 0 < v \<and> \<not> vb)"
  unfolding blk_ok_def prod.case by blast

lemma blk_ok_current: "blk_ok (m, b) \<Longrightarrow> m v = Some x \<Longrightarrow> \<exists>v' lk. m v' = Some (False, lk)"
  unfolding blk_ok_def prod.case by force

lemma blk_okI:
  assumes "\<And>v vb lk. m v = Some (vb, lk) \<Longrightarrow> 0 \<le> v \<and> (lk \<longrightarrow> 0 < v \<and> \<not> vb)"
    and "\<And>v. b v = None \<longleftrightarrow> (\<forall>lk. m v \<noteq> Some (True, lk))"
    and "\<And>v lk v' x. m v = Some (False, lk) \<Longrightarrow> m v' = Some x \<Longrightarrow> v' \<le> v"
    and "\<And>v x. m v = Some x \<Longrightarrow> (\<exists>v lk. m v = Some (False, lk)) \<and> (\<exists>v lk. m v = Some (True, lk))"
  shows "blk_ok (m, b)"
proof -
  have "(\<exists>lk. m v = Some (True, lk)) \<longleftrightarrow> b v \<noteq> None" for v
    using assms(2) [of v] by (simp only: not_all not_not simp_thms)
  moreover have "(\<exists>v lk. m v = Some (False, lk)) \<and> (\<exists>v lk. m v = Some (True, lk))" if "m \<noteq> Map.empty"
  proof -
    from that obtain v x where "m v = Some x" by fastforce
    then show ?thesis by (rule assms(4))
  qed
  ultimately show ?thesis unfolding blk_ok_def prod.case using assms(1,3) by blast
qed

lemma blk_ok_finite: "finite (dom m) \<Longrightarrow> finite {v. (\<exists>lk. m v = Some (True, lk)) \<and> v \<le> (t::VER_t)}"
  by (rule finite_subset [of _ "dom m"]) auto

text \<open>Rolling a write back gives the block its old versions.\<close>

lemma rollback_write:
  assumes ok: "blk_ok (m, b)" and cur: "is_current m old" and t: "old < t" and nl: "no_lock m" and fin: "finite (dom m)"
  shows "rollback_blk t (write_blk old t p (m, b)) = (m, b)"
proof -
  let ?m = "m(old \<mapsto> (True, False), t \<mapsto> (False, True))"
  have old0: "0 \<le> old" using ok cur by (auto simp: blk_ok_def is_current_def split: if_splits)
  have le: "v \<le> old" if "m v = Some x" for v x
    using ok cur that by (auto simp: blk_ok_def is_current_def split: if_splits)
  have mt: "m t = None" using le [of t] t by (cases "m t") auto
  have high: "highest_vb t ?m = old"
    unfolding highest_vb_def
  proof (rule Max_eqI)
    show "finite ({-1} \<union> {v. (\<exists>lk. ?m v = Some (True, lk)) \<and> v \<le> t})"
      using blk_ok_finite [of ?m t] fin by simp
    show "y \<le> old" if "y \<in> {-1} \<union> {v. (\<exists>lk. ?m v = Some (True, lk)) \<and> v \<le> t}" for y
      using that old0 le by (auto split: if_splits)
    show "old \<in> {-1} \<union> {v. (\<exists>lk. ?m v = Some (True, lk)) \<and> v \<le> t}" using t by auto
  qed
  have bo: "b old = None"
  proof (cases "m = Map.empty")
    case True
    then show ?thesis using blk_ok_None [OF ok] by simp
  next
    case False
    then obtain lk where "m old = Some (False, lk)" using cur by (auto simp: is_current_def)
    then show ?thesis using blk_ok_None [OF ok] by simp
  qed
  have drop: "drop_version t (?m(old \<mapsto> (False, False))) = m"
  proof (cases "m = Map.empty")
    case True
    then show ?thesis using t by (auto simp: drop_version_def)
  next
    case False
    then obtain lk where lk: "m old = Some (False, lk)" using cur by (auto simp: is_current_def)
    then have nlk: "m old = Some (False, False)" using nl by (cases lk) (auto simp: no_lock_def)
    then obtain v' lk' where v': "m v' = Some (True, lk')" using blk_ok_vb [OF ok] by blast
    then have "v' \<noteq> old" "v' \<noteq> t" using lk mt by auto
    then have "\<exists>v vb lk. v \<noteq> t \<and> (?m(old \<mapsto> (False, False))) v = Some (vb, lk) \<and> (vb \<or> lk)"
      using v' by (intro exI [of _ v']) auto
    then have "drop_version t (?m(old \<mapsto> (False, False))) = (?m(old \<mapsto> (False, False)))(t := None)"
      using t by (auto simp: drop_version_def)
    also have "\<dots> = m" using nlk mt t by (auto simp: fun_eq_iff)
    finally show ?thesis .
  qed
  show ?thesis
    using high drop bo old0 t by (simp add: rollback_blk_def write_blk_def Let_def fun_upd_idem)
qed

text \<open>A write keeps the protocol.\<close>

lemma write_blk_ok:
  assumes ok: "blk_ok (m, b)" and cur: "is_current m old" and t: "old < t" and nl: "no_lock m"
  shows "blk_ok (write_blk old t p (m, b))"
proof -
  let ?m = "m(old \<mapsto> (True, False), t \<mapsto> (False, True))"
  have old0: "0 \<le> old" using ok cur by (auto simp: blk_ok_def is_current_def split: if_splits)
  have le: "v \<le> old" if "m v = Some x" for v x
    using ok cur that by (auto simp: blk_ok_def is_current_def split: if_splits)
  have mt: "m t = None" using le [of t] t by (cases "m t") auto
  then have bt: "b t = None" using blk_ok_None [OF ok] by simp
  have one: "v = old" if v: "m v = Some (False, lk)" for v lk
  proof -
    have "m \<noteq> Map.empty" using v by auto
    with cur obtain lk' where "m old = Some (False, lk')" by (auto simp: is_current_def)
    from blk_ok_newest [OF ok v this] le [OF v] show ?thesis by simp
  qed
  have "(b(old \<mapsto> p)) v = None \<longleftrightarrow> (\<forall>lk. ?m v \<noteq> Some (True, lk))" for v
    using blk_ok_None [OF ok, of v] bt t by auto
  moreover have "v' \<le> v" if "?m v = Some (False, lk)" "?m v' = Some x" for v lk v' x
    using that le [of v'] t one [of v lk] by (auto split: if_splits)
  moreover have "0 \<le> v \<and> (lk \<longrightarrow> 0 < v \<and> \<not> vb)" if "?m v = Some (vb, lk)" for v vb lk
    using that ok old0 t by (auto simp: blk_ok_def split: if_splits)
  moreover have "?m t = Some (False, True)" "?m old = Some (True, False)" using t by simp_all
  ultimately show ?thesis unfolding write_blk_def prod.case by (intro blk_okI) blast+
qed

section \<open>The node's invariant\<close>

definition sn_inv :: "SlaveDBRMNode \<Rightarrow> bool" where
  "sn_inv sn \<longleftrightarrow> vss_inv (seg (sn_vss sn)) \<and> 0 < allocdSize (vssShminfo (sn_vss sn)) \<and>
     vb_inv (vb_seg (sn_vbbm sn)) \<and> 0 < allocdSize (vbbmShminfo (sn_vbbm sn)) \<and>
     cl_inv (copylocks sn) \<and> 0 < allocdSize (cl_shminfo (copylocks sn)) \<and> (\<forall>l. blk_ok (blk sn l))"

lemma vss_insert_alloc:
  assumes "vss_insert l v vb lk loading st = Some st'" "0 < allocdSize (vssShminfo st)"
  shows "0 < allocdSize (vssShminfo st')"
proof -
  have "0 < allocdSize (vssShminfo s)" if "growVSS st = Some s" for s
    using that assms(2) by (auto simp: growVSS_def Let_def VSS_INITIAL_SIZE_def VSS_INCREMENT_def
      sizeof_VSSEntry_def sizeof_VSSShmsegHeader_def VSSSTORAGE_INITIAL_COUNT_def VSSSTORAGE_INCREMENT_COUNT_def
      VSSTABLE_INITIAL_COUNT_def VSSTABLE_INCREMENT_COUNT_def split: if_splits option.splits bind_splits)
  with assms show ?thesis
    by (auto simp: vss_insert_def Let_def split: if_splits bind_splits)
qed

lemma vss_abs_finite: "finite (dom (\<lambda>v. vss_abs s (l, v)))"
proof -
  have "finite (dom (vss_abs s))" by (simp add: vss_abs_def table_def finite_dom_map_of)
  moreover have "dom (\<lambda>v. vss_abs s (l, v)) \<subseteq> snd ` dom (vss_abs s)" by force
  ultimately show ?thesis by (blast intro: finite_subset)
qed

lemma getCurrentVersion_blk:
  assumes "vss_wf (seg (sn_vss sn))" "blk_ok (blk sn l)"
  obtains old lk where "vss_getCurrentVersion l (seg (sn_vss sn)) = Some (old, lk)" "is_current (fst (blk sn l)) old"
  using assms(1)
proof (cases rule: vss_getCurrentVersion_ok [where l = l])
  case (1 v lk)
  then have "is_current (fst (blk sn l)) v" by (auto simp: is_current_def blk_def fun_eq_iff)
  with 1 that show thesis by blast
next
  case 2
  have "fst (blk sn l) = Map.empty"
  proof (rule ccontr)
    assume "fst (blk sn l) \<noteq> Map.empty"
    then obtain v lk where "fst (blk sn l) v = Some (False, lk)"
      using assms(2) by (cases "blk sn l") (auto simp: blk_ok_def)
    with 2(2) show False by (simp add: blk_def)
  qed
  then have "is_current (fst (blk sn l)) 0" by (simp add: is_current_def)
  with 2 that show thesis by blast
qed

lemma vb_insert_alloc:
  assumes "vb_insert l v oid fbo loading st = ret st'" "0 < allocdSize (vbbmShminfo st)"
  shows "0 < allocdSize (vbbmShminfo st')"
proof -
  have grow: "0 < allocdSize (vbbmShminfo s)" if "growVBBM False st = ret s" for s
    using that assms(2)
    by (auto simp: growVBBM_def Let_def bind_cpp_eq_ret VBBM_INCREMENT_def sizeof_VBBMEntry_def
        VBSTORAGE_INCREMENT_COUNT_def VBTABLE_INCREMENT_COUNT_def)
  obtain st1 s ds where "(if vbCurrentSize (vbbm (vb_seg st)) = vbCapacity (vbbm (vb_seg st)) then growVBBM False st else ret st) = ret st1"
    "vbbmShminfo st' = vbbmShminfo (fold vb_makeUndoRecord ds (st1\<lparr>vb_seg := s\<rparr>))"
    using assms(1) by (auto simp: vb_insert_def Let_def bind_cpp_eq_ret split: prod.splits if_splits)
  with grow assms(2) show ?thesis by (auto split: if_splits)
qed

lemma is_current_unique: "blk_ok (m, b) \<Longrightarrow> is_current m v \<Longrightarrow> is_current m v' \<Longrightarrow> v = v'"
  by (auto simp: is_current_def split: if_splits intro!: order.antisym dest: blk_ok_newest)

text \<open>The current version is unlocked and not yet in the block map; if it is 0 the block has no versions.\<close>

lemma current_facts:
  assumes ok: "blk_ok (m, b)" and cur: "is_current m old" and nl: "no_lock m"
  shows "0 \<le> old" "b old = None" "0 < old \<Longrightarrow> m old = Some (False, False)" "old = 0 \<Longrightarrow> m old = None"
proof -
  have m: "m old = Some (False, False)" if "m \<noteq> Map.empty"
  proof -
    from cur that obtain lk where "m old = Some (False, lk)" by (auto simp: is_current_def)
    with nl show ?thesis by (cases lk) (auto simp: no_lock_def)
  qed
  show "0 \<le> old" using ok cur by (auto simp: blk_ok_def is_current_def split: if_splits)
  show "b old = None" using m blk_ok_None [OF ok, of old] by (cases "m = Map.empty") auto
  show "0 < old \<Longrightarrow> m old = Some (False, False)" using m cur by (auto simp: is_current_def split: if_splits)
  show "m old = None" if "old = 0"
  proof (cases "m = Map.empty")
    case False
    from m [OF this] obtain v' lk where v': "m v' = Some (True, lk)" using blk_ok_vb [OF ok] by blast
    have "v' \<le> 0" using blk_ok_newest [OF ok m [OF False] v'] that by simp
    moreover have "0 \<le> v'" using ok v' unfolding blk_ok_def prod.case by blast
    ultimately show ?thesis using v' m [OF False] that by auto
  qed simp
qed

lemma writeVBEntry_ok:
  assumes inv: "sn_inv sn" and l: "l \<noteq> -1" and cur: "is_current (fst (blk sn l)) old" and t: "old < t"
    and nl: "no_lock (fst (blk sn l))"
  shows "\<exists>sn'. writeVBEntry t l oid fbo sn = Some (0, sn') \<and> sn_inv sn' \<and>
    blk sn' l = write_blk old t (oid, fbo) (blk sn l) \<and> (\<forall>l'. l' \<noteq> l \<longrightarrow> blk sn' l' = blk sn l') \<and>
    copylocks sn' = copylocks sn"
proof -
  let ?vs = "sn_vss sn" and ?vb = "sn_vbbm sn"
  let ?m = "\<lambda>v. vss_abs (seg ?vs) (l, v)" and ?b = "\<lambda>v. vb_abs (vb_seg ?vb) (l, v)"
  have i: "vss_inv (seg ?vs)" "vb_inv (vb_seg ?vb)" "0 < allocdSize (vssShminfo ?vs)" "0 < allocdSize (vbbmShminfo ?vb)"
    and ok: "blk_ok (?m, ?b)" using inv by (auto simp: sn_inv_def blk_def)
  have cur': "is_current ?m old" "no_lock ?m" using cur nl by (simp_all add: blk_def)
  note cf = current_facts [OF ok cur']
  obtain lk where get: "vss_getCurrentVersion l (seg ?vs) = Some (old, lk)"
  proof (rule getCurrentVersion_blk [of sn l])
    show "vss_wf (seg ?vs)" using i(1) by (simp add: vss_inv_def)
    show "blk_ok (blk sn l)" using ok by (simp add: blk_def)
    fix old' lk assume "vss_getCurrentVersion l (seg ?vs) = Some (old', lk)" "is_current (fst (blk sn l)) old'"
    with is_current_unique [OF ok cur'(1)] that show thesis by (simp add: blk_def)
  qed
  have mt: "?m t = None"
  proof (cases "?m t")
    case (Some x)
    then have "?m \<noteq> Map.empty" by (auto dest: fun_cong [of _ _ t])
    with cur' obtain lk where "?m old = Some (False, lk)" by (auto simp: is_current_def)
    from blk_ok_newest [OF ok this Some] t show ?thesis by simp
  qed
  obtain vb' where vb': "vb_insert l old oid fbo False ?vb = ret vb'" "vb_inv (vb_seg vb')"
    "vb_abs (vb_seg vb') = (vb_abs (vb_seg ?vb))((l, old) \<mapsto> (oid, fbo))"
    using vb_insert_ok [OF i(2) l, of old oid fbo False] cf(2) i(4) by auto
  have "\<exists>vs'. (if old > 0 then vss_setVBFlag l old True ?vs else defined (vss_insert l old True False False ?vs)) = ret vs' \<and>
      vss_inv (seg vs') \<and> vss_abs (seg vs') = (vss_abs (seg ?vs))((l, old) \<mapsto> (True, False)) \<and> 0 < allocdSize (vssShminfo vs')"
  proof (cases "old > 0")
    case True
    with vss_setVBFlag_ok [OF i(1), of l old True] cf(3) i(3) show ?thesis by (auto simp: undo_ext_def)
  next
    case False
    then have "?m old = None" using cf(1,4) by simp
    with vss_insert_ok [OF i(1) l, of old True False False] i(3) obtain vs' where
      "vss_insert l old True False False ?vs = Some vs'" "vss_inv (seg vs')"
      "vss_abs (seg vs') = (vss_abs (seg ?vs))((l, old) \<mapsto> (True, False))" by auto
    with False vss_insert_alloc i(3) show ?thesis by auto
  qed
  then obtain vs' where vs': "(if old > 0 then vss_setVBFlag l old True ?vs else defined (vss_insert l old True False False ?vs)) = ret vs'"
    "vss_inv (seg vs')" "vss_abs (seg vs') = (vss_abs (seg ?vs))((l, old) \<mapsto> (True, False))" "0 < allocdSize (vssShminfo vs')" by blast
  have "vss_abs (seg vs') (l, t) = None" using vs'(3) mt t by simp
  then obtain vs'' where vs'': "vss_insert l t False True False vs' = Some vs''" "vss_inv (seg vs'')"
    "vss_abs (seg vs'') = (vss_abs (seg ?vs))((l, old) \<mapsto> (True, False), (l, t) \<mapsto> (False, True))"
    using vss_insert_ok [OF vs'(2) l, of t False True False] vs'(3,4) by auto
  let ?sn = "sn\<lparr>locked_vbbm := True, locked_vss := True, sn_vbbm := vb', sn_vss := vs''\<rparr>"
  have w: "writeVBEntry t l oid fbo sn = Some (0, ?sn)"
    using get t vb'(1) vs'(1) vs''(1) by (cases sn; cases "old > 0") (simp_all add: writeVBEntry_def Let_def)
  have b: "blk ?sn l = write_blk old t (oid, fbo) (blk sn l)"
    by (auto simp: blk_def write_blk_def vs''(3) vb'(3) fun_eq_iff)
  have o: "blk ?sn l' = blk sn l'" if "l' \<noteq> l" for l'
    using that by (simp add: blk_def vs''(3) vb'(3))
  have "blk_ok (blk ?sn l')" for l'
    using o [of l'] b write_blk_ok [OF ok cur'(1) t cur'(2)] inv by (cases "l' = l") (simp_all add: sn_inv_def blk_def)
  then have "sn_inv ?sn"
    using inv vs''(2) vb'(2) vss_insert_alloc [OF vs''(1) vs'(4)] vb_insert_alloc [OF vb'(1) i(4)] by (simp add: sn_inv_def)
  with w b o show ?thesis by auto
qed

section \<open>Rollback\<close>

lemma Max_insert_max:
  fixes a b :: "'a::linorder"
  assumes "finite S"
  shows "Max (insert a (insert b S)) = Max (insert (max a b) S)"
  using assms by (cases "S = {}") (simp_all add: max.assoc)

lemma vss_getHighestVerInVB_ok:
  assumes wf: "vss_wf s"
  shows "vss_getHighestVerInVB l t s = Some (highest_vb t (\<lambda>v. vss_abs s (l, v)))"
proof -
  let ?P = "\<lambda>e. vbFlag e \<and> verID e \<le> t"
  let ?f = "\<lambda>r (_ :: int) e. if (lbid e = l \<and> vbFlag e) \<and> (verID e \<le> t \<and> verID e > r) then Inr (verID e) else (Inr r :: VER_t + VER_t)"
  let ?M = "\<lambda>es. Max (insert (-1) (verID ` {e \<in> set es. ?P e}))"
  obtain es where es: "vss_scan s l ?f (-1) = Some (fold_exit (\<lambda>r e. ?f r 0 e) es (-1))"
    "distinct (map verID es)" "\<And>e. e \<in> set es \<Longrightarrow> lbid e = l"
    "\<And>v. vss_abs s (l, v) = map_of (map (\<lambda>e. (verID e, vss_val e)) es) v"
    by (rule vss_scan_block [OF wf, of l ?f "\<lambda>r e. ?f r 0 e" "-1"]) auto
  have "fold_exit (\<lambda>r e. ?f r 0 e) es a = Inr (Max (insert a (verID ` {e \<in> set es. ?P e})))" for a
    using es(3)
  proof (induction es arbitrary: a)
    case (Cons e es)
    have "Max (insert a (verID ` {x \<in> set (e # es). ?P x})) =
        (if ?P e then Max (insert (max a (verID e)) (verID ` {x \<in> set es. ?P x})) else Max (insert a (verID ` {x \<in> set es. ?P x})))"
    proof (cases "?P e")
      case True
      then have "insert a (verID ` {x \<in> set (e # es). ?P x}) = insert a (insert (verID e) (verID ` {x \<in> set es. ?P x}))" by auto
      moreover have "finite (verID ` {x \<in> set es. ?P x})" by simp
      ultimately show ?thesis using True by (simp only: Max_insert_max if_True simp_thms)
    next
      case False
      then have "{x \<in> set (e # es). ?P x} = {x \<in> set es. ?P x}" by auto
      then show ?thesis using False by (simp only: if_False)
    qed
    then show ?case using Cons.IH Cons.prems by (auto simp: max_def)
  qed simp
  moreover have "{v. (\<exists>lk. vss_abs s (l, v) = Some (True, lk)) \<and> v \<le> t} = verID ` {e \<in> set es. ?P e}"
    unfolding es(4) map_of_vers [OF es(2)] by (auto simp: vss_val_def)
  ultimately show ?thesis using es(1) by (simp add: vss_getHighestVerInVB_def highest_vb_def)
qed

lemma remove_spec_drop:
  "fst (remove_spec l t m) (l', v) = (if l' = l then drop_version t (\<lambda>v. m (l, v)) v else m (l', v))"
proof -
  let ?B = "\<exists>v vb lk. v \<noteq> t \<and> m (l, v) = Some (vb, lk) \<and> (vb \<or> lk)"
  have eq: "(\<exists>x vb lk. (m((l, t) := None)) (l, x) = Some (vb, lk) \<and> (vb \<or> lk)) \<longleftrightarrow> ?B" by auto
  show ?thesis unfolding remove_spec_def drop_version_def Let_def eq
    by (cases ?B; simp only: if_True if_False fst_conv split: if_split) (auto simp del: not_None_eq)
qed

definition cols :: "VSS \<Rightarrow> VBBM \<Rightarrow> LBID_t \<Rightarrow> blk" where
  "cols vs vb l = (\<lambda>v. vss_abs (seg vs) (l, v), \<lambda>v. vb_abs (vb_seg vb) (l, v))"

lemma highest_vb_Some:
  assumes "highest_vb t m \<noteq> -1" "finite (dom m)"
  obtains lk where "m (highest_vb t m) = Some (True, lk)"
proof -
  have "highest_vb t m \<in> {-1} \<union> {v. (\<exists>lk. m v = Some (True, lk)) \<and> v \<le> t}"
    unfolding highest_vb_def using blk_ok_finite [OF assms(2), of t] by (intro Max_in) auto
  with assms(1) that show thesis by auto
qed

lemma rollback_block_ok:
  assumes i: "vss_inv (seg vs)" "vb_inv (vb_seg vb)"
  shows "\<exists>vs' vb' fl'. rollback_block t l (vs, vb, fl) = Some (Inr (vs', vb', fl')) \<and> vss_inv (seg vs') \<and>
    vb_inv (vb_seg vb') \<and> undo_ext vs vs' \<and> vb_undo_ext vb vb' \<and>
    cols vs' vb' l = rollback_blk t (cols vs vb l) \<and> (\<forall>l'. l' \<noteq> l \<longrightarrow> cols vs' vb' l' = cols vs vb l')"
proof -
  let ?m = "\<lambda>v. vss_abs (seg vs) (l, v)"
  define old where "old = highest_vb t ?m"
  have wf: "vss_wf (seg vs)" using i(1) by (simp add: vss_inv_def)
  have get: "vss_getHighestVerInVB l t (seg vs) = Some old" unfolding old_def by (rule vss_getHighestVerInVB_ok [OF wf])
  have rem: "\<exists>vs'' fl'. vss_removeEntry l t fl vs' = Some (vs'', fl') \<and> vss_inv (seg vs'') \<and> undo_ext vs' vs'' \<and>
      (\<forall>l' v. vss_abs (seg vs'') (l', v) = (if l' = l then drop_version t (\<lambda>v. vss_abs (seg vs') (l, v)) v else vss_abs (seg vs') (l', v)))"
    if "vss_inv (seg vs')" for vs'
    using vss_removeEntry_ok [OF that, of l t fl] remove_spec_drop by metis
  show ?thesis
  proof (cases "old = -1")
    case True
    from rem [OF i(1)] obtain vs'' fl' where r: "vss_removeEntry l t fl vs = Some (vs'', fl')" "vss_inv (seg vs'')" "undo_ext vs vs''"
      "\<And>l' v. vss_abs (seg vs'') (l', v) = (if l' = l then drop_version t ?m v else vss_abs (seg vs) (l', v))" by blast
    have "rollback_block t l (vs, vb, fl) = Some (Inr (vs'', vb, fl'))" using get True r(1) by (simp add: rollback_block_def)
    moreover have "cols vs'' vb l = rollback_blk t (cols vs vb l)"
      using True by (simp add: cols_def rollback_blk_def r(4) old_def)
    moreover have "cols vs'' vb l' = cols vs vb l'" if "l' \<noteq> l" for l' using that by (simp add: cols_def r(4))
    ultimately show ?thesis using r(2,3) i(2) by (intro exI [of _ vs''] exI [of _ vb] exI [of _ fl']) simp
  next
    case False
    obtain lk where lk: "?m old = Some (True, lk)"
      using highest_vb_Some [OF False [unfolded old_def] vss_abs_finite] unfolding old_def by blast
    from vss_setVBFlag_ok [OF i(1), of l old False] lk obtain vs1 where vs1: "vss_setVBFlag l old False vs = ret vs1"
      "vss_inv (seg vs1)" "vss_abs (seg vs1) = (vss_abs (seg vs))((l, old) \<mapsto> (False, lk))" "undo_ext vs vs1" by auto
    from vb_removeEntry_ok [OF i(2), of l old] obtain vb1 where vb1: "vb_removeEntry l old vb = Some vb1" "vb_inv (vb_seg vb1)"
      "vb_abs (vb_seg vb1) = (vb_abs (vb_seg vb))((l, old) := None)" "vb_undo_ext vb vb1" by blast
    from rem [OF vs1(2)] obtain vs'' fl' where r: "vss_removeEntry l t fl vs1 = Some (vs'', fl')" "vss_inv (seg vs'')" "undo_ext vs1 vs''"
      "\<And>l' v. vss_abs (seg vs'') (l', v) = (if l' = l then drop_version t (\<lambda>v. vss_abs (seg vs1) (l, v)) v else vss_abs (seg vs1) (l', v))" by blast
    have col: "(\<lambda>v. vss_abs (seg vs1) (l, v)) = ?m(old \<mapsto> (False, lk))" by (auto simp: vs1(3) fun_eq_iff)
    have "rollback_block t l (vs, vb, fl) = Some (Inr (vs'', vb1, fl'))"
      using get False vs1(1) vb1(1) r(1) by (simp add: rollback_block_def ret_def)
    moreover have "cols vs'' vb1 l = rollback_blk t (cols vs vb l)"
      using False lk by (auto simp: cols_def rollback_blk_def r(4) col Let_def old_def [symmetric] vb1(3) fun_eq_iff)
    moreover have "cols vs'' vb1 l' = cols vs vb l'" if "l' \<noteq> l" for l' using that by (simp add: cols_def r(4) vs1(3) vb1(3))
    ultimately show ?thesis using r(2) vb1(2,4) undo_ext_trans [OF vs1(4) r(3)]
      by (intro exI [of _ vs''] exI [of _ vb1] exI [of _ fl']) simp
  qed
qed

lemma rollback_blocks_ok:
  assumes "vss_inv (seg vs)" "vb_inv (vb_seg vb)" "distinct ls"
  shows "\<exists>vs' vb' fl'. rollback_blocks t ls (vs, vb, fl) = Some (Inr (vs', vb', fl')) \<and> vss_inv (seg vs') \<and>
    vb_inv (vb_seg vb') \<and> undo_ext vs vs' \<and> vb_undo_ext vb vb' \<and>
    (\<forall>l. cols vs' vb' l = (if l \<in> set ls then rollback_blk t (cols vs vb l) else cols vs vb l))"
  using assms
proof (induction ls arbitrary: vs vb fl)
  case Nil
  then show ?case by simp
next
  case (Cons l ls)
  from rollback_block_ok [OF Cons.prems(1,2), of t l fl] obtain vs1 vb1 fl1 where
    1: "rollback_block t l (vs, vb, fl) = Some (Inr (vs1, vb1, fl1))" "vss_inv (seg vs1)" "vb_inv (vb_seg vb1)"
      "undo_ext vs vs1" "vb_undo_ext vb vb1" "cols vs1 vb1 l = rollback_blk t (cols vs vb l)"
      "\<And>l'. l' \<noteq> l \<Longrightarrow> cols vs1 vb1 l' = cols vs vb l'" by blast
  have "distinct ls" "l \<notin> set ls" using Cons.prems(3) by auto
  from Cons.IH [OF 1(2,3) this(1), of fl1] obtain vs2 vb2 fl2 where
    2: "rollback_blocks t ls (vs1, vb1, fl1) = Some (Inr (vs2, vb2, fl2))" "vss_inv (seg vs2)" "vb_inv (vb_seg vb2)"
      "undo_ext vs1 vs2" "vb_undo_ext vb1 vb2"
      "\<And>l. cols vs2 vb2 l = (if l \<in> set ls then rollback_blk t (cols vs1 vb1 l) else cols vs1 vb1 l)" by blast
  have "cols vs2 vb2 l' = (if l' \<in> set (l # ls) then rollback_blk t (cols vs vb l') else cols vs vb l')" for l'
    using 2(6) [of l'] 1(6) 1(7) [of l'] \<open>l \<notin> set ls\<close> by (cases "l' = l") simp_all
  with 1(1) 2(1-3) undo_ext_trans [OF 1(4) 2(4)] vb_undo_ext_trans [OF 1(5) 2(5)] show ?case by simp
qed

end
