(* ===== verification/SlaveNode_Theorems.thy ===== *)
theory SlaveNode_Theorems
  imports SlaveNode_Props Table_Theorems
begin

text \<open>
  The theorems about the worker node: the version protocol is kept by recording a version,
  by commit, by rollback and by the allocation of version buffer space; a rollback gives the
  tables back their contents; readers are sent to the right copy; and the copy locks.
\<close>

section \<open>A transaction's writes\<close>

text \<open>
  \<open>txn_writes t ls sn sn'\<close>: transaction \<open>t\<close> has led the node from \<open>sn\<close> to \<open>sn'\<close> by recording old
  versions, of the blocks \<open>ls\<close> for the first time and of some of them again. No block is
  locked by another transaction when \<open>t\<close> gets to it.
\<close>

inductive txn_writes :: "VER_t \<Rightarrow> LBID_t list \<Rightarrow> SlaveDBRMNode \<Rightarrow> SlaveDBRMNode \<Rightarrow> bool" for t where
  start: "txn_writes t [] sn sn"
| first: "txn_writes t ls sn sn1 \<Longrightarrow> l \<noteq> -1 \<Longrightarrow> is_current (fst (blk sn1 l)) old \<Longrightarrow> old < t \<Longrightarrow> no_lock (fst (blk sn1 l)) \<Longrightarrow>
    writeVBEntry t l oid fbo sn1 = Some (code, sn2) \<Longrightarrow> txn_writes t (l # ls) sn sn2"
| again: "txn_writes t ls sn sn1 \<Longrightarrow> is_current (fst (blk sn1 l)) t \<Longrightarrow>
    writeVBEntry t l oid fbo sn1 = Some (code, sn2) \<Longrightarrow> txn_writes t ls sn sn2"

definition written :: "VER_t \<Rightarrow> blk \<Rightarrow> blk \<Rightarrow> bool" where
  "written t x y \<longleftrightarrow> (\<exists>old p. is_current (fst x) old \<and> old < t \<and> no_lock (fst x) \<and> y = write_blk old t p x)"

lemma written_current: "written t x y \<Longrightarrow> is_current (fst y) t"
proof -
  assume "written t x y"
  then obtain old p where "y = write_blk old t p x" by (auto simp: written_def)
  then have "fst y t = Some (False, True)" by (cases x) (simp add: write_blk_def)
  moreover then have "fst y \<noteq> Map.empty" by auto
  ultimately show ?thesis by (auto simp: is_current_def)
qed

lemma writeVBEntry_again:
  assumes inv: "sn_inv sn" and cur: "is_current (fst (blk sn l)) t"
  shows "writeVBEntry t l oid fbo sn = Some (0, sn\<lparr>locked_vbbm := True, locked_vss := True\<rparr>)"
proof -
  have ok: "blk_ok (fst (blk sn l), snd (blk sn l))" and wf: "vss_wf (seg (sn_vss sn))"
    using inv by (auto simp: sn_inv_def vss_inv_def)
  from getCurrentVersion_blk [OF wf] ok obtain v lk where v: "vss_getCurrentVersion l (seg (sn_vss sn)) = Some (v, lk)"
    "is_current (fst (blk sn l)) v" by auto
  with is_current_unique [OF ok cur v(2)] show ?thesis by (simp add: writeVBEntry_def Let_def)
qed

lemma blk_locked [simp]: "blk (sn\<lparr>locked_vbbm := a, locked_vss := b\<rparr>) = blk sn"
  by (simp add: blk_def fun_eq_iff)

lemma txn_writes_blk:
  assumes "txn_writes t ls sn sn'" "sn_inv sn"
  shows "sn_inv sn' \<and> distinct ls \<and> -1 \<notin> set ls \<and> copylocks sn' = copylocks sn \<and>
    (\<forall>l. if l \<in> set ls then written t (blk sn l) (blk sn' l) else blk sn' l = blk sn l)"
  using assms
proof (induction rule: txn_writes.induct)
  case (start sn)
  then show ?case by simp
next
  case (first ls sn sn1 l old oid fbo code sn2)
  then have IH: "sn_inv sn1" "distinct ls" "-1 \<notin> set ls" "copylocks sn1 = copylocks sn"
    "\<And>l. if l \<in> set ls then written t (blk sn l) (blk sn1 l) else blk sn1 l = blk sn l" by auto
  have new: "l \<notin> set ls"
  proof
    assume "l \<in> set ls"
    then have "is_current (fst (blk sn1 l)) t" using IH(5) [of l] written_current by auto
    moreover have "blk_ok (fst (blk sn1 l), snd (blk sn1 l))" using IH(1) by (simp add: sn_inv_def)
    ultimately show False using is_current_unique first.hyps(3,4) by blast
  qed
  from writeVBEntry_ok [OF IH(1) first.hyps(2-5), of oid fbo] first.hyps(6) have
    w: "sn_inv sn2" "blk sn2 l = write_blk old t (oid, fbo) (blk sn1 l)" "\<And>l'. l' \<noteq> l \<Longrightarrow> blk sn2 l' = blk sn1 l'"
      "copylocks sn2 = copylocks sn1" by auto
  have "blk sn1 l = blk sn l" using IH(5) [of l] new by simp
  then have "written t (blk sn l) (blk sn2 l)" using w(2) first.hyps(3-5) by (auto simp: written_def)
  then have "if l' \<in> set (l # ls) then written t (blk sn l') (blk sn2 l') else blk sn2 l' = blk sn l'" for l'
    using IH(5) [of l'] w(3) [of l'] by (cases "l' = l") auto
  then show ?case using w(1,4) IH(2-4) new first.hyps(2) by simp
next
  case (again ls sn sn1 l oid fbo code sn2)
  then have "sn_inv sn1" by simp
  from writeVBEntry_again [OF this again.hyps(2), of oid fbo] again.hyps(3)
  have "sn2 = sn1\<lparr>locked_vbbm := True, locked_vss := True\<rparr>" by simp
  with again show ?case by (simp add: sn_inv_def)
qed

lemma blk_eq_abs: "(\<And>l. blk sn l = blk sn' l) \<Longrightarrow>
    vss_abs (seg (sn_vss sn)) = vss_abs (seg (sn_vss sn')) \<and> vb_abs (vb_seg (sn_vbbm sn)) = vb_abs (vb_seg (sn_vbbm sn'))"
  by (auto simp: blk_def fun_eq_iff)

lemma sn_inv_blk:
  assumes "sn_inv sn" "vss_inv (seg vs)" "vb_inv (vb_seg vb)" "cl_inv cl" "undo_ext (sn_vss sn) vs" "vb_undo_ext (sn_vbbm sn) vb"
    "0 < allocdSize (cl_shminfo cl)" "\<And>l. blk_ok (cols vs vb l)"
  shows "sn_inv (sn\<lparr>copylocks := cl, sn_vss := vs, sn_vbbm := vb\<rparr>)"
  using assms by (simp add: sn_inv_def blk_def cols_def undo_ext_def vb_undo_ext_def)

text \<open>
  C15. Rolling a transaction orig: after any sequence of recorded versions by one
  transaction, \<open>vbRollback\<close> of the blocks it wrote succeeds and leaves the version table and
  the block map with exactly the entries they had before the transaction, and no copy lock
  of the transaction.
\<close>

theorem vbRollback_undoes_writes:
  assumes "txn_writes t ls sn sn'" and "sn_inv sn"
  shows "\<exists>sn'' flush. vbRollback t ls sn' = Some (0, sn'', flush) \<and> sn_inv sn'' \<and>
    vss_abs (seg (sn_vss sn'')) = vss_abs (seg (sn_vss sn)) \<and>
    vb_abs (vb_seg (sn_vbbm sn'')) = vb_abs (vb_seg (sn_vbbm sn)) \<and>
    cl_abs (copylocks sn'') = filter_mset (\<lambda>e. cl_txnID e \<noteq> t) (cl_abs (copylocks sn))"
proof -
  let ?sn = "sn'\<lparr>locked_vbbm := True, locked_vss := True, locked_cl := True\<rparr>"
  from txn_writes_blk [OF assms] have w: "sn_inv sn'" "distinct ls" "copylocks sn' = copylocks sn"
    "\<And>l. if l \<in> set ls then written t (blk sn l) (blk sn' l) else blk sn' l = blk sn l" by auto
  have i: "vss_inv (seg (sn_vss sn'))" "vb_inv (vb_seg (sn_vbbm sn'))" "cl_inv (copylocks sn')"
    using w(1) by (auto simp: sn_inv_def)
  from cl_free_ok [OF i(3), of "\<lambda>e. cl_txnID e = t"] obtain cl where cl: "cl_rollback t (copylocks sn') = Some cl" "cl_inv cl"
    "allocdSize (cl_shminfo cl) = allocdSize (cl_shminfo (copylocks sn'))"
    "cl_abs cl = filter_mset (\<lambda>e. cl_txnID e \<noteq> t) (cl_abs (copylocks sn'))"
    by (auto simp: cl_rollback_def)
  from rollback_blocks_ok [OF i(1,2) w(2), of t "[]"] obtain vs vb fl where
    r: "rollback_blocks t ls (sn_vss sn', sn_vbbm sn', []) = Some (Inr (vs, vb, fl))" "vss_inv (seg vs)" "vb_inv (vb_seg vb)"
      "undo_ext (sn_vss sn') vs" "vb_undo_ext (sn_vbbm sn') vb"
      "\<And>l. cols vs vb l = (if l \<in> set ls then rollback_blk t (blk sn' l) else blk sn' l)"
    by (auto simp: cols_def blk_def)
  have orig: "cols vs vb l = blk sn l" for l
  proof (cases "l \<in> set ls")
    case True
    with w(4) [of l] obtain old p where o: "is_current (fst (blk sn l)) old" "old < t" "no_lock (fst (blk sn l))"
      "blk sn' l = write_blk old t p (blk sn l)" by (auto simp: written_def)
    have "blk_ok (fst (blk sn l), snd (blk sn l))" using assms(2) by (simp add: sn_inv_def)
    moreover have "finite (dom (fst (blk sn l)))" using vss_abs_finite by (simp add: blk_def)
    ultimately have "rollback_blk t (write_blk old t p (fst (blk sn l), snd (blk sn l))) = (fst (blk sn l), snd (blk sn l))"
      using o(1-3) by (intro rollback_write)
    then show ?thesis using r(6) [of l] True o(4) by simp
  next
    case False
    with r(6) [of l] w(4) [of l] show ?thesis by simp
  qed
  let ?sn' = "?sn\<lparr>copylocks := cl, sn_vss := vs, sn_vbbm := vb\<rparr>"
  have "vbRollback t ls sn' = Some (0, ?sn', fl)"
    using cl(1) r(1) by (simp add: vbRollback_def Let_def)
  moreover have "sn_inv ?sn'"
  proof (rule sn_inv_blk)
    show "sn_inv ?sn" using w(1) by (simp add: sn_inv_def blk_def)
    show "blk_ok (cols vs vb l)" for l using orig [of l] assms(2) by (simp add: sn_inv_def)
  qed (use r cl w(1) in \<open>simp_all add: sn_inv_def\<close>)
  moreover have "blk ?sn' l = blk sn l" for l using orig [of l] by (simp add: blk_def cols_def)
  ultimately show ?thesis using blk_eq_abs [of ?sn' sn] cl(4) w(3) by auto
qed

section \<open>Commit and ageing\<close>

lemma vss_commit_info: "vss_commit t st = Some st' \<Longrightarrow> vssShminfo st' = vssShminfo st"
proof -
  have "vssShminfo (fold (vss_commit_slot t) is st) = vssShminfo st" for "is"
    by (induction "is" arbitrary: st) (auto simp: vss_commit_slot_def Let_def vss_makeUndoRecord_def)
  then show "vss_commit t st = Some st' \<Longrightarrow> vssShminfo st' = vssShminfo st"
    by (auto simp: vss_commit_def split: if_splits)
qed

lemma relock_blk_ok:
  assumes ok: "blk_ok (m, b)" and sub: "\<And>v vb lk. m' v = Some (vb, lk) \<Longrightarrow> \<exists>lk'. m v = Some (vb, lk') \<and> (lk \<longrightarrow> lk')"
    and sup: "\<And>v vb lk. m v = Some (vb, lk) \<Longrightarrow> \<exists>lk'. m' v = Some (vb, lk')"
  shows "blk_ok (m', b)"
proof (rule blk_okI)
  show "0 \<le> v \<and> (lk \<longrightarrow> 0 < v \<and> \<not> vb)" if "m' v = Some (vb, lk)" for v vb lk
    using sub [OF that] blk_ok_range [OF ok] by blast
  show "b v = None \<longleftrightarrow> (\<forall>lk. m' v \<noteq> Some (True, lk))" for v
    unfolding blk_ok_None [OF ok] using sub [of v True] sup [of v True] by blast
  show "v' \<le> v" if "m' v = Some (False, lk)" "m' v' = Some x" for v lk v' x
    using sub [OF that(1)] sub [of v' "fst x" "snd x"] that(2) blk_ok_newest [OF ok] by auto
  show "(\<exists>v lk. m' v = Some (False, lk)) \<and> (\<exists>v lk. m' v = Some (True, lk))" if "m' v = Some x" for v x
  proof -
    from sub [of v "fst x" "snd x"] that obtain y where "m v = Some y" by auto
    with blk_ok_current [OF ok] blk_ok_vb [OF ok] sup show ?thesis by meson
  qed
qed

lemma commit_blk_ok:
  assumes "blk_ok (m, b)"
  shows "blk_ok (\<lambda>v. if v = t then map_option (\<lambda>(vb, _). (vb, False)) (m v) else m v, b)"
  using assms by (rule relock_blk_ok) (auto split: if_splits)

text \<open>
  C18. Commit keeps the version protocol, releases the transaction's version locks and copies
  no other entry: afterwards every version that was locked by the transaction is unlocked,
  with its place unchanged, and all others are as before.
\<close>

theorem vbCommit_unlocks:
  assumes "sn_inv sn"
  shows "\<exists>sn'. vbCommit t sn = Some (0, sn') \<and> sn_inv sn' \<and> sn_vbbm sn' = sn_vbbm sn \<and> copylocks sn' = copylocks sn \<and>
    vss_abs (seg (sn_vss sn')) = commit_spec t (vss_abs (seg (sn_vss sn)))"
proof -
  from vss_commit_ok [of "sn_vss sn" t] assms obtain vs where vs: "vss_commit t (sn_vss sn) = Some vs" "vss_inv (seg vs)"
    "vss_abs (seg vs) = commit_spec t (vss_abs (seg (sn_vss sn)))" by (auto simp: sn_inv_def)
  have info: "vssShminfo vs = vssShminfo (sn_vss sn)" using vss_commit_info [OF vs(1)] .
  have "blk_ok (blk (sn\<lparr>locked_vss := True, sn_vss := vs\<rparr>) l)" for l
  proof -
    have "blk_ok (\<lambda>v. vss_abs (seg (sn_vss sn)) (l, v), \<lambda>v. vb_abs (vb_seg (sn_vbbm sn)) (l, v))"
      using assms by (simp add: sn_inv_def blk_def)
    from commit_blk_ok [OF this, of t] show ?thesis
      by (simp add: blk_def vs(3) commit_spec_def)
  qed
  then have "sn_inv (sn\<lparr>locked_vss := True, sn_vss := vs\<rparr>)" using assms vs(2) info by (simp add: sn_inv_def)
  with vs(1,3) show ?thesis by (auto simp: vbCommit_def)
qed

lemma age_blk_ok:
  assumes ok: "blk_ok (m, b)" and v: "m v = Some (True, lk)"
    and nl: "\<not> ((\<exists>x vb. m x = Some (vb, True)) \<and> v = Max ({0} \<union> {x. \<exists>vb. m x = Some (vb, False)}))"
  shows "blk_ok (drop_version v m, b(v := None))"
proof (cases "\<exists>x vb lk. x \<noteq> v \<and> m x = Some (vb, lk) \<and> (vb \<or> lk)")
  case False
  then have drop: "drop_version v m = Map.empty" using v by (auto simp: drop_version_def)
  have "(b(v := None)) u = None" for u
    using blk_ok_None [OF ok, of u] False by (cases "u = v") auto
  then have "b(v := None) = Map.empty" by (auto simp: fun_eq_iff)
  then show ?thesis unfolding drop by (simp add: blk_ok_def)
next
  case True
  then have drop: "drop_version v m = m(v := None)" using v by (simp add: drop_version_def)
  obtain c lc where c: "m c = Some (False, lc)" using blk_ok_current [OF ok v] by blast
  have "\<exists>u lu. u \<noteq> v \<and> m u = Some (True, lu)"
  proof (rule ccontr)
    assume no: "\<not> ?thesis"
    with True obtain x vb where x: "x \<noteq> v" "m x = Some (vb, True)" by auto
    have "\<not> vb" using blk_ok_range [OF ok x(2)] by simp
    then have xc: "m x = Some (False, True)" using x(2) by simp
    have only: "u = v" if "m u = Some (vb', False)" for u vb'
    proof (rule ccontr)
      assume u: "u \<noteq> v"
      with no that have m: "m u = Some (False, False)" by (cases vb') auto
      have "u = x" using blk_ok_newest [OF ok m xc] blk_ok_newest [OF ok xc m] by simp
      with m xc show False by simp
    qed
    have "lk = False" using blk_ok_range [OF ok v] by simp
    with v have "\<exists>vb. m v = Some (vb, False)" by blast
    with only have "{x. \<exists>vb. m x = Some (vb, False)} = {v}" by blast
    moreover have "0 \<le> v" using blk_ok_range [OF ok v] by simp
    ultimately have "v = Max ({0} \<union> {x. \<exists>vb. m x = Some (vb, False)})" by simp
    with nl x(2) show False by blast
  qed
  then obtain u lu where u: "u \<noteq> v" "m u = Some (True, lu)" by blast
  have "c \<noteq> v" using c v by auto
  have sub: "m x = Some y \<and> x \<noteq> v" if "(m(v := None)) x = Some y" for x y using that by (auto split: if_splits)
  show ?thesis unfolding drop
  proof (rule blk_okI)
    show "(b(v := None)) x = None \<longleftrightarrow> (\<forall>lk. (m(v := None)) x \<noteq> Some (True, lk))" for x
      using blk_ok_None [OF ok, of x] by auto
    show "0 \<le> x \<and> (l \<longrightarrow> 0 < x \<and> \<not> vb)" if "(m(v := None)) x = Some (vb, l)" for x vb l
      using sub [OF that] blk_ok_range [OF ok] by blast
    show "x' \<le> x" if "(m(v := None)) x = Some (False, l)" "(m(v := None)) x' = Some y" for x l x' y
      using sub [OF that(1)] sub [OF that(2)] blk_ok_newest [OF ok] by blast
    have "(m(v := None)) c = Some (False, lc)" "(m(v := None)) u = Some (True, lu)" using c u \<open>c \<noteq> v\<close> by simp_all
    then show "(\<exists>x l. (m(v := None)) x = Some (False, l)) \<and> (\<exists>x l. (m(v := None)) x = Some (True, l))" by blast
  qed
qed

lemma age_entry_ok:
  assumes i: "vss_inv (seg vs)" "vb_inv (vb_seg vb)" and ok: "\<And>l. blk_ok (cols vs vb l)"
    and v: "vb_abs (vb_seg vb) (l, v) \<noteq> None" and l: "l \<noteq> -1" and nl: "vss_isEntryLocked l v (seg vs) = Some False"
    and r: "vss_removeEntry l v fl vs = Some (vs', fl')" "vb_removeEntry l v vb = Some vb'"
  shows "blk_ok (cols vs' vb' l')"
proof -
  let ?m = "\<lambda>v. vss_abs (seg vs) (l, v)" and ?b = "\<lambda>v. vb_abs (vb_seg vb) (l, v)"
  have wf: "vss_wf (seg vs)" using i(1) by (simp add: vss_inv_def)
  have okl: "blk_ok (?m, ?b)" using ok [of l] by (simp add: cols_def)
  have vs': "vss_abs (seg vs') (l', x) = (if l' = l then drop_version v ?m x else vss_abs (seg vs) (l', x))" for l' x
    using vss_removeEntry_ok [OF i(1), of l v fl] r(1) remove_spec_drop [of l v "vss_abs (seg vs)" l' x] by simp
  have vb': "vb_abs (vb_seg vb') = (vb_abs (vb_seg vb))((l, v) := None)"
    using vb_removeEntry_ok [OF i(2), of l v] r(2) by simp
  show ?thesis
  proof (cases "l' = l")
    case True
    obtain lk where lk: "?m v = Some (True, lk)" using blk_ok_None [OF okl, of v] v by blast
    have "\<not> ((\<exists>x vb. ?m x = Some (vb, True)) \<and> v = Max ({0} \<union> {x. \<exists>vb. ?m x = Some (vb, False)}))"
      using nl vss_isEntryLocked_ok [OF wf l, of v] by simp
    from age_blk_ok [OF okl lk this] have "blk_ok (drop_version v ?m, ?b(v := None))" .
    moreover have "cols vs' vb' l' = (drop_version v ?m, ?b(v := None))"
      using True by (auto simp: cols_def vs' vb' fun_eq_iff)
    ultimately show ?thesis by simp
  next
    case False
    then have "cols vs' vb' l' = cols vs vb l'" by (simp add: cols_def vs' vb')
    with ok show ?thesis by simp
  qed
qed

lemma age_slots_blk:
  assumes "vss_inv (seg vs)" "vb_inv (vb_seg vb)" "\<And>i. i \<in> set is \<Longrightarrow> i < length (vb_storage (vb_seg vb))"
    and "\<And>l. blk_ok (cols vs vb l)" "age_slots oid a b is (vs, vb, fl) = Some (ov, vs', vb', fl')"
  shows "blk_ok (cols vs' vb' l)"
  using assms
proof (induction "is" arbitrary: vs vb fl)
  case (Cons i "is")
  let ?e = "vb_storage (vb_seg vb) ! i"
  have i: "i < length (vb_storage (vb_seg vb))" using Cons.prems(3) by simp
  show ?case
  proof (cases "age_match oid a b ?e")
    case False
    with Cons.prems(5) i have "age_slots oid a b is (vs, vb, fl) = Some (ov, vs', vb', fl')" by simp
    with Cons.IH [OF Cons.prems(1,2) _ Cons.prems(4)] Cons.prems(3) show ?thesis by simp
  next
    case True
    then have l: "vb_lbid ?e \<noteq> -1" by (simp add: age_match_def)
    have wf: "vss_wf (seg vs)" using Cons.prems(1) by (simp add: vss_inv_def)
    obtain lk where lk: "vss_isEntryLocked (vb_lbid ?e) (vb_verID ?e) (seg vs) = Some lk"
      using vss_isEntryLocked_ok [OF wf l] by blast
    show ?thesis
    proof (cases lk)
      case t: True
      with True i lk Cons.prems(4,5) show ?thesis by simp
    next
      case nlk: False
      obtain vs1 fl1 where vs1: "vss_removeEntry (vb_lbid ?e) (vb_verID ?e) fl vs = Some (vs1, fl1)" "vss_inv (seg vs1)"
        using vss_removeEntry_ok [OF Cons.prems(1), of "vb_lbid ?e" "vb_verID ?e" fl] by blast
      obtain vb1 where vb1: "vb_removeEntry (vb_lbid ?e) (vb_verID ?e) vb = Some vb1" "vb_inv (vb_seg vb1)"
        "vb_shrinks (vb_seg vb) (vb_seg vb1)"
        using vb_removeEntry_ok [OF Cons.prems(2), of "vb_lbid ?e" "vb_verID ?e"] by blast
      have "i \<in> live_ix vb_used (vb_storage (vb_seg vb))" using i l by (simp add: live_ix_def vb_used_def)
      then have "vb_abs (vb_seg vb) (vb_lbid ?e, vb_verID ?e) \<noteq> None"
        unfolding vb_abs_def table_None by (auto simp: vb_key_def)
      from age_entry_ok [OF Cons.prems(1,2,4) this l lk [unfolded nlk [THEN eq_False [THEN iffD2]]] vs1(1) vb1(1)]
      have ok: "blk_ok (cols vs1 vb1 l)" for l .
      have len: "\<And>j. j \<in> set is \<Longrightarrow> j < length (vb_storage (vb_seg vb1))"
        using Cons.prems(3) vb1(3) by (simp add: vb_shrinks_def)
      have "age_slots oid a b is (vs1, vb1, fl1) = Some (ov, vs', vb', fl')"
        using Cons.prems(5) True i lk nlk vs1(1) vb1(1) by simp
      from Cons.IH [OF vs1(2) vb1(2) len ok this] show ?thesis .
    qed
  qed
qed simp

lemma age_ranges_blk:
  assumes "vss_inv (seg vs)" "vb_inv (vb_seg vb)" "fi < length (files (vb_seg vb))"
    and "\<And>l. blk_ok (cols vs vb l)" "age_ranges fi rs (vs, vb, fl) = Some (ov, vs', vb', fl')"
  shows "blk_ok (cols vs' vb' l)"
  using assms
proof (induction rs arbitrary: vs vb fl)
  case (Cons r rs)
  let ?f = "files (vb_seg vb) ! fi" and ?is = "[0..<nat (vbCapacity (vbbm (vb_seg vb)))]"
  show ?case
  proof (cases "age_bounds ?f r")
    case None
    with Cons.prems(3,5) have "age_ranges fi rs (vs, vb, fl) = Some (ov, vs', vb', fl')" by simp
    with Cons.IH [OF Cons.prems(1-4)] show ?thesis by simp
  next
    case (Some ab)
    obtain a b where ab: "ab = (a, b)" by (cases ab)
    have idx: "\<And>i. i \<in> set ?is \<Longrightarrow> i < length (vb_storage (vb_seg vb))"
      using Cons.prems(2) vb_wfD(1) [of "vb_seg vb"] by (simp add: vb_inv_def)
    from age_slots_ok [OF Cons.prems(1,2) idx, where oid = "vbr_OID r" and a = a and b = b and fl = fl] obtain ov1 vs1 vb1 fl1 where
      1: "age_slots (vbr_OID r) a b ?is (vs, vb, fl) = Some (ov1, vs1, vb1, fl1)" "vss_inv (seg vs1)" "vb_inv (vb_seg vb1)"
      "files (vb_seg vb1) = files (vb_seg vb)" by blast
    have ok: "blk_ok (cols vs1 vb1 l)" for l by (rule age_slots_blk [OF Cons.prems(1,2) idx Cons.prems(4) 1(1)])
    show ?thesis
    proof (cases ov1)
      case True
      with Cons.prems(3,5) Some ab 1(1) ok show ?thesis by simp
    next
      case False
      with Cons.prems(3,5) Some ab 1(1) have "age_ranges fi rs (vs1, vb1, fl1) = Some (ov, vs', vb', fl')" by simp
      moreover have "fi < length (files (vb_seg vb1))" using Cons.prems(3) 1(4) by simp
      ultimately show ?thesis using Cons.IH [OF 1(2,3) _ ok] by blast
    qed
  qed
qed simp

lemma getBlocks_blk:
  assumes i: "vss_inv (seg vs)" "vb_inv (vb_seg vb)"
    and fi: "file_index oid (files (vb_seg vb)) < length (files (vb_seg vb))"
    and f: "file_ok (files (vb_seg vb) ! file_index oid (files (vb_seg vb)))"
    and num: "0 < num" "num \<le> vb_blocks (files (vb_seg vb) ! file_index oid (files (vb_seg vb)))"
    and room: "vbCurrentSize (vbbm (vb_seg vb)) + num \<le> vbCapacity (vbbm (vb_seg vb))"
    and ok: "\<And>l. blk_ok (cols vs vb l)"
  shows "\<exists>r vs' vb' fl. vb_getBlocks num oid vs vb = ret (r, vs', vb', fl) \<and> vss_inv (seg vs') \<and> vb_inv (vb_seg vb') \<and>
    undo_ext vs vs' \<and> vb_undo_ext vb vb' \<and> (\<forall>l. blk_ok (cols vs' vb' l))"
proof -
  let ?fi = "file_index oid (files (vb_seg vb))"
  let ?f = "files (vb_seg vb) ! ?fi"
  let ?f' = "?f\<lparr>nextOffset := next_pos ?f num * BLOCK_SIZE\<rparr>"
  have n: "vb_blocks ?f < 2 ^ 31" "num < 2 ^ 31" using f num by (auto simp: file_ok_def)
  from vb_gather_ok [OF fi refl f num] obtain st3 where
    st3: "vb_gather ?fi num 0 [] vb = Some (gathered ?f num, st3)" "vb_undo_ext vb st3"
    "vb_seg st3 = set_file ?fi ?f' (vb_seg vb)" by blast
  have inv3: "vb_inv (vb_seg st3)" "vb_abs (vb_seg st3) = vb_abs (vb_seg vb)" "files (vb_seg st3) = (files (vb_seg vb))[?fi := ?f']"
    using i(2) by (auto simp: st3(3) set_file_def vb_inv_def vb_wf_def vb_abs_def vb_count_def)
  have fi3: "?fi < length (files (vb_seg st3))" "files (vb_seg st3) ! ?fi = ?f'" using inv3(3) fi by simp_all
  have room_ok: "vb_make_room num vb = ret vb"
    using room by (subst vb_make_room.simps) (simp add: ret_def)
  have ok3: "blk_ok (cols vs st3 l)" for l using ok [of l] inv3(2) by (simp add: cols_def)
  have get: "vb_getBlocks num oid vs vb = bind_cpp (defined (age_ranges ?fi (gathered ?f num) (vs, st3, [])))
      (\<lambda>(overflow, vs', st4, flushList). ret (if overflow then None else Some (gathered ?f num), vs', st4, flushList))"
    using fi n num st3(1) room_ok
    by (simp add: vb_getBlocks_def addVBFileIfNotExists_def vb_blocks_def [symmetric] u32_id)
  from age_ranges_ok [OF i(1) inv3(1) fi3, where rs = "gathered ?f num" and fl = "[]"] obtain ov vs' vb' fl' where
    2: "age_ranges ?fi (gathered ?f num) (vs, st3, []) = Some (ov, vs', vb', fl')"
      "vss_inv (seg vs')" "vb_inv (vb_seg vb')" "undo_ext vs vs'" "vb_undo_ext st3 vb'" by blast
  have "blk_ok (cols vs' vb' l)" for l by (rule age_ranges_blk [OF i(1) inv3(1) fi3(1) ok3 2(1)])
  with get 2 vb_undo_ext_trans [OF st3(2) 2(5)] show ?thesis by simp
qed

section \<open>What readers see\<close>

lemma lookup_spec_max:
  assumes "v \<in> visible m l q txn vbOnly" "v \<le> currentScn q"
    and "\<And>x. x \<in> visible m l q txn vbOnly \<Longrightarrow> x \<le> currentScn q \<Longrightarrow> x \<le> v"
    and fin: "finite {v. m (l, v) \<noteq> None}" and val: "m (l, v) = Some (vb, lk)"
  shows "lookup_spec m l q txn vbOnly = (0, v, vb)"
proof -
  let ?B = "{x \<in> visible m l q txn vbOnly. x \<le> currentScn q}"
  have "?B \<subseteq> {v. m (l, v) \<noteq> None}" by (auto simp: visible_def)
  then have "finite ?B" using fin by (rule finite_subset)
  then have "Max ?B = v" using assms(1-3) by (intro Max_eqI) auto
  moreover have "?B \<noteq> {}" using assms(1,2) by blast
  ultimately show ?thesis using val by (simp add: lookup_spec_def Let_def)
qed

text \<open>
  C16. Snapshot reads. Once transaction \<open>t\<close> has recorded the old version of a block at a place
  in the version buffer, a reader whose snapshot does not include \<open>t\<close> (its system change
  number is older, or \<open>t\<close> was in flight when it started) but includes the old version is sent
  to that place by the two tables, and \<open>t\<close> itself reads its own new version from the data file.
\<close>

theorem writeVBEntry_snapshot_reads:
  assumes inv: "sn_inv sn" and l: "0 \<le> l" and cur: "is_current (fst (blk sn l)) old" and t: "old < t"
    and nl: "no_lock (fst (blk sn l))" and w: "writeVBEntry t l oid fbo sn = Some (code, sn')"
    and q: "old \<le> currentScn q" "t \<in> set (txns q) \<or> currentScn q < t" "old \<notin> set (txns q)" "txn \<noteq> t"
  shows "vss_lookup l q txn False (seg (sn_vss sn')) = Some (0, old, True) \<and>
    vb_lookup l old (vb_seg (sn_vbbm sn')) = ret (Some (oid, fbo)) \<and>
    (t \<le> currentScn q' \<longrightarrow> vss_lookup l q' t False (seg (sn_vss sn')) = Some (0, t, False))"
proof -
  let ?m = "vss_abs (seg (sn_vss sn))" and ?m' = "vss_abs (seg (sn_vss sn'))"
  from writeVBEntry_ok [OF inv _ cur t nl, of oid fbo] l w have inv': "sn_inv sn'"
    and b: "blk sn' l = write_blk old t (oid, fbo) (blk sn l)" by auto
  have ok: "blk_ok (\<lambda>v. ?m (l, v), \<lambda>v. vb_abs (vb_seg (sn_vbbm sn)) (l, v))" using inv by (simp add: sn_inv_def blk_def)
  have col: "(\<lambda>v. ?m' (l, v)) = (\<lambda>v. ?m (l, v))(old \<mapsto> (True, False), t \<mapsto> (False, True))"
    and vb: "(\<lambda>v. vb_abs (vb_seg (sn_vbbm sn')) (l, v)) = (\<lambda>v. vb_abs (vb_seg (sn_vbbm sn)) (l, v))(old \<mapsto> (oid, fbo))"
    using b by (simp_all add: blk_def write_blk_def)
  have m': "?m' (l, v) = ((\<lambda>v. ?m (l, v))(old \<mapsto> (True, False), t \<mapsto> (False, True))) v" for v using fun_cong [OF col] .
  have vold: "vb_abs (vb_seg (sn_vbbm sn')) (l, old) = Some (oid, fbo)" using fun_cong [OF vb, of old] by simp
  have le: "v \<le> old" if "?m (l, v) = Some x" for v x
  proof -
    have "(\<lambda>v. ?m (l, v)) \<noteq> Map.empty" using that by (auto dest: fun_cong [of _ _ v])
    with cur obtain lk where "?m (l, old) = Some (False, lk)" by (auto simp: is_current_def blk_def)
    from blk_ok_newest [OF ok this that] show ?thesis .
  qed
  have old0: "0 \<le> old" using ok cur blk_ok_range [OF ok, of old] by (auto simp: is_current_def blk_def split: if_splits)
  have wf: "vss_wf (seg (sn_vss sn'))" "vb_wf (vb_seg (sn_vbbm sn'))" using inv' by (auto simp: sn_inv_def vss_inv_def vb_inv_def)
  have ok': "blk_ok (\<lambda>v. ?m' (l, v), \<lambda>v. vb_abs (vb_seg (sn_vbbm sn')) (l, v))" using inv' by (simp add: sn_inv_def blk_def)
  have pos: "?m' (l, v) \<noteq> None \<Longrightarrow> 0 \<le> v" for v using blk_ok_range [OF ok', of v] by auto
  have fin: "finite {v. ?m' (l, v) \<noteq> None}" using vss_abs_finite [of "seg (sn_vss sn')" l] by (simp add: dom_def)
  have "lookup_spec ?m' l q txn False = (0, old, True)"
  proof (rule lookup_spec_max [OF _ q(1) _ fin])
    show "old \<in> visible ?m' l q txn False" using q(3) t by (auto simp: visible_def m')
    show "x \<le> old" if "x \<in> visible ?m' l q txn False" "x \<le> currentScn q" for x
      using that q(2,4) le by (auto simp: visible_def m' split: if_splits)
    show "?m' (l, old) = Some (True, False)" using t by (simp add: m')
  qed
  moreover have "lookup_spec ?m' l q' t False = (0, t, False)" if scn: "t \<le> currentScn q'"
  proof (rule lookup_spec_max [OF _ scn _ fin])
    show "t \<in> visible ?m' l q' t False" by (auto simp: visible_def m')
    show "x \<le> t" if "x \<in> visible ?m' l q' t False" "x \<le> currentScn q'" for x
      using that t le [of x] by (force simp: visible_def m' split: if_splits)
    show "?m' (l, t) = Some (False, True)" by (simp add: m')
  qed
  moreover have "0 \<le> currentScn q" using q(1) old0 by simp
  moreover have "0 \<le> currentScn q'" if "t \<le> currentScn q'" using that t old0 by simp
  ultimately show ?thesis
    using vss_lookup_ok [OF wf(1) _ pos] vb_lookup_ok [OF wf(2) l old0] vold by simp
qed

section \<open>A concrete node\<close>

definition ex_vb2 :: VBBM where
  "ex_vb2 = ex_vb\<lparr>vb_seg := ex_vb_seg\<lparr>
     vbbm := (vbbm ex_vb_seg)\<lparr>vbCurrentSize := 1\<rparr>,
     vb_storage := (vb_storage ex_vb_seg)[0 := (vb_storage ex_vb_seg ! 0)\<lparr>vb_next := -1\<rparr>,
                                          2 := (vb_storage ex_vb_seg ! 1)]\<rparr>\<rparr>"

definition ex_cl :: CopyLocks where
  "ex_cl = \<lparr>entries = [\<lparr>cl_start = 40, cl_size = 2, cl_txnID = 5\<rparr>, empty_CopyLockEntry],
     cl_shminfo = \<lparr>tableShmkey = KEYRANGE_CL_BASE, allocdSize = 32, mst_currentSize = 16\<rparr>, cl_undoRecords = []\<rparr>"

definition ex_sn :: SlaveDBRMNode where
  "ex_sn = \<lparr>sn_vbbm = ex_vb2, sn_vss = ex_vss, copylocks = ex_cl, locked_vbbm = False, locked_vss = False, locked_cl = False\<rparr>"

lemma ex_vb2_live: "live_ix vb_used (vb_storage (vb_seg ex_vb2)) = {0}"
  by (auto simp: live_ix_def ex_vb2_def ex_vb_seg_def vb_used_def less_Suc_eq numeral_3_eq_3 numeral_2_eq_2)

lemma ex_vb2_abs: "vb_abs (vb_seg ex_vb2) = [(7, 3) \<mapsto> (9, 150)]"
  by (auto simp: vb_abs_def table_def ex_vb2_def ex_vb_seg_def vb_entry_defs fun_eq_iff)

lemma ex_vb2_inv: "vb_inv (vb_seg ex_vb2)"
proof -
  have "hash_wf vb_used vb_next vb_bucket 1 [0] (vb_storage (vb_seg ex_vb2))"
  proof (rule hash_wfI)
    fix b assume "b < length [0::int]"
    then show "\<exists>ks. chain vb_next (vb_storage (vb_seg ex_vb2)) ([0] ! b) ks \<and>
        set ks = {k \<in> live_ix vb_used (vb_storage (vb_seg ex_vb2)). vb_bucket 1 (vb_storage (vb_seg ex_vb2) ! k) = int b}"
      unfolding ex_vb2_live
      by (intro exI [of _ "[0]"]) (auto simp: ex_vb2_def ex_vb_seg_def vb_bucket_def vb_hash_def)
  qed simp_all
  moreover have "keys_inj vb_used vb_key (vb_storage (vb_seg ex_vb2))"
    unfolding keys_inj_def ex_vb2_live by simp
  ultimately show ?thesis
    unfolding vb_inv_def vb_wf_def vb_count_def ex_vb2_live by (simp add: ex_vb2_def ex_vb_seg_def vb_used_def)
qed

lemma ex_cl_inv: "cl_inv ex_cl"
  by (simp add: cl_inv_def ex_cl_def cl_used_def empty_CopyLockEntry_def sizeof_CopyLockEntry_def)

lemma ex_sn_blk: "blk ex_sn l = (if l = 7 then ([3 \<mapsto> (True, False), 5 \<mapsto> (False, True)], [3 \<mapsto> (9, 150)]) else (Map.empty, Map.empty))"
  by (auto simp: blk_def ex_sn_def ex_vss_abs ex_vb2_abs fun_eq_iff)

lemma ex_sn_inv [simp]: "sn_inv ex_sn"
proof -
  let ?m = "[3 \<mapsto> (True, False), 5 \<mapsto> (False, True)] :: VER_t \<rightharpoonup> bool \<times> bool"
  have "blk_ok (?m, [3 \<mapsto> (9, 150)])"
  proof (rule blk_okI)
    have "?m 5 = Some (False, True)" "?m 3 = Some (True, False)" by simp_all
    then show "(\<exists>v lk. ?m v = Some (False, lk)) \<and> (\<exists>v lk. ?m v = Some (True, lk))" by blast
  qed (auto split: if_splits)
  then have "blk_ok (blk ex_sn l)" for l unfolding ex_sn_blk by (cases "l = 7") (simp_all add: blk_ok_def)
  then show ?thesis
    using ex_vb2_inv ex_cl_inv by (simp add: sn_inv_def ex_sn_def ex_vb2_def ex_cl_def)
qed

theorem vbRollback_undoes_writes_witness:
  "\<exists>sn' sn'' flush. txn_writes 9 [4] ex_sn sn' \<and> vss_abs (seg (sn_vss sn')) \<noteq> vss_abs ex_vss_seg \<and>
     vbRollback 9 [4] sn' = Some (0, sn'', flush) \<and> vss_abs (seg (sn_vss sn'')) = vss_abs ex_vss_seg"
proof -
  have cur: "is_current (fst (blk ex_sn 4)) 0" "no_lock (fst (blk ex_sn 4))"
    by (simp_all add: ex_sn_blk is_current_def no_lock_def)
  from writeVBEntry_ok [OF ex_sn_inv _ cur(1) _ cur(2), of 9 9 0] obtain sn' where
    w: "writeVBEntry 9 4 9 0 ex_sn = Some (0, sn')" "blk sn' 4 = write_blk 0 9 (9, 0) (blk ex_sn 4)" by auto
  from txn_writes.first [OF txn_writes.start _ cur(1) _ cur(2) w(1)] have t: "txn_writes 9 [4] ex_sn sn'" by simp
  have "vss_abs (seg (sn_vss sn')) (4, 9) = Some (False, True)"
    using fun_cong [OF arg_cong [OF w(2), of fst], of 9] by (simp add: blk_def write_blk_def)
  then have "vss_abs (seg (sn_vss sn')) \<noteq> vss_abs ex_vss_seg" by (auto simp: ex_vss_abs)
  moreover from vbRollback_undoes_writes [OF t ex_sn_inv] obtain sn'' flush where "vbRollback 9 [4] sn' = Some (0, sn'', flush)"
    "vss_abs (seg (sn_vss sn'')) = vss_abs (seg (sn_vss ex_sn))" by blast
  ultimately show ?thesis using t by (intro exI [of _ sn'] exI [of _ sn''] exI [of _ flush]) (simp add: ex_sn_def)
qed

theorem vbCommit_unlocks_witness:
  "\<exists>sn'. vbCommit 5 ex_sn = Some (0, sn') \<and> vss_abs (seg (sn_vss sn')) (7, 5) = Some (False, False)"
  using vbCommit_unlocks [OF ex_sn_inv, of 5] by (auto simp: commit_spec_def ex_sn_def ex_vss_abs)

theorem writeVBEntry_snapshot_reads_witness:
  "\<exists>sn'. writeVBEntry 9 4 9 77 ex_sn = Some (0, sn') \<and>
     vss_lookup 4 \<lparr>currentScn = 6, txns = [5]\<rparr> 3 False (seg (sn_vss sn')) = Some (0, 0, True) \<and>
     vb_lookup 4 0 (vb_seg (sn_vbbm sn')) = ret (Some (9, 77))"
proof -
  have cur: "is_current (fst (blk ex_sn 4)) 0" "no_lock (fst (blk ex_sn 4))"
    by (simp_all add: ex_sn_blk is_current_def no_lock_def)
  from writeVBEntry_ok [OF ex_sn_inv _ cur(1) _ cur(2), of 9 9 77] obtain sn' where
    w: "writeVBEntry 9 4 9 77 ex_sn = Some (0, sn')" by auto
  from writeVBEntry_snapshot_reads [OF ex_sn_inv _ cur(1) _ cur(2) w, of "\<lparr>currentScn = 6, txns = [5]\<rparr>" 3] w
  show ?thesis by auto
qed

end
