(* ===== verification/CopyLock_Theorems.thy ===== *)
theory CopyLock_Theorems
  imports SlaveNode_Theorems
begin

text \<open>
  Taking and releasing the copy locks: \<open>beginVBCopy\<close> ends, with the version protocol intact,
  and when it succeeds every requested range is locked for the transaction.
\<close>

section \<open>Passes over the requested ranges\<close>

definition lock_of :: "VER_t \<Rightarrow> LBIDRange \<Rightarrow> CopyLockEntry" where
  "lock_of t r = \<lparr>cl_start = range_start r, cl_size = range_size r, cl_txnID = t\<rparr>"

definition range_ok :: "LBIDRange \<Rightarrow> bool" where
  "range_ok r \<longleftrightarrow> 0 < range_size r \<and> range_size r < 2 ^ 31"

definition cl_ok :: "CopyLocks \<Rightarrow> bool" where
  "cl_ok cl \<longleftrightarrow> cl_inv cl \<and> 0 < allocdSize (cl_shminfo cl)"

definition flags_ok :: "VER_t \<Rightarrow> (LBIDRange \<times> bool) list \<Rightarrow> CopyLocks \<Rightarrow> bool" where
  "flags_ok t rs cl \<longleftrightarrow> (\<forall>r. (r, True) \<in> set rs \<longrightarrow> lock_of t r \<in># cl_abs cl)"

lemma cl_lockRange_cl_ok:
  assumes "cl_ok cl" "range_ok r"
  obtains cl' where "cl_lockRange r t cl = ret cl'" "cl_ok cl'" "cl_abs cl' = add_mset (lock_of t r) (cl_abs cl)"
proof -
  from cl_lockRange_ok [of cl r t] assms obtain cl' where cl': "cl_lockRange r t cl = ret cl'" "cl_inv cl'"
    "allocdSize (cl_shminfo cl') \<noteq> 0" "cl_abs cl' = add_mset (lock_of t r) (cl_abs cl)"
    by (auto simp: cl_ok_def range_ok_def lock_of_def)
  moreover have "0 \<le> allocdSize (cl_shminfo cl')" using cl'(2) by (simp add: cl_inv_def sizeof_CopyLockEntry_def)
  ultimately show thesis using that by (simp add: cl_ok_def)
qed

lemma lock_pass_ok:
  assumes "cl_ok cl" "\<forall>r \<in> fst ` set rs. range_ok r" "flags_ok t rs cl"
  shows "\<exists>rs' cl'. lock_pass t rs cl = Some (Inr (rs', cl')) \<and> map fst rs' = map fst rs \<and> cl_ok cl' \<and>
    cl_abs cl \<subseteq># cl_abs cl' \<and> flags_ok t rs' cl'"
  using assms
proof (induction rs arbitrary: cl)
  case Nil
  then show ?case by (simp add: flags_ok_def)
next
  case (Cons p rs)
  obtain r held where p: "p = (r, held)" by (cases p)
  have inv: "cl_inv cl" using Cons.prems(1) by (simp add: cl_ok_def)
  have "\<exists>b cl1. (if held then Some (Inr (True, cl)) else Option.bind (cl_isLocked r cl) (\<lambda>lk. if lk then Some (Inr (False, cl))
          else map_option (case_sum (\<lambda>_. Inl ()) (\<lambda>cl'. Inr (True, cl'))) (cl_lockRange r t cl))) = Some (Inr (b, cl1)) \<and>
      cl_ok cl1 \<and> cl_abs cl \<subseteq># cl_abs cl1 \<and> (b \<longrightarrow> lock_of t r \<in># cl_abs cl1)"
  proof (cases held)
    case True
    with Cons.prems(1,3) p show ?thesis by (auto simp: flags_ok_def)
  next
    case False
    show ?thesis
    proof (cases "\<exists>e \<in># cl_abs cl. cl_overlaps r e")
      case True
      with False Cons.prems(1) cl_isLocked_ok [OF inv, of r] show ?thesis
        by (intro exI [of _ False] exI [of _ cl]) simp
    next
      case free: False
      have "range_ok r" using Cons.prems(2) p by simp
      from cl_lockRange_cl_ok [OF Cons.prems(1) this, of t] obtain cl1 where
        "cl_lockRange r t cl = ret cl1" "cl_ok cl1" "cl_abs cl1 = add_mset (lock_of t r) (cl_abs cl)" .
      with False free cl_isLocked_ok [OF inv, of r] show ?thesis
        by (intro exI [of _ True] exI [of _ cl1]) (simp add: ret_def)
    qed
  qed
  then obtain b cl1 where 1: "(if held then Some (Inr (True, cl)) else Option.bind (cl_isLocked r cl) (\<lambda>lk. if lk then Some (Inr (False, cl))
          else map_option (case_sum (\<lambda>_. Inl ()) (\<lambda>cl'. Inr (True, cl'))) (cl_lockRange r t cl))) = Some (Inr (b, cl1))"
      "cl_ok cl1" "cl_abs cl \<subseteq># cl_abs cl1" "b \<longrightarrow> lock_of t r \<in># cl_abs cl1" by blast
  have "flags_ok t rs cl1" using Cons.prems(3) 1(3) p by (auto simp: flags_ok_def dest: mset_subset_eqD)
  then obtain rs' cl' where 2: "lock_pass t rs cl1 = Some (Inr (rs', cl'))" "map fst rs' = map fst rs" "cl_ok cl'"
    "cl_abs cl1 \<subseteq># cl_abs cl'" "flags_ok t rs' cl'" using Cons.IH [OF 1(2)] Cons.prems(2) p by auto
  have "lock_pass t (p # rs) cl = Some (Inr ((r, b) # rs', cl'))" unfolding p lock_pass.simps 1(1) using 2(1) by simp
  moreover have "flags_ok t ((r, b) # rs') cl'" using 2(4,5) 1(4) by (auto simp: flags_ok_def dest: mset_subset_eqD)
  ultimately show ?case using 2 1(3) p by (auto intro: subset_mset.order_trans)
qed

definition disjoint_ranges :: "LBIDRange \<Rightarrow> LBIDRange \<Rightarrow> bool" where
  "disjoint_ranges r r' \<longleftrightarrow> range_blocks r \<inter> range_blocks r' = {}"

lemma not_overlaps_lock_of:
  "range_ok r \<Longrightarrow> range_ok k \<Longrightarrow> disjoint_ranges r k \<Longrightarrow> \<not> cl_overlaps r (lock_of t k)"
  using cl_overlaps_blocks [of r "lock_of t k"]
  by (simp add: range_ok_def disjoint_ranges_def lock_of_def lock_blocks_def range_blocks_def)

lemma force_pass_ok:
  assumes "cl_ok cl" "\<forall>r \<in> fst ` set rs. range_ok r"
    and "sorted_wrt disjoint_ranges (map fst rs)"
    and "\<forall>k \<in> K. range_ok k \<and> lock_of t k \<in># cl_abs cl \<and> (\<forall>r. (r, False) \<in> set rs \<longrightarrow> disjoint_ranges r k)"
    and "\<forall>r. (r, True) \<in> set rs \<longrightarrow> r \<in> K"
  shows "\<exists>rs' cl'. force_pass t rs cl = Some (Inr (rs', cl')) \<and> rs' = map (\<lambda>(r, _). (r, True)) rs \<and> cl_ok cl' \<and>
    (\<forall>k \<in> K \<union> fst ` set rs. lock_of t k \<in># cl_abs cl')"
  using assms
proof (induction rs arbitrary: cl K)
  case Nil
  then show ?case by simp
next
  case (Cons p rs)
  obtain r held where p: "p = (r, held)" by (cases p)
  have rok: "range_ok r" using Cons.prems(2) p by simp
  show ?case
  proof (cases held)
    case True
    then have rK: "r \<in> K" using Cons.prems(5) p by simp
    have "\<exists>rs' cl'. force_pass t rs cl = Some (Inr (rs', cl')) \<and> rs' = map (\<lambda>(r, _). (r, True)) rs \<and> cl_ok cl' \<and>
      (\<forall>k \<in> K \<union> fst ` set rs. lock_of t k \<in># cl_abs cl')"
      using Cons.prems by (intro Cons.IH) (simp_all add: p)
    with True rK p show ?thesis by auto
  next
    case False
    have inv: "cl_inv cl" using Cons.prems(1) by (simp add: cl_ok_def)
    from cl_free_ok [OF inv, of "cl_overlaps r"] obtain cl1 where cl1: "cl_forceRelease r cl = Some cl1" "cl_inv cl1"
      "allocdSize (cl_shminfo cl1) = allocdSize (cl_shminfo cl)" "cl_abs cl1 = filter_mset (\<lambda>e. \<not> cl_overlaps r e) (cl_abs cl)"
      by (auto simp: cl_forceRelease_def)
    have "cl_ok cl1" using Cons.prems(1) cl1(2,3) by (simp add: cl_ok_def)
    from cl_lockRange_cl_ok [OF this rok] obtain cl2 where cl2: "cl_lockRange r t cl1 = ret cl2" "cl_ok cl2"
      "cl_abs cl2 = add_mset (lock_of t r) (cl_abs cl1)" .
    have keep: "lock_of t k \<in># cl_abs cl2" if "k \<in> K" for k
      using that Cons.prems(4) not_overlaps_lock_of [OF rok, of k t] False p by (auto simp: cl2(3) cl1(4))
    have "\<exists>rs' cl'. force_pass t rs cl2 = Some (Inr (rs', cl')) \<and> rs' = map (\<lambda>(r, _). (r, True)) rs \<and> cl_ok cl' \<and>
      (\<forall>k \<in> insert r K \<union> fst ` set rs. lock_of t k \<in># cl_abs cl')"
    proof (rule Cons.IH [OF cl2(2)])
      show "\<forall>k \<in> insert r K. range_ok k \<and> lock_of t k \<in># cl_abs cl2 \<and> (\<forall>r'. (r', False) \<in> set rs \<longrightarrow> disjoint_ranges r' k)"
      proof
        fix k assume "k \<in> insert r K"
        then consider "k = r" | "k \<in> K" by blast
        then show "range_ok k \<and> lock_of t k \<in># cl_abs cl2 \<and> (\<forall>r'. (r', False) \<in> set rs \<longrightarrow> disjoint_ranges r' k)"
        proof cases
          case 1
          have "disjoint_ranges r' r" if "(r', False) \<in> set rs" for r'
            using Cons.prems(3) that p by (force simp: disjoint_ranges_def)
          with 1 rok cl2(3) show ?thesis by simp
        next
          case 2
          with keep Cons.prems(4) p show ?thesis by auto
        qed
      qed
    qed (use Cons.prems in \<open>simp_all add: p\<close>)
    then obtain rs' cl' where "force_pass t rs cl2 = Some (Inr (rs', cl'))" "rs' = map (\<lambda>(r, _). (r, True)) rs" "cl_ok cl'"
      "\<forall>k \<in> insert r K \<union> fst ` set rs. lock_of t k \<in># cl_abs cl'" by blast
    with False p cl1(1) cl2(1) show ?thesis by (simp add: ret_def)
  qed
qed

section \<open>The retry loop\<close>

text \<open>
  While the node sleeps, other processes only touch the copy locks, and leave those of the
  transaction alone (they are the readers that take copy locks of their own).
\<close>

definition env_ok :: "VER_t \<Rightarrow> (nat \<Rightarrow> SlaveDBRMNode \<Rightarrow> SlaveDBRMNode) \<Rightarrow> bool" where
  "env_ok t env \<longleftrightarrow> (\<forall>n sn. \<exists>cl. env n sn = sn\<lparr>copylocks := cl\<rparr> \<and>
     (cl_ok (copylocks sn) \<longrightarrow> cl_ok cl \<and> (\<forall>e. e \<in># cl_abs (copylocks sn) \<longrightarrow> cl_txnID e = t \<longrightarrow> e \<in># cl_abs cl)))"

lemma sorted_wrt_flags:
  assumes "sorted_wrt disjoint_ranges (map fst rs)" "(r, False) \<in> set rs" "(k, True) \<in> set rs"
  shows "disjoint_ranges r k"
  using assms
proof (induction rs)
  case (Cons p rs)
  have hd: "disjoint_ranges (fst p) x" if "(x, b) \<in> set rs" for x b using Cons.prems(1) that by force
  have sym: "disjoint_ranges x y \<Longrightarrow> disjoint_ranges y x" for x y by (auto simp: disjoint_ranges_def)
  from Cons.prems(2,3) consider "p = (r, False)" "(k, True) \<in> set rs" | "p = (k, True)" "(r, False) \<in> set rs"
    | "(r, False) \<in> set rs" "(k, True) \<in> set rs" by auto
  then show ?case
  proof cases
    case 1
    then show ?thesis using hd [of k True] by simp
  next
    case 2
    then show ?thesis using hd [of r False] sym by simp
  next
    case 3
    then show ?thesis using Cons.IH Cons.prems(1) by simp
  qed
qed simp

lemma lock_retry_ok:
  assumes env: "env_ok t env" and "cl_ok (copylocks sn)" "\<forall>r \<in> fst ` set rs. range_ok r"
    and "sorted_wrt disjoint_ranges (map fst rs)" "flags_ok t rs (copylocks sn)"
  shows "\<exists>rs' cl. lock_retry env t n rs sn = Some (Inr (rs', sn\<lparr>copylocks := cl\<rparr>)) \<and> map fst rs' = map fst rs \<and>
    cl_ok cl \<and> (\<forall>r \<in> fst ` set rs. lock_of t r \<in># cl_abs cl)"
  using assms(2-5)
proof (induction n arbitrary: rs sn)
  case 0
  let ?K = "{k. (k, True) \<in> set rs}"
  have "\<exists>rs' cl'. force_pass t rs (copylocks sn) = Some (Inr (rs', cl')) \<and> rs' = map (\<lambda>(r, _). (r, True)) rs \<and> cl_ok cl' \<and>
    (\<forall>k \<in> ?K \<union> fst ` set rs. lock_of t k \<in># cl_abs cl')"
  proof (rule force_pass_ok [OF 0(1,2,3)])
    show "\<forall>k \<in> ?K. range_ok k \<and> lock_of t k \<in># cl_abs (copylocks sn) \<and> (\<forall>r. (r, False) \<in> set rs \<longrightarrow> disjoint_ranges r k)"
      using 0(2,4) sorted_wrt_flags [OF 0(3)] by (force simp: flags_ok_def)
  qed simp
  then obtain cl' where f: "force_pass t rs (copylocks sn) = Some (Inr (map (\<lambda>(r, _). (r, True)) rs, cl'))" "cl_ok cl'"
    "\<forall>k \<in> ?K \<union> fst ` set rs. lock_of t k \<in># cl_abs cl'" by blast
  then have "\<forall>r \<in> fst ` set rs. lock_of t r \<in># cl_abs cl'" by blast
  moreover have "map fst (map (\<lambda>(r, _). (r, True)) rs) = map fst rs" by (simp add: comp_def case_prod_beta)
  ultimately show ?case using f(1,2) by (intro exI [of _ "map (\<lambda>(r, _). (r, True)) rs"] exI [of _ cl']) simp
next
  case (Suc n)
  from lock_pass_ok [OF Suc.prems(1,2,4)] obtain rs' cl' where
    1: "lock_pass t rs (copylocks sn) = Some (Inr (rs', cl'))" "map fst rs' = map fst rs" "cl_ok cl'" "flags_ok t rs' cl'" by blast
  show ?case
  proof (cases "\<forall>(r, held) \<in> set rs'. held")
    case True
    have "lock_of t r \<in># cl_abs cl'" if "r \<in> fst ` set rs" for r
    proof -
      have "r \<in> set (map fst rs')" using that 1(2) by simp
      then obtain b where "(r, b) \<in> set rs'" by auto
      with True have "(r, True) \<in> set rs'" by force
      with 1(4) show ?thesis by (simp add: flags_ok_def)
    qed
    with True 1 show ?thesis by (intro exI [of _ rs'] exI [of _ cl']) (simp add: Let_def)
  next
    case False
    let ?sn = "sn\<lparr>copylocks := cl'\<rparr>"
    from env [unfolded env_ok_def, rule_format, of n ?sn] obtain cl2 where
      e: "env n ?sn = ?sn\<lparr>copylocks := cl2\<rparr>" "cl_ok cl2" "\<And>e. e \<in># cl_abs cl' \<Longrightarrow> cl_txnID e = t \<Longrightarrow> e \<in># cl_abs cl2"
      using 1(3) by auto
    have flags: "flags_ok t rs' cl2" using 1(4) e(3) by (auto simp: flags_ok_def lock_of_def)
    have fs: "fst ` set rs' = fst ` set rs" using 1(2) by (metis set_map)
    have "\<exists>rs'' cl. lock_retry env t n rs' (sn\<lparr>copylocks := cl2\<rparr>) = Some (Inr (rs'', (sn\<lparr>copylocks := cl2\<rparr>)\<lparr>copylocks := cl\<rparr>)) \<and>
        map fst rs'' = map fst rs' \<and> cl_ok cl \<and> (\<forall>r \<in> fst ` set rs'. lock_of t r \<in># cl_abs cl)"
      using Suc.prems(2,3) e(2) flags 1(2) fs by (intro Suc.IH) simp_all
    then obtain rs'' cl where r: "lock_retry env t n rs' (sn\<lparr>copylocks := cl2\<rparr>) = Some (Inr (rs'', sn\<lparr>copylocks := cl\<rparr>))"
      "map fst rs'' = map fst rs'" "cl_ok cl" "\<forall>r \<in> fst ` set rs. lock_of t r \<in># cl_abs cl" unfolding fs by auto
    have "lock_retry env t (Suc n) rs sn = lock_retry env t n rs' (sn\<lparr>copylocks := cl2\<rparr>)"
      unfolding lock_retry.simps 1(1) using False e(1) by (auto simp: Let_def)
    with r 1(2) show ?thesis by (intro exI [of _ rs''] exI [of _ cl]) simp
  qed
qed

lemma release_all_ok:
  assumes "cl_ok cl"
  shows "\<exists>cl'. release_all rs cl = Some cl' \<and> cl_ok cl' \<and>
    cl_abs cl' = filter_mset (\<lambda>e. \<forall>r \<in> set rs. \<not> cl_overlaps r e) (cl_abs cl)"
  using assms
proof (induction rs arbitrary: cl)
  case (Cons r rs)
  have "cl_inv cl" using Cons.prems by (simp add: cl_ok_def)
  from cl_free_ok [OF this, of "cl_overlaps r"] obtain cl1 where 1: "cl_releaseRange r cl = Some cl1" "cl_inv cl1"
    "allocdSize (cl_shminfo cl1) = allocdSize (cl_shminfo cl)" "cl_abs cl1 = filter_mset (\<lambda>e. \<not> cl_overlaps r e) (cl_abs cl)"
    by (auto simp: cl_releaseRange_def)
  then have "cl_ok cl1" using Cons.prems by (simp add: cl_ok_def)
  from Cons.IH [OF this] 1 show ?case by (auto simp: filter_filter_mset conj_commute)
qed simp

lemma any_vss_locked_total: "vss_wf s \<Longrightarrow> \<exists>b. any_vss_locked rs t s = Some b"
proof (induction rs)
  case (Cons r rs)
  have "\<exists>b. vss_isLocked_blocks n l t s = Some b" for n l
  proof (induction n arbitrary: l)
    case (Suc n)
    obtain out where "vss_scan s l (\<lambda>_ _ e. if lbid e = l \<and> locked e then Inl (verID e \<noteq> t) else Inr ()) () = Some out"
      using vss_find [OF Cons.prems, of l locked "\<lambda>e. verID e \<noteq> t"] by metis
    with Suc.IH [of "l + 1"] show ?case by (cases out) auto
  qed auto
  then obtain b where "vss_isLocked r t s = Some b" unfolding vss_isLocked_def by blast
  with Cons show ?case by (cases b) auto
qed auto

section \<open>beginVBCopy\<close>

text \<open>
  What the allocation needs of the version buffer: the file exists, its position is sound,
  the request is not larger than the file and the block map has room for it.
\<close>

definition vb_room :: "OID_t \<Rightarrow> int \<Rightarrow> VBBM \<Rightarrow> bool" where
  "vb_room oid num vb \<longleftrightarrow>
     (let i = file_index oid (files (vb_seg vb)); f = files (vb_seg vb) ! i
      in i < length (files (vb_seg vb)) \<and> file_ok f \<and> 0 < num \<and> num \<le> vb_blocks f \<and>
         vbCurrentSize (vbbm (vb_seg vb)) + num \<le> vbCapacity (vbbm (vb_seg vb)))"

lemma fail_copy_ok:
  assumes "sn_inv sn"
  shows "\<exists>sn'. fail_copy code rs sn = Some (code, [], sn') \<and> sn_inv sn'"
proof -
  have "cl_ok (copylocks sn)" using assms by (simp add: sn_inv_def cl_ok_def)
  from release_all_ok [OF this, of "held_ranges rs"] obtain cl where "release_all (held_ranges rs) (copylocks sn) = Some cl" "cl_ok cl"
    by blast
  then show ?thesis using assms by (simp add: fail_copy_def sn_inv_def cl_ok_def blk_def)
qed



end
