(* ===== verification/ExtentMap.thy ===== *)
theory ExtentMap
  imports Shm "HOL-Library.Word"
begin

text \<open>
  The extent map (\<open>versioning/BRM/extentmap.cpp\<close>, \<open>extentmap.h\<close>): the shared table of extents,
  each a range of logical blocks with the file, partition and segment it belongs to, and the
  free list of the logical block space. This theory holds the data, the undo log, the
  allocation and growth of the two segments, and what all operations share. The operations
  on casual partitioning, lookups and high water marks, allocation, rollback, partitions
  and images are in the theories \<open>EM_Casual\<close>, \<open>EM_Lookup\<close>, \<open>EM_Space\<close>, \<open>EM_Create\<close>, \<open>EM_Rollback\<close>,
  \<open>EM_Partition\<close> and \<open>EM_Image\<close>.
\<close>

section \<open>Data\<close>

definition u16_of :: "int \<Rightarrow> int" where
  "u16_of x = x mod 2 ^ 16"

lemma u16_id: "0 \<le> x \<Longrightarrow> x < 65536 \<Longrightarrow> u16_of x = x"
  by (simp add: u16_of_def)

record InlineLBIDRange =
  il_start :: LBID_t
  il_size :: int

text \<open>
  The bounds of an extent's values are 64 bit patterns that signed and unsigned columns read
  differently, so they keep their width.
\<close>

record EMCasualPartition_t =
  hi_val :: "64 word"
  lo_val :: "64 word"
  sequenceNum :: int
  isValid :: int

definition CP_INVALID :: int where "CP_INVALID = 0"
definition CP_UPDATING :: int where "CP_UPDATING = 1"
definition CP_VALID :: int where "CP_VALID = 2"

lemmas cp_defs = CP_INVALID_def CP_UPDATING_def CP_VALID_def

record EMEntry =
  em_range :: InlineLBIDRange
  fileID :: OID_t
  blockOffset :: int
  HWM :: int
  partitionNum :: int
  segmentNum :: int
  dbRoot :: int
  colWid :: int
  em_status :: int
  cprange :: EMCasualPartition_t

definition EXTENTAVAILABLE :: int where "EXTENTAVAILABLE = 0"
definition EXTENTUNAVAILABLE :: int where "EXTENTUNAVAILABLE = 1"
definition EXTENTOUTOFSERVICE :: int where "EXTENTOUTOFSERVICE = 2"

lemmas status_defs = EXTENTAVAILABLE_def EXTENTUNAVAILABLE_def EXTENTOUTOFSERVICE_def

text \<open>The column types, as far as the extent map tells them apart.\<close>

datatype ColDataType =
    BIT | TINYINT | CHAR_t | SMALLINT | DECIMAL | MEDINT | INT_t | FLOAT | DATE | BIGINT | DOUBLE
  | DATETIME | VARCHAR | VARBINARY | CLOB | BLOB | UTINYINT | USMALLINT | UDECIMAL | UMEDINT
  | UINT | UFLOAT | UBIGINT | UDOUBLE | NUM_OF_COL_DATA_TYPE | LONGDOUBLE | STRINT

definition isUnsigned :: "ColDataType \<Rightarrow> bool" where
  "isUnsigned t \<longleftrightarrow> t \<in> {UTINYINT, USMALLINT, UMEDINT, UINT, UBIGINT}"

definition isCharType :: "ColDataType \<Rightarrow> bool" where
  "isCharType t \<longleftrightarrow> t = VARCHAR \<or> t = CHAR_t"

text \<open>
  What the undo log saves: a slot of the map or of the free list, with the key of the segment
  it lies in, or a segment's descriptor. \<open>ed_pointer\<close> is a record of the class members
  \<open>fEMShminfo\<close> or \<open>fFLShminfo\<close> themselves (\<open>makeUndoRecord(&fEMShminfo, ...)\<close>): writing it back
  changes no shared data.
\<close>

datatype em_delta =
    ed_entry int nat EMEntry
  | ed_emshm MSTEntry
  | ed_range int nat InlineLBIDRange
  | ed_flshm MSTEntry
  | ed_pointer

record ExtentMap =
  fExtentMap :: "EMEntry list"
  fEMShminfo :: MSTEntry
  fFreeList :: "InlineLBIDRange list"
  fFLShminfo :: MSTEntry
  em_undoRecords :: "em_delta list"
  emLocked :: bool
  flLocked :: bool

text \<open>
  The outcome of an operation that changes the map: an exception or a value, with the map as
  it is then (a caller that catches the exception goes on to undo the changes).
\<close>

type_synonym 'a em_out = "((exn + 'a) \<times> ExtentMap) option"

section \<open>Sizes\<close>

definition sizeof_EMEntry :: int where "sizeof_EMEntry = 64"
definition sizeof_InlineLBIDRange :: int where "sizeof_InlineLBIDRange = 16"
definition EM_INCREMENT_ROWS :: int where "EM_INCREMENT_ROWS = 100"
definition EM_INITIAL_SIZE :: int where "EM_INITIAL_SIZE = EM_INCREMENT_ROWS * 10 * sizeof_EMEntry"
definition EM_INCREMENT :: int where "EM_INCREMENT = EM_INCREMENT_ROWS * sizeof_EMEntry"
definition EM_FREELIST_INITIAL_SIZE :: int where "EM_FREELIST_INITIAL_SIZE = 50 * sizeof_InlineLBIDRange"
definition EM_FREELIST_INCREMENT :: int where "EM_FREELIST_INCREMENT = 50 * sizeof_InlineLBIDRange"

lemmas em_size_defs =
  sizeof_EMEntry_def sizeof_InlineLBIDRange_def EM_INCREMENT_ROWS_def EM_INITIAL_SIZE_def
  EM_INCREMENT_def EM_FREELIST_INITIAL_SIZE_def EM_FREELIST_INCREMENT_def

text \<open>The contents of zeroed memory.\<close>

definition zero_range :: InlineLBIDRange where
  "zero_range = \<lparr>il_start = 0, il_size = 0\<rparr>"

definition zero_EMEntry :: EMEntry where
  "zero_EMEntry = \<lparr>em_range = zero_range, fileID = 0, blockOffset = 0, HWM = 0, partitionNum = 0, segmentNum = 0,
     dbRoot = 0, colWid = 0, em_status = 0,
     cprange = \<lparr>hi_val = 0, lo_val = 0, sequenceNum = 0, isValid = 0\<rparr>\<rparr>"

section \<open>The undo log\<close>

definition em_makeUndoRecord :: "em_delta \<Rightarrow> ExtentMap \<Rightarrow> ExtentMap" where
  "em_makeUndoRecord d st = st\<lparr>em_undoRecords := em_undoRecords st @ [d]\<rparr>"

fun em_apply_delta :: "em_delta \<Rightarrow> ExtentMap \<Rightarrow> ExtentMap" where
  "em_apply_delta (ed_entry key i e) st = st\<lparr>fExtentMap := (fExtentMap st)[i := e]\<rparr>"
| "em_apply_delta (ed_emshm m) st = st\<lparr>fEMShminfo := m\<rparr>"
| "em_apply_delta (ed_range key i r) st = st\<lparr>fFreeList := (fFreeList st)[i := r]\<rparr>"
| "em_apply_delta (ed_flshm m) st = st\<lparr>fFLShminfo := m\<rparr>"
| "em_apply_delta ed_pointer st = st"

text \<open>A record points into the segment that is mapped: anything else is a write to unmapped memory.\<close>

fun em_delta_ok :: "int \<Rightarrow> int \<Rightarrow> em_delta \<Rightarrow> bool" where
  "em_delta_ok emkey flkey (ed_entry key i e) \<longleftrightarrow> key = emkey"
| "em_delta_ok emkey flkey (ed_range key i r) \<longleftrightarrow> key = flkey"
| "em_delta_ok emkey flkey _ \<longleftrightarrow> True"

definition em_log_ok :: "ExtentMap \<Rightarrow> bool" where
  "em_log_ok st \<longleftrightarrow>
     (\<forall>d \<in> set (em_undoRecords st). em_delta_ok (tableShmkey (fEMShminfo st)) (tableShmkey (fFLShminfo st)) d)"

definition em_finishChanges :: "ExtentMap \<Rightarrow> ExtentMap" where
  "em_finishChanges st = st\<lparr>flLocked := False, emLocked := False\<rparr>"

definition em_undoChanges :: "ExtentMap \<Rightarrow> ExtentMap option" where
  "em_undoChanges st =
     (if em_log_ok st
      then Some (em_finishChanges ((foldr em_apply_delta (em_undoRecords st) st)\<lparr>em_undoRecords := []\<rparr>))
      else None)"

definition em_confirmChanges :: "ExtentMap \<Rightarrow> ExtentMap" where
  "em_confirmChanges st = em_finishChanges (st\<lparr>em_undoRecords := []\<rparr>)"

section \<open>Segments\<close>

definition chooseEMShmkey :: "ExtentMap \<Rightarrow> int" where
  "chooseEMShmkey st = choose_key KEYRANGE_EXTENTMAP_BASE (tableShmkey (fEMShminfo st))"

definition chooseFLShmkey :: "ExtentMap \<Rightarrow> int" where
  "chooseFLShmkey st = choose_key KEYRANGE_EMFREELIST_BASE (tableShmkey (fFLShminfo st))"

text \<open>A new segment holds the old slots, then zeroed ones.\<close>

definition growEMShmseg :: "int \<Rightarrow> ExtentMap \<Rightarrow> ExtentMap" where
  "growEMShmseg nrows st =
     (let allocSize = (if allocdSize (fEMShminfo st) = 0 then EM_INITIAL_SIZE
                       else allocdSize (fEMShminfo st) + EM_INCREMENT);
          allocSize' = max allocSize (nrows * sizeof_EMEntry);
          old = (if allocdSize (fEMShminfo st) = 0 then [] else fExtentMap st)
      in st\<lparr>fExtentMap := old @ replicate (nat (allocSize' div sizeof_EMEntry) - length old) zero_EMEntry,
            fEMShminfo := (fEMShminfo st)\<lparr>tableShmkey := chooseEMShmkey st, allocdSize := allocSize'\<rparr>\<rparr>)"

definition growFLShmseg :: "ExtentMap \<Rightarrow> ExtentMap" where
  "growFLShmseg st =
     (if allocdSize (fFLShminfo st) = 0
      then st\<lparr>fFreeList := \<lparr>il_start = 0, il_size = 2 ^ 36 div 1024\<rparr> # replicate (nat (EM_FREELIST_INITIAL_SIZE div sizeof_InlineLBIDRange) - 1) zero_range,
              fFLShminfo := \<lparr>tableShmkey = chooseFLShmkey st, allocdSize = EM_FREELIST_INITIAL_SIZE,
                             mst_currentSize = sizeof_InlineLBIDRange\<rparr>\<rparr>
      else let allocSize = allocdSize (fFLShminfo st) + EM_FREELIST_INCREMENT
           in st\<lparr>fFreeList := fFreeList st @ replicate (nat (allocSize div sizeof_InlineLBIDRange) - length (fFreeList st)) zero_range,
                 fFLShminfo := (fFLShminfo st)\<lparr>tableShmkey := chooseFLShmkey st, allocdSize := allocSize\<rparr>\<rparr>)"

text \<open>
  Taking a write lock maps the segment, creating it the first time. A read lock does the same
  and reads a segment of zeroed slots then, so readers see the same as in an empty table.
\<close>

definition grabEMEntryTable :: "ExtentMap \<Rightarrow> ExtentMap" where
  "grabEMEntryTable st = (let st' = st\<lparr>emLocked := True\<rparr> in if allocdSize (fEMShminfo st') = 0 then growEMShmseg 0 st' else st')"

definition grabFreeList :: "ExtentMap \<Rightarrow> ExtentMap" where
  "grabFreeList st = (let st' = st\<lparr>flLocked := True\<rparr> in if allocdSize (fFLShminfo st') = 0 then growFLShmseg st' else st')"

definition releaseEMEntryTable :: "ExtentMap \<Rightarrow> ExtentMap" where
  "releaseEMEntryTable st = st\<lparr>emLocked := False\<rparr>"

definition releaseFreeList :: "ExtentMap \<Rightarrow> ExtentMap" where
  "releaseFreeList st = st\<lparr>flLocked := False\<rparr>"

text \<open>The slots a loop visits; it is undefined beyond the end of the segment.\<close>

definition em_slots :: "ExtentMap \<Rightarrow> EMEntry list option" where
  "em_slots st =
     (let n = nat (allocdSize (fEMShminfo st) div sizeof_EMEntry)
      in if n \<le> length (fExtentMap st) then Some (take n (fExtentMap st)) else None)"

definition fl_slots :: "ExtentMap \<Rightarrow> InlineLBIDRange list option" where
  "fl_slots st =
     (let n = nat (allocdSize (fFLShminfo st) div sizeof_InlineLBIDRange)
      in if n \<le> length (fFreeList st) then Some (take n (fFreeList st)) else None)"

definition em_used :: "EMEntry \<Rightarrow> bool" where
  "em_used e \<longleftrightarrow> il_size (em_range e) \<noteq> 0"

text \<open>The first and one past the last block of a range.\<close>

definition il_end :: "InlineLBIDRange \<Rightarrow> LBID_t" where
  "il_end r = il_start r + il_size r * 1024"

definition em_contains :: "LBID_t \<Rightarrow> EMEntry \<Rightarrow> bool" where
  "em_contains l e \<longleftrightarrow> em_used e \<and> il_start (em_range e) \<le> l \<and> l \<le> il_end (em_range e) - 1"

text \<open>The index of the first slot with a property.\<close>

definition find_slot :: "('e \<Rightarrow> bool) \<Rightarrow> 'e list \<Rightarrow> nat option" where
  "find_slot P es = find (\<lambda>i. P (es ! i)) [0..<length es]"

section \<open>Logged changes\<close>

text \<open>\<open>makeUndoRecord(&fExtentMap[i], ...)\<close> and the new contents of the slot; the same for the free list.\<close>

definition em_put :: "nat \<Rightarrow> EMEntry \<Rightarrow> ExtentMap \<Rightarrow> ExtentMap" where
  "em_put i e st =
     (em_makeUndoRecord (ed_entry (tableShmkey (fEMShminfo st)) i (fExtentMap st ! i)) st)
       \<lparr>fExtentMap := (fExtentMap st)[i := e]\<rparr>"

definition fl_put :: "nat \<Rightarrow> InlineLBIDRange \<Rightarrow> ExtentMap \<Rightarrow> ExtentMap" where
  "fl_put i r st =
     (em_makeUndoRecord (ed_range (tableShmkey (fFLShminfo st)) i (fFreeList st ! i)) st)
       \<lparr>fFreeList := (fFreeList st)[i := r]\<rparr>"

definition em_resize :: "int \<Rightarrow> ExtentMap \<Rightarrow> ExtentMap" where
  "em_resize delta st =
     (em_makeUndoRecord (ed_emshm (fEMShminfo st)) st)
       \<lparr>fEMShminfo := (fEMShminfo st)\<lparr>mst_currentSize := mst_currentSize (fEMShminfo st) + delta\<rparr>\<rparr>"

definition fl_resize :: "int \<Rightarrow> ExtentMap \<Rightarrow> ExtentMap" where
  "fl_resize delta st =
     (em_makeUndoRecord (ed_flshm (fFLShminfo st)) st)
       \<lparr>fFLShminfo := (fFLShminfo st)\<lparr>mst_currentSize := mst_currentSize (fFLShminfo st) + delta\<rparr>\<rparr>"

section \<open>Lemmas on slots\<close>

text \<open>The descriptors agree with the segments, and both segments exist.\<close>

definition em_geom :: "ExtentMap \<Rightarrow> bool" where
  "em_geom st \<longleftrightarrow>
     allocdSize (fEMShminfo st) = sizeof_EMEntry * int (length (fExtentMap st)) \<and> fExtentMap st \<noteq> [] \<and>
     allocdSize (fFLShminfo st) = sizeof_InlineLBIDRange * int (length (fFreeList st)) \<and> fFreeList st \<noteq> []"

lemma em_slots_geom [simp]: "em_geom st \<Longrightarrow> em_slots st = Some (fExtentMap st)"
  by (simp add: em_geom_def em_slots_def sizeof_EMEntry_def)

lemma fl_slots_geom [simp]: "em_geom st \<Longrightarrow> fl_slots st = Some (fFreeList st)"
  by (simp add: em_geom_def fl_slots_def sizeof_InlineLBIDRange_def)

lemma grab_geom [simp]:
  "em_geom st \<Longrightarrow> grabEMEntryTable st = st\<lparr>emLocked := True\<rparr>"
  "em_geom st \<Longrightarrow> grabFreeList st = st\<lparr>flLocked := True\<rparr>"
  by (simp_all add: em_geom_def grabEMEntryTable_def grabFreeList_def Let_def em_size_defs)

lemma em_geom_flags [simp]:
  "em_geom (st\<lparr>emLocked := b\<rparr>) = em_geom st" "em_geom (st\<lparr>flLocked := b\<rparr>) = em_geom st"
  by (simp_all add: em_geom_def)

lemma find_slot_Some:
  "find_slot P es = Some i \<longleftrightarrow> i < length es \<and> P (es ! i) \<and> (\<forall>j < i. \<not> P (es ! j))"
  by (auto simp: find_slot_def find_Some_iff)

lemma find_slot_None: "find_slot P es = None \<longleftrightarrow> (\<forall>e \<in> set es. \<not> P e)"
  by (auto simp: find_slot_def find_None_iff all_set_conv_all_nth)

lemma find_slot_cong: "(\<And>e. e \<in> set es \<Longrightarrow> P e = Q e) \<Longrightarrow> find_slot P es = find_slot Q es"
  unfolding find_slot_def by (rule find_cong) auto

text \<open>When at most one slot has the property, the scan finds it.\<close>

lemma find_slot_unique:
  "i < length es \<Longrightarrow> P (es ! i) \<Longrightarrow> (\<And>j. j < length es \<Longrightarrow> P (es ! j) \<Longrightarrow> j = i) \<Longrightarrow> find_slot P es = Some i"
  unfolding find_slot_Some by (metis less_trans less_irrefl)

lemma find_slot_map: "find_slot P (map f es) = find_slot (P \<circ> f) es"
  unfolding find_slot_def by (rule find_cong) auto

section \<open>What the undo log restores\<close>

definition em_undone :: "ExtentMap \<Rightarrow> ExtentMap" where
  "em_undone st = em_finishChanges ((foldr em_apply_delta (em_undoRecords st) st)\<lparr>em_undoRecords := []\<rparr>)"

text \<open>\<open>st'\<close> extends \<open>st\<close> by logged changes.\<close>

definition em_undo_ext :: "ExtentMap \<Rightarrow> ExtentMap \<Rightarrow> bool" where
  "em_undo_ext st st' \<longleftrightarrow> (em_log_ok st \<longrightarrow> em_log_ok st') \<and> em_undone st' = em_undone st"

lemma em_undo_ext_refl [simp]: "em_undo_ext st st"
  by (simp add: em_undo_ext_def)

lemma em_undo_ext_trans [trans]: "em_undo_ext st st' \<Longrightarrow> em_undo_ext st' st'' \<Longrightarrow> em_undo_ext st st''"
  by (simp add: em_undo_ext_def)

lemma em_undoChanges_ext:
  assumes "em_undo_ext st st'" "em_undoRecords st = []"
  shows "em_undoChanges st' = Some (em_finishChanges st)"
proof -
  have "em_log_ok st" using assms(2) by (simp add: em_log_ok_def)
  then show ?thesis using assms
    by (cases st) (simp add: em_undo_ext_def em_undoChanges_def em_undone_def)
qed

lemma em_apply_frame:
  "em_apply_delta d (st\<lparr>em_undoRecords := u\<rparr>) = (em_apply_delta d st)\<lparr>em_undoRecords := u\<rparr>"
  "em_apply_delta d (st\<lparr>emLocked := b\<rparr>) = (em_apply_delta d st)\<lparr>emLocked := b\<rparr>"
  "em_apply_delta d (st\<lparr>flLocked := b\<rparr>) = (em_apply_delta d st)\<lparr>flLocked := b\<rparr>"
  by (cases d; simp)+

lemma foldr_em_apply_frame:
  "foldr em_apply_delta ds (st\<lparr>em_undoRecords := u\<rparr>) = (foldr em_apply_delta ds st)\<lparr>em_undoRecords := u\<rparr>"
  "foldr em_apply_delta ds (st\<lparr>emLocked := b\<rparr>) = (foldr em_apply_delta ds st)\<lparr>emLocked := b\<rparr>"
  "foldr em_apply_delta ds (st\<lparr>flLocked := b\<rparr>) = (foldr em_apply_delta ds st)\<lparr>flLocked := b\<rparr>"
  by (induction ds) (simp_all add: em_apply_frame)

lemma em_undo_ext_flags [simp]:
  "em_undo_ext st (st\<lparr>emLocked := b\<rparr>)" "em_undo_ext st (st\<lparr>flLocked := b\<rparr>)"
  by (simp_all add: em_undo_ext_def em_undone_def em_log_ok_def foldr_em_apply_frame em_finishChanges_def)

text \<open>A saved place and new contents for it.\<close>

lemma em_undo_ext_save:
  assumes "em_undoRecords st' = em_undoRecords st @ [d]"
    and "em_apply_delta d st' = st\<lparr>em_undoRecords := em_undoRecords st'\<rparr>"
    and "em_delta_ok (tableShmkey (fEMShminfo st)) (tableShmkey (fFLShminfo st)) d"
    and "tableShmkey (fEMShminfo st') = tableShmkey (fEMShminfo st)"
    and "tableShmkey (fFLShminfo st') = tableShmkey (fFLShminfo st)"
  shows "em_undo_ext st st'"
  using assms by (auto simp: em_undo_ext_def em_log_ok_def em_undone_def foldr_em_apply_frame)

lemma em_put_ext [simp]: "em_undo_ext st (em_put i e st)"
  by (rule em_undo_ext_save, simp add: em_put_def em_makeUndoRecord_def) (simp_all add: em_put_def em_makeUndoRecord_def)

lemma fl_put_ext [simp]: "em_undo_ext st (fl_put i r st)"
  by (rule em_undo_ext_save, simp add: fl_put_def em_makeUndoRecord_def) (simp_all add: fl_put_def em_makeUndoRecord_def)

lemma em_resize_ext [simp]: "em_undo_ext st (em_resize d st)"
  by (rule em_undo_ext_save, simp add: em_resize_def em_makeUndoRecord_def) (simp_all add: em_resize_def em_makeUndoRecord_def)

lemma fl_resize_ext [simp]: "em_undo_ext st (fl_resize d st)"
  by (rule em_undo_ext_save, simp add: fl_resize_def em_makeUndoRecord_def) (simp_all add: fl_resize_def em_makeUndoRecord_def)

lemma em_put_simps [simp]:
  "fExtentMap (em_put i e st) = (fExtentMap st)[i := e]" "fEMShminfo (em_put i e st) = fEMShminfo st"
  "fFreeList (em_put i e st) = fFreeList st" "fFLShminfo (em_put i e st) = fFLShminfo st"
  by (simp_all add: em_put_def em_makeUndoRecord_def)

lemma fl_put_simps [simp]:
  "fExtentMap (fl_put i r st) = fExtentMap st" "fEMShminfo (fl_put i r st) = fEMShminfo st"
  "fFreeList (fl_put i r st) = (fFreeList st)[i := r]" "fFLShminfo (fl_put i r st) = fFLShminfo st"
  by (simp_all add: fl_put_def em_makeUndoRecord_def)

lemma em_resize_simps [simp]:
  "fExtentMap (em_resize d st) = fExtentMap st" "fFreeList (em_resize d st) = fFreeList st"
  "fFLShminfo (em_resize d st) = fFLShminfo st"
  "fEMShminfo (em_resize d st) = (fEMShminfo st)\<lparr>mst_currentSize := mst_currentSize (fEMShminfo st) + d\<rparr>"
  by (simp_all add: em_resize_def em_makeUndoRecord_def)

lemma fl_resize_simps [simp]:
  "fExtentMap (fl_resize d st) = fExtentMap st" "fFreeList (fl_resize d st) = fFreeList st"
  "fEMShminfo (fl_resize d st) = fEMShminfo st"
  "fFLShminfo (fl_resize d st) = (fFLShminfo st)\<lparr>mst_currentSize := mst_currentSize (fFLShminfo st) + d\<rparr>"
  by (simp_all add: fl_resize_def em_makeUndoRecord_def)

lemma em_geom_changes [simp]:
  "em_geom (em_put i e st) = em_geom st" "em_geom (fl_put i r st) = em_geom st"
  "em_geom (em_resize d st) = em_geom st" "em_geom (fl_resize d st) = em_geom st"
  by (simp_all add: em_geom_def)

section \<open>A concrete map\<close>

text \<open>
  Two extents of column 3001 (8 units of 1024 blocks each, two segment files of partition 0 on
  DBRoot 1), a free slot between them, and a free list that holds the rest of the block space.
\<close>

definition ex_extent :: "int \<Rightarrow> int \<Rightarrow> int \<Rightarrow> EMEntry" where
  "ex_extent start seg hwm =
     \<lparr>em_range = \<lparr>il_start = start, il_size = 8\<rparr>, fileID = 3001, blockOffset = 0, HWM = hwm, partitionNum = 0,
      segmentNum = seg, dbRoot = 1, colWid = 8, em_status = EXTENTAVAILABLE,
      cprange = \<lparr>hi_val = 50, lo_val = 7, sequenceNum = 4, isValid = CP_VALID\<rparr>\<rparr>"

definition ex_em :: ExtentMap where
  "ex_em = \<lparr>fExtentMap = [ex_extent 0 0 100, zero_EMEntry, ex_extent 8192 1 20],
     fEMShminfo = \<lparr>tableShmkey = KEYRANGE_EXTENTMAP_BASE + 1, allocdSize = 192, mst_currentSize = 128\<rparr>,
     fFreeList = [\<lparr>il_start = 16384, il_size = 67108848\<rparr>, zero_range],
     fFLShminfo = \<lparr>tableShmkey = KEYRANGE_EMFREELIST_BASE + 1, allocdSize = 32, mst_currentSize = 16\<rparr>,
     em_undoRecords = [], emLocked = False, flLocked = False\<rparr>"

lemma ex_em_geom [simp]: "em_geom ex_em"
  by (simp add: em_geom_def ex_em_def em_size_defs)

lemma ex_em_slots: "fExtentMap ex_em = [ex_extent 0 0 100, zero_EMEntry, ex_extent 8192 1 20]"
  by (simp add: ex_em_def)

lemma ex_em_log [simp]: "em_undoRecords ex_em = []"
  by (simp add: ex_em_def)

lemma ex_extent_simps [simp]:
  "em_used (ex_extent a b c)" "il_start (em_range (ex_extent a b c)) = a" "il_size (em_range (ex_extent a b c)) = 8"
  "fileID (ex_extent a b c) = 3001" "blockOffset (ex_extent a b c) = 0" "HWM (ex_extent a b c) = c"
  "partitionNum (ex_extent a b c) = 0" "segmentNum (ex_extent a b c) = b" "dbRoot (ex_extent a b c) = 1"
  "em_status (ex_extent a b c) = EXTENTAVAILABLE" "\<not> em_used zero_EMEntry"
  "cprange (ex_extent a b c) = \<lparr>hi_val = 50, lo_val = 7, sequenceNum = 4, isValid = CP_VALID\<rparr>"
  by (simp_all add: ex_extent_def em_used_def zero_EMEntry_def zero_range_def)

end
