(* ===== verification/EM_Casual.thy ===== *)
theory EM_Casual
  imports ExtentMap
begin

text \<open>
  Casual partitioning: the bounds of the values each extent holds, which queries use to skip
  extents (\<open>markInvalid\<close>, \<open>setMaxMin\<close>, \<open>setExtentsMaxMin\<close>, \<open>mergeExtentsMaxMin\<close>, \<open>getMaxMin\<close> of
  \<open>extentmap.cpp\<close>). A sequence number per extent keeps bounds a scan computed from being stored
  after the extent has changed.
\<close>

unbundle bit_operations_syntax

section \<open>Operations\<close>

definition EM_MAX_SEQNUM :: int where "EM_MAX_SEQNUM = 2000000000"

definition incSeqNum :: "int \<Rightarrow> int" where
  "incSeqNum s = (if s + 1 > EM_MAX_SEQNUM then 0 else s + 1)"

definition int64_max :: "64 word" where "int64_max = 0x7FFFFFFFFFFFFFFF"
definition int64_min :: "64 word" where "int64_min = 0x8000000000000000"
definition uint64_max :: "64 word" where "uint64_max = 0xFFFFFFFFFFFFFFFF"

text \<open>The empty range of a column type: the lower bound above the upper one.\<close>

definition empty_cp :: "ColDataType \<Rightarrow> EMCasualPartition_t \<Rightarrow> EMCasualPartition_t" where
  "empty_cp ty c =
     (if isUnsigned ty then c\<lparr>lo_val := uint64_max, hi_val := 0\<rparr>
      else c\<lparr>lo_val := int64_max, hi_val := int64_min\<rparr>)"

definition bump :: "EMCasualPartition_t \<Rightarrow> EMCasualPartition_t" where
  "bump c = c\<lparr>sequenceNum := incSeqNum (sequenceNum c)\<rparr>"

definition mark_cp :: "ColDataType \<Rightarrow> EMEntry \<Rightarrow> EMEntry" where
  "mark_cp ty e = e\<lparr>cprange := bump (empty_cp ty ((cprange e)\<lparr>isValid := CP_UPDATING\<rparr>))\<rparr>"

definition markInvalid_one :: "LBID_t \<Rightarrow> ColDataType \<Rightarrow> ExtentMap \<Rightarrow> int em_out" where
  "markInvalid_one l ty st =
     Option.bind (em_slots st) (\<lambda>es.
       case find_slot (em_contains l) es of
         Some i \<Rightarrow> Some (Inr 0, em_put i (mark_cp ty (es ! i)) st)
       | None \<Rightarrow> Some (Inl logic_error, st))"

definition markInvalid :: "LBID_t \<Rightarrow> ColDataType \<Rightarrow> ExtentMap \<Rightarrow> int em_out" where
  "markInvalid l ty st = markInvalid_one l ty (grabEMEntryTable st)"

text \<open>The overload on vectors goes on after an exception.\<close>

fun markInvalid_each :: "(LBID_t \<times> ColDataType) list \<Rightarrow> ExtentMap \<Rightarrow> ExtentMap option" where
  "markInvalid_each [] st = Some st"
| "markInvalid_each ((l, ty) # xs) st =
     Option.bind (markInvalid_one l ty st) (\<lambda>(_, st'). markInvalid_each xs st')"

definition markInvalid_vector :: "LBID_t list \<Rightarrow> ColDataType list \<Rightarrow> ExtentMap \<Rightarrow> int em_out" where
  "markInvalid_vector lbids tys st =
     (if length lbids \<le> length tys
      then map_option (\<lambda>st'. (Inr 0, st')) (markInvalid_each (zip lbids tys) (grabEMEntryTable st))
      else None)"

record CPMaxMin =
  cp_max :: "64 word"
  cp_min :: "64 word"
  cp_seqNum :: int

definition set_bounds :: "64 word \<Rightarrow> 64 word \<Rightarrow> EMCasualPartition_t \<Rightarrow> EMCasualPartition_t" where
  "set_bounds mx mn c = c\<lparr>hi_val := mx, lo_val := mn\<rparr>"

text \<open>The body of \<open>setMaxMin\<close>: the new entry, or none when the sequence number has moved on.\<close>

definition set_cp :: "64 word \<Rightarrow> 64 word \<Rightarrow> int \<Rightarrow> EMEntry \<Rightarrow> EMEntry option" where
  "set_cp mx mn seqNum e =
     (if sequenceNum (cprange e) = seqNum
      then Some (e\<lparr>cprange := bump ((set_bounds mx mn (cprange e))\<lparr>isValid := CP_VALID\<rparr>)\<rparr>)
      else if seqNum = -1 then Some (e\<lparr>cprange := bump ((cprange e)\<lparr>isValid := CP_INVALID\<rparr>)\<rparr>)
      else None)"

definition em_put_opt :: "nat \<Rightarrow> EMEntry option \<Rightarrow> ExtentMap \<Rightarrow> ExtentMap" where
  "em_put_opt i eo st = (case eo of None \<Rightarrow> st | Some e \<Rightarrow> em_put i e st)"

definition setMaxMin :: "LBID_t \<Rightarrow> 64 word \<Rightarrow> 64 word \<Rightarrow> int \<Rightarrow> ExtentMap \<Rightarrow> int em_out" where
  "setMaxMin l mx mn seqNum st0 =
     (let st = grabEMEntryTable st0
      in Option.bind (em_slots st) (\<lambda>es.
        case find_slot (em_contains l) es of
          Some i \<Rightarrow> Some (Inr 0, em_put_opt i (set_cp mx mn seqNum (es ! i)) st)
        | None \<Rightarrow> Some (Inl logic_error, releaseEMEntryTable st)))"

text \<open>
  \<open>setExtentsMaxMin\<close> and \<open>mergeExtentsMaxMin\<close> run over the slots and look the extent's first block
  up in the map they are given (an association list with distinct keys); they return as soon
  as they have seen as many extents as the map has keys. \<open>mergeExtentsMaxMin\<close> also erases the
  entries it has used.
\<close>

definition cp_visit ::
  "bool \<Rightarrow> ('c \<Rightarrow> EMEntry \<Rightarrow> EMEntry option) \<Rightarrow> int \<Rightarrow> ExtentMap \<times> (LBID_t \<times> 'c) list \<times> int \<Rightarrow> nat \<Rightarrow>
    (ExtentMap \<times> (LBID_t \<times> 'c) list) + (ExtentMap \<times> (LBID_t \<times> 'c) list \<times> int)"
where
  "cp_visit erase f nkeys = (\<lambda>(st, cpMap, n) i.
     let e = fExtentMap st ! i
     in if em_used e
        then (case map_of cpMap (il_start (em_range e)) of
                None \<Rightarrow> Inr (st, cpMap, n)
              | Some c \<Rightarrow>
                  let st' = em_put_opt i (f c e) st
                  in if n + 1 = nkeys then Inl (st', cpMap)
                     else Inr (st', if erase then filter (\<lambda>(k, _). k \<noteq> il_start (em_range e)) cpMap else cpMap, n + 1))
        else Inr (st, cpMap, n))"

definition cp_walk ::
  "bool \<Rightarrow> ('c \<Rightarrow> EMEntry \<Rightarrow> EMEntry option) \<Rightarrow> (LBID_t \<times> 'c) list \<Rightarrow> ExtentMap \<Rightarrow> unit em_out"
where
  "cp_walk erase f cpMap st =
     Option.bind (em_slots st) (\<lambda>es.
       case fold_exit (cp_visit erase f (int (length cpMap))) [0..<length es] (st, cpMap, 0) of
         Inl (st', _) \<Rightarrow> Some (Inr (), st')
       | Inr (st', _, _) \<Rightarrow> Some (Inl logic_error, st'))"

definition set_extent_cp :: "CPMaxMin \<Rightarrow> EMEntry \<Rightarrow> EMEntry option" where
  "set_extent_cp c e =
     (if sequenceNum (cprange e) = cp_seqNum c \<and> isValid (cprange e) = CP_INVALID
      then Some (e\<lparr>cprange := bump ((set_bounds (cp_max c) (cp_min c) (cprange e))\<lparr>isValid := CP_VALID\<rparr>)\<rparr>)
      else if cp_seqNum c = -1 then Some (e\<lparr>cprange := bump ((cprange e)\<lparr>isValid := CP_INVALID\<rparr>)\<rparr>)
      else if cp_seqNum c = -2
      then Some (e\<lparr>cprange := bump ((set_bounds (cp_max c) (cp_min c) (cprange e))\<lparr>isValid := CP_INVALID\<rparr>)\<rparr>)
      else None)"

definition setExtentsMaxMin :: "(LBID_t \<times> CPMaxMin) list \<Rightarrow> bool \<Rightarrow> ExtentMap \<Rightarrow> unit em_out" where
  "setExtentsMaxMin cpMap useLock st = cp_walk False set_extent_cp cpMap (if useLock then grabEMEntryTable st else st)"

text \<open>\<open>htonl\<close> on a little-endian machine, and \<open>htonll\<close> built from it.\<close>

definition htonl :: "32 word \<Rightarrow> 32 word" where
  "htonl n = push_bit 24 (n AND 0xFF) OR push_bit 8 (n AND 0xFF00) OR
             drop_bit 8 (n AND 0xFF0000) OR drop_bit 24 (n AND 0xFF000000)"

definition htonll :: "64 word \<Rightarrow> 64 word" where
  "htonll n = push_bit 32 (ucast (htonl (ucast (n AND 0xFFFFFFFF)))) OR
              ucast (htonl (ucast (drop_bit 32 (n AND 0xFFFFFFFF00000000))))"

definition uint64ToStr :: "64 word \<Rightarrow> 64 word" where
  "uint64ToStr n = htonll n"

text \<open>The order in which a column type compares bounds.\<close>

definition cp_less :: "ColDataType \<Rightarrow> 64 word \<Rightarrow> 64 word \<Rightarrow> bool" where
  "cp_less ty a b \<longleftrightarrow>
     (if isCharType ty then sint (uint64ToStr a) < sint (uint64ToStr b)
      else if isUnsigned ty then a < b
      else sint a < sint b)"

definition isValidCPRange :: "64 word \<Rightarrow> 64 word \<Rightarrow> ColDataType \<Rightarrow> bool" where
  "isValidCPRange mx mn ty \<longleftrightarrow>
     (if isUnsigned ty then \<not> (mn \<ge> uint64_max - 1 \<or> mx \<ge> uint64_max - 1)
      else \<not> (sint mn \<le> sint int64_min + 1 \<or> sint mx \<le> sint int64_min + 1))"

record CPMaxMinMerge = CPMaxMin +
  cp_type :: ColDataType
  newExtent :: bool

definition merge_bounds :: "CPMaxMinMerge \<Rightarrow> EMCasualPartition_t \<Rightarrow> EMCasualPartition_t" where
  "merge_bounds m c =
     (if isValidCPRange (hi_val c) (lo_val c) (cp_type m)
      then c\<lparr>lo_val := (if cp_less (cp_type m) (cp_min m) (lo_val c) then cp_min m else lo_val c),
             hi_val := (if cp_less (cp_type m) (hi_val c) (cp_max m) then cp_max m else hi_val c)\<rparr>
      else set_bounds (cp_max m) (cp_min m) c)"

definition merge_cp :: "CPMaxMinMerge \<Rightarrow> EMEntry \<Rightarrow> EMEntry option" where
  "merge_cp m e =
     (let c = cprange e; ok = isValidCPRange (cp_max m) (cp_min m) (cp_type m)
      in if isValid c = CP_VALID
         then (if ok then Some (e\<lparr>cprange := bump (merge_bounds m c)\<rparr>) else None)
         else if isValid c = CP_UPDATING then Some (e\<lparr>cprange := bump c\<rparr>)
         else let c1 = (if newExtent m
                        then (if ok then set_bounds (cp_max m) (cp_min m) c else c)\<lparr>isValid := CP_VALID\<rparr>
                        else c)
              in Some (e\<lparr>cprange := bump c1\<rparr>))"

definition mergeExtentsMaxMin :: "(LBID_t \<times> CPMaxMinMerge) list \<Rightarrow> bool \<Rightarrow> ExtentMap \<Rightarrow> unit em_out" where
  "mergeExtentsMaxMin cpMap useLock st = cp_walk True merge_cp cpMap (if useLock then grabEMEntryTable st else st)"

text \<open>\<open>getMaxMin\<close> answers the state, the bounds and the sequence number.\<close>

definition getMaxMin :: "LBID_t \<Rightarrow> ExtentMap \<Rightarrow> (int \<times> 64 word \<times> 64 word \<times> int) cpp" where
  "getMaxMin l st =
     bind_cpp (defined (em_slots st)) (\<lambda>es.
       case find_slot (em_contains l) es of
         Some i \<Rightarrow> let c = cprange (es ! i) in ret (isValid c, hi_val c, lo_val c, sequenceNum c)
       | None \<Rightarrow> throw logic_error)"

section \<open>The walk over the extents\<close>

text \<open>The first blocks of the extents; no two extents start at the same block.\<close>

definition em_starts :: "EMEntry list \<Rightarrow> LBID_t list" where
  "em_starts es = map (\<lambda>e. il_start (em_range e)) (filter em_used es)"

definition cp_upd :: "('c \<Rightarrow> EMEntry \<Rightarrow> EMEntry option) \<Rightarrow> (LBID_t \<times> 'c) list \<Rightarrow> EMEntry \<Rightarrow> EMEntry" where
  "cp_upd f cpMap e =
     (if em_used e
      then (case map_of cpMap (il_start (em_range e)) of None \<Rightarrow> e | Some c \<Rightarrow> (case f c e of None \<Rightarrow> e | Some e' \<Rightarrow> e'))
      else e)"

definition cp_matched :: "(LBID_t \<times> 'c) list \<Rightarrow> EMEntry list \<Rightarrow> LBID_t list" where
  "cp_matched cpMap es = filter (\<lambda>l. l \<in> fst ` set cpMap) (em_starts es)"

lemma em_starts_simps [simp]:
  "em_starts [] = []" "em_starts (xs @ ys) = em_starts xs @ em_starts ys"
  "em_starts [e] = (if em_used e then [il_start (em_range e)] else [])"
  by (simp_all add: em_starts_def)

lemma cp_matched_simps [simp]:
  "cp_matched m [] = []" "cp_matched m (xs @ ys) = cp_matched m xs @ cp_matched m ys"
  by (simp_all add: cp_matched_def)

lemma map_of_filter_neq: "l \<notin> ls \<Longrightarrow> map_of (filter (\<lambda>(k, _). k \<notin> ls) m) l = map_of m l"
  by (induction m) auto

lemma em_put_opt_simps [simp]:
  "fExtentMap (em_put_opt i eo st) = (case eo of None \<Rightarrow> fExtentMap st | Some e \<Rightarrow> (fExtentMap st)[i := e])"
  "fEMShminfo (em_put_opt i eo st) = fEMShminfo st" "fFreeList (em_put_opt i eo st) = fFreeList st"
  "fFLShminfo (em_put_opt i eo st) = fFLShminfo st" "em_geom (em_put_opt i eo st) = em_geom st"
  "em_undo_ext st (em_put_opt i eo st)"
  by (simp_all add: em_put_opt_def split: option.split)

text \<open>What a walk leaves alone besides the slots.\<close>

definition em_same_rest :: "ExtentMap \<Rightarrow> ExtentMap \<Rightarrow> bool" where
  "em_same_rest st st' \<longleftrightarrow> fEMShminfo st' = fEMShminfo st \<and> fFreeList st' = fFreeList st \<and> fFLShminfo st' = fFLShminfo st"

lemma em_same_rest_simps [simp]:
  "em_same_rest st st" "em_same_rest st (em_put i e st)" "em_same_rest st (em_put_opt i eo st)"
  "em_same_rest st (st\<lparr>emLocked := b\<rparr>)" "em_same_rest st (st\<lparr>flLocked := b\<rparr>)"
  by (simp_all add: em_same_rest_def)

lemma em_same_rest_trans: "em_same_rest st st' \<Longrightarrow> em_same_rest st' st'' \<Longrightarrow> em_same_rest st st''"
  by (simp add: em_same_rest_def)

lemma em_same_rest_geom:
  "em_same_rest st st' \<Longrightarrow> length (fExtentMap st') = length (fExtentMap st) \<Longrightarrow> em_geom st' = em_geom st"
  unfolding em_same_rest_def em_geom_def by (metis length_0_conv)

definition walk_inv ::
  "bool \<Rightarrow> ('c \<Rightarrow> EMEntry \<Rightarrow> EMEntry option) \<Rightarrow> (LBID_t \<times> 'c) list \<Rightarrow> ExtentMap \<Rightarrow> nat \<Rightarrow>
    ExtentMap \<times> (LBID_t \<times> 'c) list \<times> int \<Rightarrow> bool"
where
  "walk_inv erase f cpMap st k = (\<lambda>(st1, m, n).
     fExtentMap st1 = map (cp_upd f cpMap) (take k (fExtentMap st)) @ drop k (fExtentMap st) \<and>
     em_same_rest st st1 \<and> em_undo_ext st st1 \<and>
     m = (if erase then filter (\<lambda>(l, _). l \<notin> set (em_starts (take k (fExtentMap st)))) cpMap else cpMap) \<and>
     n = int (length (cp_matched cpMap (take k (fExtentMap st)))) \<and> n < int (length cpMap))"

text \<open>Once all keys are matched, the remaining extents are not in the map.\<close>

lemma cp_matched_all:
  assumes "distinct (em_starts es)" "distinct (map fst cpMap)" "length (cp_matched cpMap (take k es)) = length cpMap"
  shows "set (cp_matched cpMap (take k es)) = fst ` set cpMap"
    and "map (cp_upd f cpMap) (drop k es) = drop k es"
proof -
  have dist: "distinct (em_starts (take k es) @ em_starts (drop k es))"
    using assms(1) em_starts_simps(2) [of "take k es" "drop k es"] by simp
  then have "distinct (cp_matched cpMap (take k es))" by (simp add: cp_matched_def)
  then have "card (set (cp_matched cpMap (take k es))) = length cpMap"
    using assms(3) by (simp only: distinct_card)
  moreover have "card (fst ` set cpMap) = length cpMap"
    using distinct_card [OF assms(2)] by simp
  ultimately show eq: "set (cp_matched cpMap (take k es)) = fst ` set cpMap"
    by (intro card_subset_eq) (auto simp: cp_matched_def)
  have "cp_upd f cpMap e = e" if "e \<in> set (drop k es)" for e
  proof (cases "em_used e")
    case True
    then have "il_start (em_range e) \<in> set (em_starts (drop k es))" using that by (auto simp: em_starts_def)
    then have "il_start (em_range e) \<notin> fst ` set cpMap" using dist eq by (auto simp: cp_matched_def)
    then have "map_of cpMap (il_start (em_range e)) = None" by (simp add: map_of_eq_None_iff)
    then show ?thesis by (simp add: cp_upd_def)
  qed (simp add: cp_upd_def)
  then show "map (cp_upd f cpMap) (drop k es) = drop k es" by (simp add: map_idI)
qed

definition walk_done :: "('c \<Rightarrow> EMEntry \<Rightarrow> EMEntry option) \<Rightarrow> (LBID_t \<times> 'c) list \<Rightarrow> ExtentMap \<Rightarrow> ExtentMap \<Rightarrow> bool" where
  "walk_done f cpMap st st' \<longleftrightarrow>
     fExtentMap st' = map (cp_upd f cpMap) (fExtentMap st) \<and> em_same_rest st st' \<and> em_undo_ext st st'"

lemma cp_visit_step:
  assumes inv: "walk_inv erase f cpMap st k s" and k: "k < length (fExtentMap st)"
    and dist: "distinct (em_starts (fExtentMap st))" "distinct (map fst cpMap)"
  shows "case cp_visit erase f (int (length cpMap)) s k of
      Inl (st', _) \<Rightarrow> walk_done f cpMap st st' \<and> fst ` set cpMap \<subseteq> set (em_starts (fExtentMap st))
    | Inr s' \<Rightarrow> walk_inv erase f cpMap st (Suc k) s'"
proof -
  define es where "es = fExtentMap st"
  define e where "e = es ! k"
  define A where "A = map (cp_upd f cpMap) (take k es)"
  obtain st1 m n where s: "s = (st1, m, n)" by (cases s)
  have split: "take (Suc k) es = take k es @ [e]" "drop k es = e # drop (Suc k) es"
    using k by (simp_all add: e_def es_def take_Suc_conv_app_nth Cons_nth_drop_Suc)
  have i: "fExtentMap st1 = A @ e # drop (Suc k) es" "em_same_rest st st1" "em_undo_ext st st1"
      "m = (if erase then filter (\<lambda>(l, _). l \<notin> set (em_starts (take k es))) cpMap else cpMap)"
      "n = int (length (cp_matched cpMap (take k es)))" "n < int (length cpMap)"
    using inv split(2) by (auto simp: s walk_inv_def es_def A_def)
  have len: "length A = k" using k by (simp add: A_def es_def)
  have at: "fExtentMap st1 ! k = e" unfolding i(1) using len nth_append_length [of A e] by simp
  have upd: "(fExtentMap st1)[k := x] = A @ x # drop (Suc k) es" for x
    unfolding i(1) using len list_update_length [of A e "drop (Suc k) es" x] by simp
  define l where "l = il_start (em_range e)"
  show ?thesis
  proof (cases "em_used e \<and> map_of cpMap l \<noteq> None")
    case False
    have same: "cp_upd f cpMap e = e" using False by (auto simp: cp_upd_def l_def)
    have none: "cp_matched cpMap [e] = []" using False by (auto simp: cp_matched_def l_def map_of_eq_None_iff)
    have keep: "filter (\<lambda>(x, _). x \<notin> set (em_starts (take (Suc k) es))) cpMap = filter (\<lambda>(x, _). x \<notin> set (em_starts (take k es))) cpMap"
      using False by (intro filter_cong) (auto simp: split(1) l_def map_of_eq_None_iff image_iff)
    have "map_of m l = None" if "em_used e" using False that i(4) by (auto simp: map_of_eq_None_iff)
    then have "cp_visit erase f (int (length cpMap)) s k = Inr s"
      by (auto simp: s cp_visit_def at l_def Let_def)
    moreover have "walk_inv erase f cpMap st (Suc k) s"
      unfolding walk_inv_def s using i same none keep by (simp add: split(1) es_def [symmetric] A_def)
    ultimately show ?thesis by simp
  next
    case True
    then obtain c where c: "map_of cpMap l = Some c" and used: "em_used e" by auto
    have "distinct (em_starts (take k es @ e # drop (Suc k) es))" using dist(1) split(2) by (metis append_take_drop_id es_def)
    then have "distinct (em_starts (take k es) @ em_starts [e] @ em_starts (drop (Suc k) es))"
      using em_starts_simps(2) [of "[e]" "drop (Suc k) es"] by simp
    then have new: "l \<notin> set (em_starts (take k es))" using used by (auto simp: l_def)
    have mc: "map_of m l = Some c" using new c i(4) map_of_filter_neq [OF new, of cpMap] by simp
    have matched: "cp_matched cpMap (take (Suc k) es) = cp_matched cpMap (take k es) @ [l]"
      using used map_of_SomeD [OF c] by (auto simp: split(1) cp_matched_def l_def rev_image_eqI)
    define st2 where "st2 = em_put_opt k (f c e) st1"
    have st2: "fExtentMap st2 = map (cp_upd f cpMap) (take (Suc k) es) @ drop (Suc k) es" "em_same_rest st st2" "em_undo_ext st st2"
      using i(1) upd used c em_same_rest_trans [OF i(2)] em_undo_ext_trans [OF i(3)]
      by (auto simp: st2_def split(1) cp_upd_def A_def l_def split: option.split)
    show ?thesis
    proof (cases "n + 1 = int (length cpMap)")
      case True
      have full: "length (cp_matched cpMap (take (Suc k) es)) = length cpMap" using True i(5) matched by simp
      note all = cp_matched_all [OF dist(1) [folded es_def] dist(2) full]
      have "fExtentMap st2 = map (cp_upd f cpMap) es"
        unfolding st2(1) using all(2) [of f] by (metis append_take_drop_id map_append)
      moreover have "fst ` set cpMap \<subseteq> set (em_starts es)"
        using all(1) by (auto simp: cp_matched_def em_starts_def dest: in_set_takeD)
      ultimately show ?thesis using True used at mc st2(2,3)
        by (simp add: s cp_visit_def Let_def l_def [symmetric] st2_def [symmetric] walk_done_def es_def)
    next
      case False
      have "n + 1 < int (length cpMap)" using False i(6) by simp
      moreover have "filter (\<lambda>(x, _). x \<noteq> l) (filter (\<lambda>(x, _). x \<notin> set (em_starts (take k es))) cpMap) =
          filter (\<lambda>(x, _). x \<notin> set (em_starts (take (Suc k) es))) cpMap"
        using used unfolding filter_filter by (intro filter_cong) (auto simp: split(1) l_def)
      ultimately show ?thesis using False used at mc st2 i(4,5) matched
        by (simp add: s cp_visit_def Let_def l_def [symmetric] st2_def [symmetric] walk_inv_def es_def [symmetric])
    qed
  qed
qed

lemma cp_walk_ok:
  assumes geom: "em_geom st" and dist: "distinct (em_starts (fExtentMap st))" "distinct (map fst cpMap)" and ne: "cpMap \<noteq> []"
  shows "\<exists>st'. cp_walk erase f cpMap st =
      Some (if fst ` set cpMap \<subseteq> set (em_starts (fExtentMap st)) then Inr () else Inl logic_error, st') \<and> walk_done f cpMap st st'"
proof -
  let ?es = "fExtentMap st" and ?n = "int (length cpMap)"
  let ?w = "fold_exit (cp_visit erase f ?n) [0..<length ?es] (st, cpMap, 0)"
  have "case ?w of Inl (st', m) \<Rightarrow> walk_done f cpMap st st' \<and> fst ` set cpMap \<subseteq> set (em_starts ?es)
      | Inr s \<Rightarrow> walk_inv erase f cpMap st (length ?es) s"
  proof -
    have "case ?w of Inl r \<Rightarrow> (case r of (st', m) \<Rightarrow> walk_done f cpMap st st' \<and> fst ` set cpMap \<subseteq> set (em_starts ?es))
        | Inr s \<Rightarrow> walk_inv erase f cpMap st (length [0..<length ?es]) s"
    proof (rule fold_exit_rule [where I = "\<lambda>ps. walk_inv erase f cpMap st (length ps)"])
      have "filter (\<lambda>(l, _). True) cpMap = cpMap" by (simp add: split_beta)
      then show "walk_inv erase f cpMap st (length []) (st, cpMap, 0)" using ne by (simp add: walk_inv_def)
    next
      fix ps x qs a assume eq: "[0..<length ?es] = ps @ x # qs" and inv: "walk_inv erase f cpMap st (length ps) a"
      have x: "x = length ps" "x < length ?es" using upt_split_at [OF eq] by auto
      show "case cp_visit erase f ?n a x of
          Inl r \<Rightarrow> (case r of (st', m) \<Rightarrow> walk_done f cpMap st st' \<and> fst ` set cpMap \<subseteq> set (em_starts ?es))
        | Inr a' \<Rightarrow> walk_inv erase f cpMap st (length (ps @ [x])) a'"
        using cp_visit_step [OF inv _ dist] x by (cases "cp_visit erase f ?n a x") simp_all
    qed
    then show ?thesis by (simp only: length_upt diff_zero)
  qed
  moreover have "\<not> fst ` set cpMap \<subseteq> set (em_starts ?es) \<and> walk_done f cpMap st st'"
    if "walk_inv erase f cpMap st (length ?es) (st', m, n)" for st' m n
  proof -
    have lt: "length (cp_matched cpMap ?es) < length cpMap" and wd: "walk_done f cpMap st st'"
      using that by (auto simp: walk_inv_def walk_done_def)
    have "fst ` set cpMap \<subseteq> set (cp_matched cpMap ?es)" if "fst ` set cpMap \<subseteq> set (em_starts ?es)"
      using that by (auto simp: cp_matched_def)
    then have "card (fst ` set cpMap) \<le> length (cp_matched cpMap ?es)" if "fst ` set cpMap \<subseteq> set (em_starts ?es)"
      using that card_mono [of "set (cp_matched cpMap ?es)"] card_length [of "cp_matched cpMap ?es"] by (meson List.finite_set le_trans)
    then show ?thesis using lt wd distinct_card [OF dist(2)] by auto
  qed
  ultimately show ?thesis using geom by (auto simp: cp_walk_def split: sum.splits)
qed

section \<open>Every change moves the sequence number\<close>

definition cp_step :: "EMEntry \<Rightarrow> EMEntry \<Rightarrow> bool" where
  "cp_step e e' \<longleftrightarrow> e' = e \<or> (\<exists>c. e' = e\<lparr>cprange := c\<rparr> \<and> sequenceNum c = incSeqNum (sequenceNum (cprange e)))"

definition cp_slots_step :: "ExtentMap \<Rightarrow> ExtentMap \<Rightarrow> bool" where
  "cp_slots_step st st' \<longleftrightarrow> em_same_rest st st' \<and> list_all2 cp_step (fExtentMap st) (fExtentMap st')"

lemma cp_step_refl [simp]: "cp_step e e"
  by (simp add: cp_step_def)

lemma cp_step_changes:
  "cp_step e (mark_cp ty e)" "set_cp mx mn s e = Some e' \<Longrightarrow> cp_step e e'"
  "set_extent_cp c e = Some e' \<Longrightarrow> cp_step e e'" "merge_cp m e = Some e' \<Longrightarrow> cp_step e e'"
  by (auto simp: cp_step_def mark_cp_def set_cp_def set_extent_cp_def merge_cp_def merge_bounds_def bump_def empty_cp_def
      set_bounds_def Let_def split: if_splits)

lemma list_all2_refl_upd:
  "(\<And>x. P x x) \<Longrightarrow> list_all2 P xs ys \<Longrightarrow> i < length xs \<Longrightarrow> P (xs ! i) y \<Longrightarrow> list_all2 P xs (ys[i := y])"
  by (simp add: list_all2_conv_all_nth nth_list_update)

lemma cp_put_step:
  assumes "i < length (fExtentMap st)" "cp_step (fExtentMap st ! i) e"
  shows "cp_slots_step st (em_put i e st)"
proof -
  have "list_all2 cp_step (fExtentMap st) (fExtentMap st)" by (simp add: list.rel_refl)
  then show ?thesis using assms by (simp add: cp_slots_step_def list_all2_refl_upd)
qed

lemma cp_slots_step_refl [simp]: "cp_slots_step st st" "cp_slots_step st (st\<lparr>emLocked := b\<rparr>)"
  by (simp_all add: cp_slots_step_def list.rel_refl)

lemma cp_walk_step:
  fixes f :: "'c \<Rightarrow> EMEntry \<Rightarrow> EMEntry option"
  assumes f: "\<And>c e e'. f c e = Some e' \<Longrightarrow> cp_step e e'" and w: "cp_walk erase f cpMap st = Some (r, st')" and geom: "em_geom st"
  shows "cp_slots_step st st'"
proof -
  let ?I = "\<lambda>k (st1 :: ExtentMap). em_same_rest st st1 \<and> list_all2 cp_step (fExtentMap st) (fExtentMap st1) \<and>
    (\<forall>j. k \<le> j \<longrightarrow> fExtentMap st1 ! j = fExtentMap st ! j)"
  let ?w = "fold_exit (cp_visit erase f (int (length cpMap))) [0..<length (fExtentMap st)] (st, cpMap, 0)"
  have put: "?I (Suc k) (em_put_opt k (f c (fExtentMap st1 ! k)) st1)" if "?I k st1" "k < length (fExtentMap st)" for k c st1
  proof (cases "f c (fExtentMap st1 ! k)")
    case None
    with that show ?thesis by (auto simp: em_put_opt_def)
  next
    case (Some e')
    with f that have "cp_step (fExtentMap st ! k) e'" by auto
    with that Some show ?thesis
      by (auto simp: em_same_rest_def intro!: list_all2_refl_upd)
  qed
  have "case ?w of Inl r \<Rightarrow> (case r of (st', m) \<Rightarrow> cp_slots_step st st')
      | Inr s \<Rightarrow> ?I (length [0..<length (fExtentMap st)]) (fst s)"
  proof (rule fold_exit_rule [where I = "\<lambda>ps s. ?I (length ps) (fst s)"])
    show "?I (length []) (fst (st, cpMap, 0))" by (simp add: list.rel_refl)
  next
    fix ps x qs and a :: "ExtentMap \<times> (LBID_t \<times> 'c) list \<times> int"
    assume eq: "[0..<length (fExtentMap st)] = ps @ x # qs" and inv: "?I (length ps) (fst a)"
    have x: "x = length ps" "x < length (fExtentMap st)" using upt_split_at [OF eq] by auto
    obtain st1 m n where a: "a = (st1, m, n)" by (cases a)
    have stay: "?I (Suc x) st1" using inv x a by auto
    have move: "?I (Suc x) (em_put_opt x (f c (fExtentMap st1 ! x)) st1)" for c
      using inv x a by (intro put) auto
    show "case cp_visit erase f (int (length cpMap)) a x of
        Inl r \<Rightarrow> (case r of (st', m) \<Rightarrow> cp_slots_step st st') | Inr a' \<Rightarrow> ?I (length (ps @ [x])) (fst a')"
      using stay move x by (simp add: a cp_visit_def Let_def cp_slots_step_def del: em_put_opt_simps split: option.split)
  qed
  then show ?thesis using w geom by (auto simp: cp_walk_def cp_slots_step_def split: sum.splits)
qed

text \<open>One call of an operation that may change bounds, whatever its outcome.\<close>

inductive cp_op :: "ExtentMap \<Rightarrow> ExtentMap \<Rightarrow> bool" where
  mark: "markInvalid l ty st = Some (r, st') \<Longrightarrow> cp_op st st'"
| set: "setMaxMin l mx mn s st = Some (r, st') \<Longrightarrow> cp_op st st'"
| set_extents: "setExtentsMaxMin m b st = Some (q, st') \<Longrightarrow> cp_op st st'"
| merge: "mergeExtentsMaxMin m' b st = Some (q, st') \<Longrightarrow> cp_op st st'"

lemma cp_slots_step_lock: "cp_slots_step (st\<lparr>emLocked := b\<rparr>) st' \<Longrightarrow> cp_slots_step st st'"
  by (simp add: cp_slots_step_def em_same_rest_def)

lemma cp_slots_step_release: "cp_slots_step st (releaseEMEntryTable st)"
  by (simp add: releaseEMEntryTable_def)

lemma cp_op_step: "cp_op st st' \<Longrightarrow> em_geom st \<Longrightarrow> cp_slots_step st st'"
proof (induction rule: cp_op.induct)
  case (mark l ty st r st')
  then show ?case
    by (auto simp: markInvalid_def markInvalid_one_def find_slot_Some split: option.splits
        intro!: cp_slots_step_lock [of True st] cp_put_step cp_step_changes(1))
next
  case (set l mx mn s st r st')
  then show ?case
    by (auto simp: setMaxMin_def Let_def find_slot_Some em_put_opt_def cp_slots_step_release split: option.splits
        intro!: cp_slots_step_lock [of True st] cp_put_step cp_step_changes(2))
next
  case (set_extents m b st q st')
  then show ?case
    using cp_walk_step [of set_extent_cp False m "if b then st\<lparr>emLocked := True\<rparr> else st" q st'] cp_step_changes
    by (auto simp: setExtentsMaxMin_def split: if_splits intro: cp_slots_step_lock [of True st])
next
  case (merge m' b st q st')
  then show ?case
    using cp_walk_step [of merge_cp True m' "if b then st\<lparr>emLocked := True\<rparr> else st" q st'] cp_step_changes
    by (auto simp: mergeExtentsMaxMin_def split: if_splits intro: cp_slots_step_lock [of True st])
qed

lemma incSeqNum_mod: "0 \<le> s \<Longrightarrow> s \<le> EM_MAX_SEQNUM \<Longrightarrow> incSeqNum s = (s + 1) mod (EM_MAX_SEQNUM + 1)"
  by (auto simp: incSeqNum_def EM_MAX_SEQNUM_def)

definition seq_ok :: "EMEntry \<Rightarrow> bool" where
  "seq_ok e \<longleftrightarrow> 0 \<le> sequenceNum (cprange e) \<and> sequenceNum (cprange e) \<le> EM_MAX_SEQNUM"

lemma cp_ops_slot:
  assumes "(cp_op ^^ n) st st'" "em_geom st" "i < length (fExtentMap st)" "seq_ok (fExtentMap st ! i)"
  shows "em_geom st' \<and> map em_range (fExtentMap st') = map em_range (fExtentMap st) \<and>
    (\<exists>k \<le> n. sequenceNum (cprange (fExtentMap st' ! i)) = (sequenceNum (cprange (fExtentMap st ! i)) + int k) mod (EM_MAX_SEQNUM + 1) \<and>
      (k = 0 \<longrightarrow> fExtentMap st' ! i = fExtentMap st ! i))"
  using assms(1)
proof (induction n arbitrary: st')
  case 0
  then show ?case using assms(2,4) by (auto simp: seq_ok_def EM_MAX_SEQNUM_def)
next
  case (Suc n)
  from Suc.prems obtain st1 where st1: "(cp_op ^^ n) st st1" "cp_op st1 st'" by (auto elim: relpowp_Suc_E)
  note IH = Suc.IH [OF st1(1)]
  have step: "cp_slots_step st1 st'" using cp_op_step [OF st1(2)] IH by blast
  have len: "length (fExtentMap st1) = length (fExtentMap st)" using IH map_eq_imp_length_eq by blast
  have rest: "em_same_rest st1 st'" and all2: "list_all2 cp_step (fExtentMap st1) (fExtentMap st')"
    using step by (auto simp: cp_slots_step_def)
  have rng: "map em_range (fExtentMap st') = map em_range (fExtentMap st1)"
    using all2 by (auto simp: list_all2_conv_all_nth cp_step_def intro!: nth_equalityI)
  have geom: "em_geom st'" using em_same_rest_geom [OF rest] list_all2_lengthD [OF all2] IH by simp
  have si: "cp_step (fExtentMap st1 ! i) (fExtentMap st' ! i)" using list_all2_nthD [OF all2, of i] assms(3) len by simp
  obtain k where k: "k \<le> n" "sequenceNum (cprange (fExtentMap st1 ! i)) = (sequenceNum (cprange (fExtentMap st ! i)) + int k) mod (EM_MAX_SEQNUM + 1)"
      "k = 0 \<longrightarrow> fExtentMap st1 ! i = fExtentMap st ! i" using IH by blast
  have "\<exists>k \<le> Suc n. sequenceNum (cprange (fExtentMap st' ! i)) = (sequenceNum (cprange (fExtentMap st ! i)) + int k) mod (EM_MAX_SEQNUM + 1) \<and>
      (k = 0 \<longrightarrow> fExtentMap st' ! i = fExtentMap st ! i)"
  proof (cases "fExtentMap st' ! i = fExtentMap st1 ! i")
    case True
    with k show ?thesis by (intro exI [of _ k]) simp
  next
    case False
    with si have "sequenceNum (cprange (fExtentMap st' ! i)) = incSeqNum (sequenceNum (cprange (fExtentMap st1 ! i)))"
      by (auto simp: cp_step_def)
    also have "\<dots> = (sequenceNum (cprange (fExtentMap st ! i)) + int (Suc k)) mod (EM_MAX_SEQNUM + 1)"
      unfolding k(2) by (subst incSeqNum_mod) (simp_all add: EM_MAX_SEQNUM_def mod_simps add_ac)
    finally show ?thesis using k(1) by (intro exI [of _ "Suc k"]) simp
  qed
  with geom rng IH show ?case by simp
qed

section \<open>Theorems\<close>

text \<open>
  No lost update of an extent's bounds. A scan reads an extent's sequence number, computes
  the bounds of its values and stores them with that number. Whatever casual partitioning
  operations run in between (up to two thousand million of them, where the counter wraps
  around), \<open>setMaxMin\<close> stores the bounds exactly when none of them touched the extent, and
  otherwise returns 0 and changes nothing.
\<close>

theorem setMaxMin_rejects_stale:
  assumes geom: "em_geom st" and read: "getMaxMin l st = ret (v, mx0, mn0, s)" and s: "0 \<le> s" "s \<le> EM_MAX_SEQNUM"
    and ops: "(cp_op ^^ n) st st'" "int n \<le> EM_MAX_SEQNUM"
  shows "\<exists>st''. setMaxMin l mx mn s st' = Some (Inr 0, st'') \<and>
    (if getMaxMin l st' = ret (v, mx0, mn0, s) then getMaxMin l st'' = ret (CP_VALID, mx, mn, incSeqNum s)
     else fExtentMap st'' = fExtentMap st')"
proof -
  let ?es = "fExtentMap st" and ?es' = "fExtentMap st'"
  from read geom obtain i where i: "find_slot (em_contains l) ?es = Some i" "cprange (?es ! i) = \<lparr>hi_val = mx0, lo_val = mn0, sequenceNum = s, isValid = v\<rparr>"
    by (cases "find_slot (em_contains l) ?es") (auto simp: getMaxMin_def Let_def)
  then have len: "i < length ?es" by (simp add: find_slot_Some)
  from cp_ops_slot [OF ops(1) geom len] i(2) s obtain k where geom': "em_geom st'" and rng: "map em_range ?es' = map em_range ?es"
    and k: "k \<le> n" "sequenceNum (cprange (?es' ! i)) = (s + int k) mod (EM_MAX_SEQNUM + 1)" "k = 0 \<longrightarrow> ?es' ! i = ?es ! i"
    by (auto simp: seq_ok_def)
  have cont: "em_contains l = (\<lambda>r. il_size r \<noteq> 0 \<and> il_start r \<le> l \<and> l \<le> il_end r - 1) \<circ> em_range"
    by (simp add: fun_eq_iff em_contains_def em_used_def)
  have find: "find_slot (em_contains l) ?es' = Some i"
    using i(1) rng unfolding cont find_slot_map [symmetric] by simp
  have len': "i < length ?es'" using find by (simp add: find_slot_Some)
  have get': "getMaxMin l st' = ret (isValid (cprange (?es' ! i)), hi_val (cprange (?es' ! i)), lo_val (cprange (?es' ! i)), sequenceNum (cprange (?es' ! i)))"
    using geom' find by (simp add: getMaxMin_def Let_def)
  show ?thesis
  proof (cases "k = 0")
    case True
    with k i(2) have c: "cprange (?es' ! i) = \<lparr>hi_val = mx0, lo_val = mn0, sequenceNum = s, isValid = v\<rparr>" by simp
    let ?e = "(?es' ! i)\<lparr>cprange := bump ((set_bounds mx mn (cprange (?es' ! i)))\<lparr>isValid := CP_VALID\<rparr>)\<rparr>"
    let ?st = "em_put i ?e (st'\<lparr>emLocked := True\<rparr>)"
    have "map em_range (fExtentMap ?st) = map em_range ?es'" using len' by (simp add: map_update list_update_same_conv)
    then have "find_slot (em_contains l) (fExtentMap ?st) = Some i"
      using find unfolding cont find_slot_map [symmetric] by simp
    then have "getMaxMin l ?st = ret (CP_VALID, mx, mn, incSeqNum s)"
      using geom' len' c by (simp add: getMaxMin_def Let_def bump_def set_bounds_def)
    moreover have "setMaxMin l mx mn s st' = Some (Inr 0, ?st)"
      using geom' find c by (simp add: setMaxMin_def Let_def set_cp_def em_put_opt_def)
    ultimately show ?thesis using get' c by simp
  next
    case False
    have "(s + int k) mod (EM_MAX_SEQNUM + 1) \<noteq> s"
    proof
      assume "(s + int k) mod (EM_MAX_SEQNUM + 1) = s"
      then have "(s + int k) mod (EM_MAX_SEQNUM + 1) = s mod (EM_MAX_SEQNUM + 1)" using s by simp
      then have "(EM_MAX_SEQNUM + 1) dvd int k" by (simp add: mod_eq_dvd_iff)
      then show False using False k(1) ops(2) zdvd_imp_le [of "EM_MAX_SEQNUM + 1" "int k"] by simp
    qed
    then have ne: "sequenceNum (cprange (?es' ! i)) \<noteq> s" using k(2) by simp
    then have "setMaxMin l mx mn s st' = Some (Inr 0, st'\<lparr>emLocked := True\<rparr>)"
      using geom' find s by (simp add: setMaxMin_def Let_def set_cp_def em_put_opt_def)
    then show ?thesis using get' ne by simp
  qed
qed

theorem setMaxMin_rejects_stale_witness:
  "\<exists>st' st''. markInvalid 9000 INT_t ex_em = Some (Inr 0, st') \<and> setMaxMin 9000 60 1 4 st' = Some (Inr 0, st'') \<and>
     fExtentMap st'' = fExtentMap st' \<and> fExtentMap st' \<noteq> fExtentMap ex_em"
proof -
  have find: "find_slot (em_contains 9000) (fExtentMap ex_em) = Some 2"
    by (auto simp: find_slot_Some ex_em_slots em_contains_def il_end_def less_Suc_eq numeral_2_eq_2)
  have read: "getMaxMin 9000 ex_em = ret (CP_VALID, 50, 7, 4)"
    using find by (simp add: getMaxMin_def Let_def ex_em_slots)
  let ?st = "em_put 2 (mark_cp INT_t (fExtentMap ex_em ! 2)) (ex_em\<lparr>emLocked := True\<rparr>)"
  have mark: "markInvalid 9000 INT_t ex_em = Some (Inr 0, ?st)"
    using find by (simp add: markInvalid_def markInvalid_one_def)
  then have one: "(cp_op ^^ 1) ex_em ?st" by (auto intro: cp_op.mark)
  have find': "find_slot (em_contains 9000) (fExtentMap ?st) = Some 2"
    by (auto simp: find_slot_Some ex_em_slots em_contains_def il_end_def less_Suc_eq numeral_2_eq_2 mark_cp_def em_used_def zero_EMEntry_def zero_range_def)
  have "getMaxMin 9000 ?st \<noteq> ret (CP_VALID, 50, 7, 4)"
    using find' by (simp add: getMaxMin_def Let_def ex_em_slots mark_cp_def bump_def empty_cp_def isUnsigned_def cp_defs)
  moreover have "fExtentMap ?st \<noteq> fExtentMap ex_em"
    by (simp add: ex_em_slots mark_cp_def bump_def empty_cp_def isUnsigned_def cp_defs ex_extent_def)
  ultimately show ?thesis
    using setMaxMin_rejects_stale [OF ex_em_geom read _ _ one, of 60 1] mark by (auto simp: EM_MAX_SEQNUM_def)
qed

text \<open>The order of bounds, as the order of the integers they stand for.\<close>

definition cp_key :: "ColDataType \<Rightarrow> 64 word \<Rightarrow> int" where
  "cp_key ty a = (if isCharType ty then sint (uint64ToStr a) else if isUnsigned ty then uint a else sint a)"

definition cp_in :: "ColDataType \<Rightarrow> 64 word \<Rightarrow> EMCasualPartition_t \<Rightarrow> bool" where
  "cp_in ty v c \<longleftrightarrow> cp_key ty (lo_val c) \<le> cp_key ty v \<and> cp_key ty v \<le> cp_key ty (hi_val c)"

lemma cp_less_key: "cp_less ty a b \<longleftrightarrow> cp_key ty a < cp_key ty b"
  by (simp add: cp_less_def cp_key_def word_less_def)

lemma merge_bounds_covers:
  assumes "isValidCPRange (hi_val c) (lo_val c) (cp_type m)"
  shows "cp_in (cp_type m) v c \<or> cp_in (cp_type m) v (set_bounds (cp_max m) (cp_min m) c) \<Longrightarrow> cp_in (cp_type m) v (merge_bounds m c)"
    and "lo_val (merge_bounds m c) \<in> {lo_val c, cp_min m}" "hi_val (merge_bounds m c) \<in> {hi_val c, cp_max m}"
  using assms by (auto simp: merge_bounds_def cp_in_def cp_less_key set_bounds_def)


lemma ex_em_starts: "em_starts (fExtentMap ex_em) = [0, 8192]"
  by (simp add: ex_em_slots em_starts_def)


text \<open>
  Storing the bounds of many extents. \<open>setExtentsMaxMin\<close> succeeds exactly when every key of
  the request is the first block of an extent and throws \<open>logic_error\<close> otherwise; in both cases
  every extent the request names is treated by the rule for one extent, no other extent
  changes, and undoing the changes gives the map back.
\<close>

theorem setExtentsMaxMin_exact:
  assumes "em_geom st" "distinct (em_starts (fExtentMap st))" "distinct (map fst cpMap)" "cpMap \<noteq> []" "em_undoRecords st = []"
  shows "\<exists>r st'. setExtentsMaxMin cpMap useLock st = Some (r, st') \<and>
    r = (if fst ` set cpMap \<subseteq> set (em_starts (fExtentMap st)) then Inr () else Inl logic_error) \<and>
    fExtentMap st' = map (cp_upd set_extent_cp cpMap) (fExtentMap st) \<and>
    em_undoChanges st' = Some (em_finishChanges st)"
proof -
  let ?st = "if useLock then st\<lparr>emLocked := True\<rparr> else st"
  have st: "em_geom ?st" "fExtentMap ?st = fExtentMap st" using assms(1) by simp_all
  from cp_walk_ok [of ?st cpMap False set_extent_cp, unfolded st(2)] st(1) assms(2-4) obtain st' where
    w: "cp_walk False set_extent_cp cpMap ?st = Some (if fst ` set cpMap \<subseteq> set (em_starts (fExtentMap st)) then Inr () else Inl logic_error, st')"
       "fExtentMap st' = map (cp_upd set_extent_cp cpMap) (fExtentMap st)" "em_undo_ext ?st st'"
    unfolding walk_done_def st(2) by blast
  have "em_undo_ext st ?st" by simp
  then have "em_undo_ext st st'" using w(3) by (rule em_undo_ext_trans)
  from em_undoChanges_ext [OF this assms(5)] w(1,2) assms(1) show ?thesis
    by (cases useLock) (auto simp: setExtentsMaxMin_def)
qed

theorem setExtentsMaxMin_exact_witness:
  "\<exists>st'. setExtentsMaxMin [(8192, \<lparr>cp_max = 9, cp_min = 1, cp_seqNum = -1\<rparr>), (5, \<lparr>cp_max = 9, cp_min = 1, cp_seqNum = -1\<rparr>)] True ex_em =
      Some (Inl logic_error, st') \<and> em_undoChanges st' = Some (em_finishChanges ex_em)"
  using setExtentsMaxMin_exact [of ex_em "[(8192, \<lparr>cp_max = 9, cp_min = 1, cp_seqNum = -1\<rparr>), (5, \<lparr>cp_max = 9, cp_min = 1, cp_seqNum = -1\<rparr>)]" True]
  by (auto simp: ex_em_starts)

end
