(* ===== verification/EM_Lookup.thy ===== *)
theory EM_Lookup
  imports EM_Casual "HOL-Library.Product_Lexorder"
begin

text \<open>
  Reading the extent map: which extent holds a block, which block holds a place in a segment
  file, the high water mark of a segment file and of a DBRoot, and the lists of extents of a
  column (\<open>lookup\<close>, \<open>lookupLocal\<close>, \<open>getLastHWM_DBroot\<close>, \<open>getDbRootHWMInfo\<close>, \<open>getLocalHWM\<close>, \<open>getExtents\<close>
  and their relatives in \<open>extentmap.cpp\<close>), with the operations that set high water marks and
  DBRoots (\<open>setLocalHWM\<close>, \<open>bulkSetHWM\<close>, \<open>bulkUpdateDBRoot\<close>).
\<close>

section \<open>Lookups\<close>

text \<open>The inner \<^term>\<open>None\<close> is the return value -1.\<close>

definition em_lookup :: "LBID_t \<Rightarrow> ExtentMap \<Rightarrow> (LBID_t \<times> LBID_t) option option" where
  "em_lookup l st =
     map_option (\<lambda>es. map_option (\<lambda>i. (il_start (em_range (es ! i)), il_end (em_range (es ! i)) - 1))
       (find_slot (em_contains l) es)) (em_slots st)"

definition lookupLocal_lbid :: "LBID_t \<Rightarrow> ExtentMap \<Rightarrow> (OID_t \<times> int \<times> int \<times> int \<times> int) option cpp" where
  "lookupLocal_lbid l st =
     (if l < 0 then throw invalid_argument
      else bind_cpp (defined (em_slots st)) (\<lambda>es.
        ret (map_option (\<lambda>i. let e = es ! i in
               (fileID e, dbRoot e, partitionNum e, segmentNum e, u32_of (blockOffset e + (l - il_start (em_range e)))))
             (find_slot (em_contains l) es))))"

text \<open>The extent of a segment file that holds a file block.\<close>

definition in_seg_file :: "OID_t \<Rightarrow> int \<Rightarrow> int \<Rightarrow> EMEntry \<Rightarrow> bool" where
  "in_seg_file oid part seg e \<longleftrightarrow> em_used e \<and> fileID e = oid \<and> partitionNum e = part \<and> segmentNum e = seg"

definition holds_fbo :: "int \<Rightarrow> EMEntry \<Rightarrow> bool" where
  "holds_fbo fbo e \<longleftrightarrow> blockOffset e \<le> fbo \<and> fbo \<le> blockOffset e + il_size (em_range e) * 1024 - 1"

definition lookupLocal :: "OID_t \<Rightarrow> int \<Rightarrow> int \<Rightarrow> int \<Rightarrow> ExtentMap \<Rightarrow> LBID_t option cpp" where
  "lookupLocal oid part seg fbo st =
     (if oid < 0 then throw invalid_argument
      else bind_cpp (defined (em_slots st)) (\<lambda>es.
        ret (map_option (\<lambda>i. il_start (em_range (es ! i)) + s32_of (fbo - blockOffset (es ! i)))
             (find_slot (\<lambda>e. in_seg_file oid part seg e \<and> holds_fbo fbo e) es))))"

definition lookupLocal_DBroot :: "OID_t \<Rightarrow> int \<Rightarrow> int \<Rightarrow> int \<Rightarrow> int \<Rightarrow> ExtentMap \<Rightarrow> LBID_t option cpp" where
  "lookupLocal_DBroot oid root part seg fbo st =
     (if oid < 0 then throw invalid_argument
      else bind_cpp (defined (em_slots st)) (\<lambda>es.
        ret (map_option (\<lambda>i. il_start (em_range (es ! i)) + s32_of (fbo - blockOffset (es ! i)))
             (find_slot (\<lambda>e. in_seg_file oid part seg e \<and> dbRoot e = root \<and> holds_fbo fbo e) es))))"

definition lookupLocalStartLbid :: "OID_t \<Rightarrow> int \<Rightarrow> int \<Rightarrow> int \<Rightarrow> ExtentMap \<Rightarrow> LBID_t option cpp" where
  "lookupLocalStartLbid oid part seg fbo st =
     (if oid < 0 then throw invalid_argument
      else bind_cpp (defined (em_slots st)) (\<lambda>es.
        ret (map_option (\<lambda>i. il_start (em_range (es ! i)))
             (find_slot (\<lambda>e. in_seg_file oid part seg e \<and> holds_fbo fbo e) es))))"

text \<open>The block ranges of a column's extents in service, as first block and number of blocks.\<close>

definition lookup_OID :: "OID_t \<Rightarrow> ExtentMap \<Rightarrow> (LBID_t \<times> int) list cpp" where
  "lookup_OID oid st =
     (if oid < 0 then throw invalid_argument
      else bind_cpp (defined (em_slots st)) (\<lambda>es.
        ret (map (\<lambda>e. (il_start (em_range e), u32_of (il_size (em_range e) * 1024)))
             (filter (\<lambda>e. fileID e = oid \<and> em_used e \<and> em_status e \<noteq> EXTENTOUTOFSERVICE) es))))"

section \<open>Lists of extents\<close>

definition getExtents :: "OID_t \<Rightarrow> bool \<Rightarrow> bool \<Rightarrow> ExtentMap \<Rightarrow> EMEntry list cpp" where
  "getExtents oid sorted' incOutOfService st =
     (if oid < 0 then throw invalid_argument
      else bind_cpp (defined (em_slots st)) (\<lambda>es.
        let found = filter (\<lambda>e. fileID e = oid \<and> em_used e \<and> (incOutOfService \<or> em_status e \<noteq> EXTENTOUTOFSERVICE)) es
        in ret (if sorted' then sort_key (\<lambda>e. il_start (em_range e)) found else found)))"

definition getExtents_dbroot :: "OID_t \<Rightarrow> int \<Rightarrow> ExtentMap \<Rightarrow> EMEntry list cpp" where
  "getExtents_dbroot oid root st =
     (if oid < 0 then throw invalid_argument
      else bind_cpp (defined (em_slots st)) (\<lambda>es. ret (filter (\<lambda>e. fileID e = oid \<and> em_used e \<and> dbRoot e = root) es)))"

definition getExtentCount_dbroot :: "OID_t \<Rightarrow> int \<Rightarrow> bool \<Rightarrow> ExtentMap \<Rightarrow> nat cpp" where
  "getExtentCount_dbroot oid root incOutOfService st =
     (if oid < 0 then throw invalid_argument
      else bind_cpp (defined (em_slots st)) (\<lambda>es.
        ret (length (filter (\<lambda>e. fileID e = oid \<and> em_used e \<and> dbRoot e = root \<and>
               (incOutOfService \<or> em_status e \<noteq> EXTENTOUTOFSERVICE)) es))))"

definition getSysCatDBRoot :: "OID_t \<Rightarrow> ExtentMap \<Rightarrow> int cpp" where
  "getSysCatDBRoot oid st =
     bind_cpp (defined (em_slots st)) (\<lambda>es.
       case find_slot (\<lambda>e. em_used e \<and> fileID e = oid) es of None \<Rightarrow> throw logic_error | Some i \<Rightarrow> ret (dbRoot (es ! i)))"

definition isDBRootEmpty :: "int \<Rightarrow> ExtentMap \<Rightarrow> bool cpp" where
  "isDBRootEmpty root st =
     bind_cpp (defined (em_slots st)) (\<lambda>es.
       if mst_currentSize (fEMShminfo st) = 0 then throw runtime_error
       else ret (find_slot (\<lambda>e. em_used e \<and> dbRoot e = root) es = None))"

definition getFreeListEntries :: "ExtentMap \<Rightarrow> InlineLBIDRange list option" where
  "getFreeListEntries st = fl_slots st"

section \<open>High water marks\<close>

text \<open>The test both searches for the last extent use.\<close>

definition at_or_after :: "int \<Rightarrow> int \<Rightarrow> int \<Rightarrow> EMEntry \<Rightarrow> bool" where
  "at_or_after part off seg e \<longleftrightarrow>
     partitionNum e > part \<or> partitionNum e = part \<and> blockOffset e > off \<or>
     partitionNum e = part \<and> blockOffset e = off \<and> segmentNum e \<ge> seg"

text \<open>\<open>getLastHWM_DBroot\<close> runs backwards and answers mark, partition, segment and status.\<close>

definition last_extent_step ::
  "(EMEntry \<Rightarrow> bool) \<Rightarrow> EMEntry list \<Rightarrow> nat \<Rightarrow> int \<times> int \<times> int \<times> nat option \<Rightarrow> int \<times> int \<times> int \<times> nat option"
where
  "last_extent_step P es i = (\<lambda>(part, off, seg, idx).
     let e = es ! i
     in if P e \<and> at_or_after part off seg e then (partitionNum e, blockOffset e, segmentNum e, Some i)
        else (part, off, seg, idx))"

definition getLastHWM_DBroot :: "OID_t \<Rightarrow> int \<Rightarrow> ExtentMap \<Rightarrow> (int \<times> int \<times> int \<times> int option) cpp" where
  "getLastHWM_DBroot oid root st =
     (if oid < 0 then throw invalid_argument
      else bind_cpp (defined (em_slots st)) (\<lambda>es.
        case fold (last_extent_step (\<lambda>e. em_used e \<and> fileID e = oid \<and> dbRoot e = root \<and>
                     (em_status e = EXTENTAVAILABLE \<or> em_status e = EXTENTOUTOFSERVICE)) es)
               (rev [0..<length es]) (0, 0, 0, None) of
          (part, off, seg, None) \<Rightarrow> ret (0, part, seg, None)
        | (part, off, seg, Some i) \<Rightarrow> ret (HWM (es ! i), part, seg, Some (em_status (es ! i)))))"

record EmDbRootHWMInfo =
  hi_partitionNum :: int
  hi_dbRoot :: int
  hi_segmentNum :: int
  localHWM :: int
  hi_fbo :: int
  startLbid :: LBID_t
  totalBlocks :: int
  hwmExtentIndex :: int
  hi_status :: int

definition init_HWMInfo :: "int \<Rightarrow> EmDbRootHWMInfo" where
  "init_HWMInfo root = \<lparr>hi_partitionNum = 0, hi_dbRoot = root, hi_segmentNum = 0, localHWM = 0, hi_fbo = 0, startLbid = 0,
     totalBlocks = 0, hwmExtentIndex = -1, hi_status = 0\<rparr>"

definition hwm_info_step :: "OID_t \<Rightarrow> EMEntry list \<Rightarrow> int \<Rightarrow> nat \<Rightarrow> EmDbRootHWMInfo \<Rightarrow> EmDbRootHWMInfo" where
  "hwm_info_step oid es root i r =
     (let e = es ! i
      in if em_used e \<and> fileID e = oid \<and> dbRoot e = root
         then let r1 = (if em_status e \<noteq> EXTENTOUTOFSERVICE \<and> HWM e \<noteq> 0
                        then r\<lparr>totalBlocks := u64_of (totalBlocks r + u32_of (HWM e + 1))\<rparr> else r)
              in if at_or_after (hi_partitionNum r) (hi_fbo r) (hi_segmentNum r) e
                 then r1\<lparr>hi_fbo := blockOffset e, hi_partitionNum := partitionNum e, hi_segmentNum := segmentNum e,
                         localHWM := HWM e, startLbid := il_start (em_range e), hi_status := em_status e,
                         hwmExtentIndex := int i\<rparr>
                 else r1
         else r)"

text \<open>
  \<open>getDbRootHWMInfo\<close> for a PM whose DBRoots are \<open>roots\<close> (\<open>getPmDbRoots\<close> reads them from the system
  configuration). The code keeps one record per DBRoot in a hash map and updates the record
  of the extent's DBRoot; the model answers the records in the order of the DBRoots.
\<close>

definition hwm_info_done :: "EmDbRootHWMInfo \<Rightarrow> EmDbRootHWMInfo cpp" where
  "hwm_info_done r =
     (if hwmExtentIndex r \<noteq> -1
      then if hi_status r = EXTENTUNAVAILABLE then throw runtime_error
           else ret (if localHWM r = 0 \<and> hi_status r = EXTENTAVAILABLE then r\<lparr>totalBlocks := u64_of (totalBlocks r + 1)\<rparr> else r)
      else ret r)"

fun map_cpp :: "('a \<Rightarrow> 'b cpp) \<Rightarrow> 'a list \<Rightarrow> 'b list cpp" where
  "map_cpp f [] = ret []"
| "map_cpp f (x # xs) = bind_cpp (f x) (\<lambda>y. bind_cpp (map_cpp f xs) (\<lambda>ys. ret (y # ys)))"

definition getDbRootHWMInfo :: "OID_t \<Rightarrow> int list \<Rightarrow> ExtentMap \<Rightarrow> EmDbRootHWMInfo list cpp" where
  "getDbRootHWMInfo oid roots st =
     (if oid < 0 \<or> roots = [] then throw invalid_argument
      else bind_cpp (defined (em_slots st)) (\<lambda>es.
        map_cpp hwm_info_done
          (map (\<lambda>root. fold (hwm_info_step oid es root) (rev [0..<length es]) (init_HWMInfo root)) (remdups roots))))"

definition getExtentState :: "OID_t \<Rightarrow> int \<Rightarrow> int \<Rightarrow> ExtentMap \<Rightarrow> (bool \<times> int) cpp" where
  "getExtentState oid part seg st =
     (if oid < 0 then throw invalid_argument
      else bind_cpp (defined (em_slots st)) (\<lambda>es.
        case find_slot (in_seg_file oid part seg) es of
          None \<Rightarrow> ret (False, EXTENTAVAILABLE)
        | Some i \<Rightarrow> ret (True, em_status (es ! i))))"

text \<open>\<open>getLocalHWM\<close> answers the mark and the status of the last extent it looked at.\<close>

definition local_hwm_step :: "OID_t \<Rightarrow> int \<Rightarrow> int \<Rightarrow> int option \<Rightarrow> EMEntry \<Rightarrow> (int \<times> int) + int option" where
  "local_hwm_step oid part seg found e =
     (if in_seg_file oid part seg e
      then if HWM e \<noteq> 0 then Inl (HWM e, em_status e) else Inr (Some (em_status e))
      else Inr found)"

definition getLocalHWM :: "OID_t \<Rightarrow> int \<Rightarrow> int \<Rightarrow> ExtentMap \<Rightarrow> (int \<times> int) cpp" where
  "getLocalHWM oid part seg st =
     (if oid < 0 then throw invalid_argument
      else bind_cpp (defined (em_slots st)) (\<lambda>es.
        case fold_exit (local_hwm_step oid part seg) es None of
          Inl r \<Rightarrow> ret r
        | Inr (Some status) \<Rightarrow> ret (0, status)
        | Inr None \<Rightarrow> throw invalid_argument))"

text \<open>\<open>setLocalHWM\<close>: the last extent of the segment file and the slot that carries the old mark.\<close>

definition hwm_slots_step ::
  "OID_t \<Rightarrow> int \<Rightarrow> int \<Rightarrow> EMEntry list \<Rightarrow> nat \<Rightarrow> int \<times> nat option \<times> nat option \<Rightarrow> int \<times> nat option \<times> nat option"
where
  "hwm_slots_step oid part seg es i = (\<lambda>(highest, lastI, oldI).
     let e = es ! i
     in if in_seg_file oid part seg e
        then let (highest', lastI') = (if blockOffset e \<ge> highest then (blockOffset e, Some i) else (highest, lastI))
             in (highest', lastI', if HWM e \<noteq> 0 then Some i else oldI)
        else (highest, lastI, oldI))"

definition setLocalHWM :: "OID_t \<Rightarrow> int \<Rightarrow> int \<Rightarrow> int \<Rightarrow> bool \<Rightarrow> ExtentMap \<Rightarrow> unit em_out" where
  "setLocalHWM oid part seg newHWM uselock st0 =
     (let st = (if uselock then grabEMEntryTable st0 else st0)
      in Option.bind (em_slots st) (\<lambda>es.
        case fold (hwm_slots_step oid part seg es) [0..<length es] (0, None, None) of
          (_, None, _) \<Rightarrow> Some (Inl invalid_argument, st)
        | (_, Some i, oldI) \<Rightarrow>
            let e = es ! i
            in if newHWM \<ge> u32_of (blockOffset e + il_size (em_range e) * 1024) then Some (Inl invalid_argument, st)
               else let st1 = em_put i (e\<lparr>HWM := newHWM, em_status := EXTENTAVAILABLE\<rparr>) st
                    in Some (Inr (), case oldI of
                         Some j \<Rightarrow> if j \<noteq> i then em_put j ((fExtentMap st1 ! j)\<lparr>HWM := 0\<rparr>) st1 else st1
                       | None \<Rightarrow> st1)))"

record BulkSetHWMArg =
  ba_oid :: OID_t
  ba_partNum :: int
  ba_segNum :: int
  ba_hwm :: int

fun setLocalHWM_each :: "BulkSetHWMArg list \<Rightarrow> ExtentMap \<Rightarrow> unit em_out" where
  "setLocalHWM_each [] st = Some (Inr (), st)"
| "setLocalHWM_each (a # as) st =
     Option.bind (setLocalHWM (ba_oid a) (ba_partNum a) (ba_segNum a) (ba_hwm a) False st) (\<lambda>(r, st').
       case r of Inl x \<Rightarrow> Some (Inl x, st') | Inr _ \<Rightarrow> setLocalHWM_each as st')"

definition bulkSetHWM :: "BulkSetHWMArg list \<Rightarrow> ExtentMap \<Rightarrow> unit em_out" where
  "bulkSetHWM v st = setLocalHWM_each v (grabEMEntryTable st)"

text \<open>
  \<open>bulkUpdateDBRoot\<close> keeps the first of several arguments for one block (\<open>unordered_set::insert\<close>) and
  writes into every slot with that first block, used or not, without an undo record.
\<close>

definition bulkUpdateDBRoot :: "(LBID_t \<times> int) list \<Rightarrow> ExtentMap \<Rightarrow> unit em_out" where
  "bulkUpdateDBRoot args st0 =
     (let st = grabEMEntryTable st0
      in Option.bind (em_slots st) (\<lambda>es.
        Some (Inr (), st\<lparr>fExtentMap :=
          map (\<lambda>e. case map_of args (il_start (em_range e)) of None \<Rightarrow> e | Some root \<Rightarrow> e\<lparr>dbRoot := root\<rparr>) es @
          drop (length es) (fExtentMap st)\<rparr>)))"

section \<open>Blocks and places in files\<close>

text \<open>
  What the allocation of extents guarantees: the fields are in the range of their types, no
  two extents share a block, and no two extents share a place in a segment file.
\<close>

definition em_entry_ok :: "EMEntry \<Rightarrow> bool" where
  "em_entry_ok e \<longleftrightarrow> 0 \<le> fileID e \<and> 0 \<le> il_start (em_range e) \<and> 0 \<le> il_size (em_range e) \<and> il_size (em_range e) < 2 ^ 20 \<and>
     0 \<le> blockOffset e \<and> blockOffset e + il_size (em_range e) * 1024 < 2 ^ 32 \<and> 0 \<le> partitionNum e \<and> 0 \<le> segmentNum e"

definition blocks_disjoint :: "EMEntry list \<Rightarrow> bool" where
  "blocks_disjoint es \<longleftrightarrow>
     (\<forall>i < length es. \<forall>j < length es. \<forall>l. em_contains l (es ! i) \<longrightarrow> em_contains l (es ! j) \<longrightarrow> i = j)"

definition places_disjoint :: "EMEntry list \<Rightarrow> bool" where
  "places_disjoint es \<longleftrightarrow>
     (\<forall>i < length es. \<forall>j < length es. \<forall>oid part seg fbo.
        in_seg_file oid part seg (es ! i) \<longrightarrow> holds_fbo fbo (es ! i) \<longrightarrow>
        in_seg_file oid part seg (es ! j) \<longrightarrow> holds_fbo fbo (es ! j) \<longrightarrow> i = j)"

definition em_files_ok :: "ExtentMap \<Rightarrow> bool" where
  "em_files_ok st \<longleftrightarrow> em_geom st \<and> (\<forall>e \<in> set (fExtentMap st). em_used e \<longrightarrow> em_entry_ok e) \<and>
     blocks_disjoint (fExtentMap st) \<and> places_disjoint (fExtentMap st)"

lemma lookupLocal_lbid_iff:
  assumes ok: "em_files_ok st" and l: "0 \<le> l"
  shows "lookupLocal_lbid l st = ret (Some (oid, root, part, seg, fbo)) \<longleftrightarrow>
    (\<exists>e \<in> set (fExtentMap st). em_contains l e \<and> in_seg_file oid part seg e \<and> dbRoot e = root \<and>
       fbo = blockOffset e + (l - il_start (em_range e)))" (is "_ \<longleftrightarrow> ?R")
proof -
  let ?es = "fExtentMap st"
  have geom: "em_geom st" using ok by (simp add: em_files_ok_def)
  have u32: "u32_of (blockOffset e + (l - il_start (em_range e))) = blockOffset e + (l - il_start (em_range e))"
    if "e \<in> set ?es" "em_contains l e" for e
    using that ok by (intro u32_id) (auto simp: em_files_ok_def em_entry_ok_def em_contains_def il_end_def)
  have uniq: "find_slot (em_contains l) ?es = Some i" if "i < length ?es" "em_contains l (?es ! i)" for i
  proof (rule find_slot_unique)
    show "i < length ?es" "em_contains l (?es ! i)" by (fact that)+
    fix j assume "j < length ?es" "em_contains l (?es ! j)"
    then show "j = i" using ok that unfolding em_files_ok_def blocks_disjoint_def by blast
  qed
  show ?thesis
  proof (cases "find_slot (em_contains l) ?es")
    case None
    then have "\<not> ?R" by (auto simp: find_slot_None)
    then show ?thesis using None geom l by (simp add: lookupLocal_lbid_def)
  next
    case (Some i)
    then have i: "i < length ?es" "em_contains l (?es ! i)" by (auto simp: find_slot_Some)
    have "?R \<longleftrightarrow> in_seg_file oid part seg (?es ! i) \<and> dbRoot (?es ! i) = root \<and>
        fbo = blockOffset (?es ! i) + (l - il_start (em_range (?es ! i)))"
    proof
      assume ?R
      then obtain j where j: "j < length ?es" "em_contains l (?es ! j)" "in_seg_file oid part seg (?es ! j)" "dbRoot (?es ! j) = root"
          "fbo = blockOffset (?es ! j) + (l - il_start (em_range (?es ! j)))" by (auto simp: in_set_conv_nth)
      then have "j = i" using uniq [OF j(1,2)] Some by simp
      with j show "in_seg_file oid part seg (?es ! i) \<and> dbRoot (?es ! i) = root \<and> fbo = blockOffset (?es ! i) + (l - il_start (em_range (?es ! i)))"
        by simp
    qed (use i nth_mem in blast)
    then show ?thesis using Some geom l i u32 [OF nth_mem] by (auto simp: lookupLocal_lbid_def Let_def in_seg_file_def em_contains_def)
  qed
qed

lemma lookupLocal_DBroot_iff:
  assumes ok: "em_files_ok st" and oid: "0 \<le> oid"
  shows "lookupLocal_DBroot oid root part seg fbo st = ret (Some l) \<longleftrightarrow>
    (\<exists>e \<in> set (fExtentMap st). in_seg_file oid part seg e \<and> dbRoot e = root \<and> holds_fbo fbo e \<and>
       l = il_start (em_range e) + (fbo - blockOffset e))" (is "_ \<longleftrightarrow> ?R")
proof -
  let ?es = "fExtentMap st" and ?P = "\<lambda>e. in_seg_file oid part seg e \<and> dbRoot e = root \<and> holds_fbo fbo e"
  have geom: "em_geom st" using ok by (simp add: em_files_ok_def)
  have s32: "s32_of (fbo - blockOffset e) = fbo - blockOffset e" if "e \<in> set ?es" "?P e" for e
  proof -
    have "em_entry_ok e" using ok that by (auto simp: em_files_ok_def in_seg_file_def)
    then have "il_size (em_range e) < 1048576" by (simp add: em_entry_ok_def)
    then show ?thesis using that(2) by (intro s32_id) (auto simp: holds_fbo_def)
  qed
  have uniq: "find_slot ?P ?es = Some i" if "i < length ?es" "?P (?es ! i)" for i
  proof (rule find_slot_unique)
    show "i < length ?es" "?P (?es ! i)" by (fact that)+
    fix j assume "j < length ?es" "?P (?es ! j)"
    then show "j = i" using ok that unfolding em_files_ok_def places_disjoint_def by blast
  qed
  show ?thesis
  proof (cases "find_slot ?P ?es")
    case None
    then have "\<not> ?R" by (auto simp: find_slot_None)
    then show ?thesis using None geom oid by (simp add: lookupLocal_DBroot_def)
  next
    case (Some i)
    then have i: "i < length ?es" "?P (?es ! i)" by (auto simp: find_slot_Some)
    have "?R \<longleftrightarrow> l = il_start (em_range (?es ! i)) + (fbo - blockOffset (?es ! i))"
    proof
      assume ?R
      then obtain j where j: "j < length ?es" "?P (?es ! j)" "l = il_start (em_range (?es ! j)) + (fbo - blockOffset (?es ! j))"
        by (auto simp: in_set_conv_nth)
      then have "j = i" using uniq [OF j(1,2)] Some by simp
      with j show "l = il_start (em_range (?es ! i)) + (fbo - blockOffset (?es ! i))" by simp
    qed (use i nth_mem in blast)
    then show ?thesis using Some geom oid i s32 [OF nth_mem] by (auto simp: lookupLocal_DBroot_def)
  qed
qed


lemma ex_em_files [simp]: "em_files_ok ex_em"
  by (auto simp: em_files_ok_def ex_em_slots em_entry_ok_def blocks_disjoint_def places_disjoint_def less_Suc_eq
      em_contains_def il_end_def in_seg_file_def)


section \<open>The last extent\<close>

definition ext_pos :: "EMEntry \<Rightarrow> int \<times> int \<times> int" where
  "ext_pos e = (partitionNum e, blockOffset e, segmentNum e)"

lemma at_or_after_pos: "at_or_after part off seg e \<longleftrightarrow> (part, off, seg) \<le> ext_pos e"
  by (auto simp: at_or_after_def ext_pos_def less_eq_prod_def)

lemma ext_pos_nonneg: "em_entry_ok e \<Longrightarrow> (0, 0, 0) \<le> ext_pos e"
  by (auto simp: em_entry_ok_def ext_pos_def less_eq_prod_def)

text \<open>The slot with the greatest position among those with a property.\<close>

definition is_last :: "(EMEntry \<Rightarrow> bool) \<Rightarrow> EMEntry list \<Rightarrow> nat set \<Rightarrow> nat option \<Rightarrow> bool" where
  "is_last P es js idx \<longleftrightarrow> (case idx of
       None \<Rightarrow> \<forall>j \<in> js. \<not> P (es ! j)
     | Some i \<Rightarrow> i \<in> js \<and> P (es ! i) \<and> (\<forall>j \<in> js. P (es ! j) \<longrightarrow> ext_pos (es ! j) \<le> ext_pos (es ! i)))"

lemma last_extent_fold:
  assumes "\<forall>j \<in> set js. P (es ! j) \<longrightarrow> em_entry_ok (es ! j)"
  shows "\<exists>idx. fold (last_extent_step P es) js (0, 0, 0, None) =
      (case idx of None \<Rightarrow> (0, 0, 0, None)
       | Some i \<Rightarrow> (partitionNum (es ! i), blockOffset (es ! i), segmentNum (es ! i), Some i)) \<and> is_last P es (set js) idx"
  using assms
proof (induction js rule: rev_induct)
  case Nil
  show ?case by (intro exI [of _ None]) (simp add: is_last_def)
next
  case (snoc j js)
  then obtain idx where idx: "fold (last_extent_step P es) js (0, 0, 0, None) =
      (case idx of None \<Rightarrow> (0, 0, 0, None)
       | Some i \<Rightarrow> (partitionNum (es ! i), blockOffset (es ! i), segmentNum (es ! i), Some i))" "is_last P es (set js) idx" by auto
  have pos: "P (es ! j) \<Longrightarrow> (0, 0, 0) \<le> ext_pos (es ! j)" using snoc.prems ext_pos_nonneg by simp
  show ?case
  proof (cases "P (es ! j) \<and> (case idx of None \<Rightarrow> True | Some i \<Rightarrow> ext_pos (es ! i) \<le> ext_pos (es ! j))")
    case True
    then have "fold (last_extent_step P es) (js @ [j]) (0, 0, 0, None) =
        (partitionNum (es ! j), blockOffset (es ! j), segmentNum (es ! j), Some j)"
      using idx(1) pos by (cases idx) (simp_all add: last_extent_step_def Let_def at_or_after_pos ext_pos_def)
    moreover have "is_last P es (set (js @ [j])) (Some j)"
      using idx(2) True by (cases idx) (auto simp: is_last_def intro: order_trans)
    ultimately show ?thesis by (intro exI [of _ "Some j"]) simp
  next
    case False
    then have "fold (last_extent_step P es) (js @ [j]) (0, 0, 0, None) = fold (last_extent_step P es) js (0, 0, 0, None)"
      using idx(1) by (cases idx) (auto simp: last_extent_step_def Let_def at_or_after_pos ext_pos_def)
    moreover have "is_last P es (set (js @ [j])) idx"
      using idx(2) False by (cases idx) (auto simp: is_last_def)
    ultimately show ?thesis using idx(1) by (intro exI [of _ idx]) simp
  qed
qed

text \<open>The extents \<open>getLastHWM_DBroot\<close> considers.\<close>

definition hwm_candidate :: "OID_t \<Rightarrow> int \<Rightarrow> EMEntry \<Rightarrow> bool" where
  "hwm_candidate oid root e \<longleftrightarrow> em_used e \<and> fileID e = oid \<and> dbRoot e = root \<and>
     (em_status e = EXTENTAVAILABLE \<or> em_status e = EXTENTOUTOFSERVICE)"

text \<open>
  C22. The last high water mark of a column on a DBRoot: \<open>getLastHWM_DBroot\<close> answers the mark, the
  partition, the segment and the status of an extent that is available or out of service and
  that no other such extent follows in the order of partition, block offset and segment; it
  reports that nothing was found exactly when there is no such extent.
\<close>

theorem getLastHWM_DBroot_last:
  assumes ok: "em_files_ok st" and oid: "0 \<le> oid"
  shows "\<exists>hwm part seg status. getLastHWM_DBroot oid root st = ret (hwm, part, seg, status) \<and>
    (case status of
       None \<Rightarrow> \<forall>e \<in> set (fExtentMap st). \<not> hwm_candidate oid root e
     | Some s \<Rightarrow> \<exists>e \<in> set (fExtentMap st). hwm_candidate oid root e \<and> hwm = HWM e \<and> part = partitionNum e \<and>
         seg = segmentNum e \<and> s = em_status e \<and>
         (\<forall>e' \<in> set (fExtentMap st). hwm_candidate oid root e' \<longrightarrow> ext_pos e' \<le> ext_pos e))"
proof -
  let ?es = "fExtentMap st" and ?P = "hwm_candidate oid root"
  have geom: "em_geom st" and good: "\<forall>j \<in> set (rev [0..<length ?es]). ?P (?es ! j) \<longrightarrow> em_entry_ok (?es ! j)"
    using ok by (auto simp: em_files_ok_def hwm_candidate_def)
  have P: "?P = (\<lambda>e. em_used e \<and> fileID e = oid \<and> dbRoot e = root \<and>
      (em_status e = EXTENTAVAILABLE \<or> em_status e = EXTENTOUTOFSERVICE))" by (simp add: fun_eq_iff hwm_candidate_def)
  from last_extent_fold [OF good] obtain idx where idx: "fold (last_extent_step ?P ?es) (rev [0..<length ?es]) (0, 0, 0, None) =
      (case idx of None \<Rightarrow> (0, 0, 0, None)
       | Some i \<Rightarrow> (partitionNum (?es ! i), blockOffset (?es ! i), segmentNum (?es ! i), Some i))"
    "is_last ?P ?es {0..<length ?es} idx" by auto
  show ?thesis
  proof (cases idx)
    case None
    then have "getLastHWM_DBroot oid root st = ret (0, 0, 0, None)"
      using idx(1) geom oid by (simp add: getLastHWM_DBroot_def P)
    moreover have "\<forall>e \<in> set ?es. \<not> ?P e" using idx(2) None by (auto simp: is_last_def in_set_conv_nth)
    ultimately show ?thesis by auto
  next
    case (Some i)
    then have "getLastHWM_DBroot oid root st = ret (HWM (?es ! i), partitionNum (?es ! i), segmentNum (?es ! i), Some (em_status (?es ! i)))"
      using idx(1) geom oid by (simp add: getLastHWM_DBroot_def P)
    moreover have "?es ! i \<in> set ?es" "?P (?es ! i)" "\<forall>e \<in> set ?es. ?P e \<longrightarrow> ext_pos e \<le> ext_pos (?es ! i)"
      using idx(2) Some by (auto simp: is_last_def in_set_conv_nth)
    ultimately show ?thesis by auto
  qed
qed

theorem getLastHWM_DBroot_last_witness:
  "getLastHWM_DBroot 3001 1 ex_em = ret (20, 0, 1, Some EXTENTAVAILABLE)"
proof -
  have c: "hwm_candidate 3001 1 (ex_extent a b c)" "\<not> hwm_candidate 3001 1 zero_EMEntry" for a b c
    by (simp_all add: hwm_candidate_def)
  from getLastHWM_DBroot_last [OF ex_em_files, of 3001 1] obtain hwm part seg status where
    g: "getLastHWM_DBroot 3001 1 ex_em = ret (hwm, part, seg, status)" and s: "case status of
       None \<Rightarrow> \<forall>e \<in> set (fExtentMap ex_em). \<not> hwm_candidate 3001 1 e
     | Some s \<Rightarrow> \<exists>e \<in> set (fExtentMap ex_em). hwm_candidate 3001 1 e \<and> hwm = HWM e \<and> part = partitionNum e \<and>
         seg = segmentNum e \<and> s = em_status e \<and>
         (\<forall>e' \<in> set (fExtentMap ex_em). hwm_candidate 3001 1 e' \<longrightarrow> ext_pos e' \<le> ext_pos e)" by auto
  then show ?thesis by (cases status) (auto simp: ex_em_slots c ext_pos_def less_eq_prod_def)
qed

section \<open>The high water mark of a segment file\<close>

text \<open>At most one extent of the segment file carries a mark.\<close>

definition hwm_single :: "OID_t \<Rightarrow> int \<Rightarrow> int \<Rightarrow> EMEntry list \<Rightarrow> bool" where
  "hwm_single oid part seg es \<longleftrightarrow>
     (\<forall>i < length es. \<forall>j < length es. in_seg_file oid part seg (es ! i) \<longrightarrow> HWM (es ! i) \<noteq> 0 \<longrightarrow>
        in_seg_file oid part seg (es ! j) \<longrightarrow> HWM (es ! j) \<noteq> 0 \<longrightarrow> i = j)"

lemma local_hwm_fold:
  "case find (\<lambda>e. in_seg_file oid part seg e \<and> HWM e \<noteq> 0) es of
     Some e \<Rightarrow> fold_exit (local_hwm_step oid part seg) es f = Inl (HWM e, em_status e)
   | None \<Rightarrow> \<exists>f'. fold_exit (local_hwm_step oid part seg) es f = Inr f' \<and>
       (f' = None \<longleftrightarrow> f = None \<and> (\<forall>e \<in> set es. \<not> in_seg_file oid part seg e))"
proof (induction es arbitrary: f)
  case (Cons e es)
  have step: "local_hwm_step oid part seg f e =
      (if in_seg_file oid part seg e then if HWM e \<noteq> 0 then Inl (HWM e, em_status e) else Inr (Some (em_status e)) else Inr f)"
    by (rule local_hwm_step_def)
  show ?case
  proof (cases "in_seg_file oid part seg e")
    case True
    then show ?thesis using Cons [of "Some (em_status e)"] step by (auto split: option.splits)
  next
    case False
    then show ?thesis using Cons [of f] step by (auto split: option.splits)
  qed
qed simp

lemma getLocalHWM_mark:
  assumes geom: "em_geom st" and oid: "0 \<le> oid" and i: "i < length (fExtentMap st)" "in_seg_file oid part seg (fExtentMap st ! i)"
    and one: "\<forall>j < length (fExtentMap st). j \<noteq> i \<longrightarrow> in_seg_file oid part seg (fExtentMap st ! j) \<longrightarrow> HWM (fExtentMap st ! j) = 0"
  shows "\<exists>status. getLocalHWM oid part seg st = ret (HWM (fExtentMap st ! i), status)"
proof -
  let ?es = "fExtentMap st" and ?P = "\<lambda>e. in_seg_file oid part seg e \<and> HWM e \<noteq> 0"
  show ?thesis
  proof (cases "find ?P ?es")
    case None
    then have z: "HWM (?es ! i) = 0" using i nth_mem [OF i(1)] by (auto simp: find_None_iff)
    from local_hwm_fold [of oid part seg ?es None] None i obtain f' where
      "fold_exit (local_hwm_step oid part seg) ?es None = Inr f'" "f' \<noteq> None" by auto
    then show ?thesis using geom oid z by (auto simp: getLocalHWM_def)
  next
    case (Some e)
    then obtain j where j: "j < length ?es" "?P (?es ! j)" "e = ?es ! j" by (auto simp: find_Some_iff)
    then have "j = i" using one by auto
    with local_hwm_fold [of oid part seg ?es None] Some j have
      "fold_exit (local_hwm_step oid part seg) ?es None = Inl (HWM (?es ! i), em_status (?es ! i))" by simp
    then show ?thesis using geom oid by (simp add: getLocalHWM_def)
  qed
qed

lemma hwm_slots_fold:
  assumes "\<forall>e \<in> set es. in_seg_file oid part seg e \<longrightarrow> 0 \<le> blockOffset e" "k \<le> length es"
  shows "\<exists>lastI oldI. fold (hwm_slots_step oid part seg es) [0..<k] (0, None, None) =
      (case lastI of None \<Rightarrow> 0 | Some i \<Rightarrow> blockOffset (es ! i), lastI, oldI) \<and>
    (case lastI of None \<Rightarrow> \<forall>j < k. \<not> in_seg_file oid part seg (es ! j)
     | Some i \<Rightarrow> i < k \<and> in_seg_file oid part seg (es ! i) \<and>
         (\<forall>j < k. in_seg_file oid part seg (es ! j) \<longrightarrow> blockOffset (es ! j) \<le> blockOffset (es ! i))) \<and>
    (case oldI of None \<Rightarrow> \<forall>j < k. in_seg_file oid part seg (es ! j) \<longrightarrow> HWM (es ! j) = 0
     | Some j \<Rightarrow> j < k \<and> in_seg_file oid part seg (es ! j) \<and> HWM (es ! j) \<noteq> 0)"
  using assms(2)
proof (induction k)
  case 0
  show ?case by (intro exI [of _ None]) simp
next
  case (Suc k)
  then obtain lastI oldI where IH: "fold (hwm_slots_step oid part seg es) [0..<k] (0, None, None) =
      (case lastI of None \<Rightarrow> 0 | Some i \<Rightarrow> blockOffset (es ! i), lastI, oldI)"
    "case lastI of None \<Rightarrow> \<forall>j < k. \<not> in_seg_file oid part seg (es ! j)
     | Some i \<Rightarrow> i < k \<and> in_seg_file oid part seg (es ! i) \<and>
         (\<forall>j < k. in_seg_file oid part seg (es ! j) \<longrightarrow> blockOffset (es ! j) \<le> blockOffset (es ! i))"
    "case oldI of None \<Rightarrow> \<forall>j < k. in_seg_file oid part seg (es ! j) \<longrightarrow> HWM (es ! j) = 0
     | Some j \<Rightarrow> j < k \<and> in_seg_file oid part seg (es ! j) \<and> HWM (es ! j) \<noteq> 0"
    by auto
  let ?e = "es ! k" and ?h = "case lastI of None \<Rightarrow> 0 | Some i \<Rightarrow> blockOffset (es ! i)"
  define lastI' where "lastI' = (if in_seg_file oid part seg ?e \<and> ?h \<le> blockOffset ?e then Some k else lastI)"
  define oldI' where "oldI' = (if in_seg_file oid part seg ?e \<and> HWM ?e \<noteq> 0 then Some k else oldI)"
  have pos: "in_seg_file oid part seg ?e \<Longrightarrow> 0 \<le> blockOffset ?e" using assms(1) Suc.prems by simp
  have "fold (hwm_slots_step oid part seg es) [0..<Suc k] (0, None, None) =
      (case lastI' of None \<Rightarrow> 0 | Some i \<Rightarrow> blockOffset (es ! i), lastI', oldI')"
    using IH(1) by (auto simp: hwm_slots_step_def Let_def lastI'_def oldI'_def)
  moreover have "case lastI' of None \<Rightarrow> \<forall>j < Suc k. \<not> in_seg_file oid part seg (es ! j)
     | Some i \<Rightarrow> i < Suc k \<and> in_seg_file oid part seg (es ! i) \<and>
         (\<forall>j < Suc k. in_seg_file oid part seg (es ! j) \<longrightarrow> blockOffset (es ! j) \<le> blockOffset (es ! i))"
    using IH(2) pos by (cases lastI) (auto simp: lastI'_def less_Suc_eq intro: order_trans)
  moreover have "case oldI' of None \<Rightarrow> \<forall>j < Suc k. in_seg_file oid part seg (es ! j) \<longrightarrow> HWM (es ! j) = 0
     | Some j \<Rightarrow> j < Suc k \<and> in_seg_file oid part seg (es ! j) \<and> HWM (es ! j) \<noteq> 0"
    using IH(3) by (cases oldI) (auto simp: oldI'_def less_Suc_eq)
  ultimately show ?case by blast
qed

text \<open>The file blocks an extent may hold marks for.\<close>

definition fbo_end :: "EMEntry \<Rightarrow> int" where
  "fbo_end e = blockOffset e + il_size (em_range e) * 1024"

lemma last_extent_end:
  assumes ok: "em_files_ok st" and i: "i < length (fExtentMap st)" "in_seg_file oid part seg (fExtentMap st ! i)"
    and last: "\<forall>j < length (fExtentMap st). in_seg_file oid part seg (fExtentMap st ! j) \<longrightarrow> blockOffset (fExtentMap st ! j) \<le> blockOffset (fExtentMap st ! i)"
    and e: "e \<in> set (fExtentMap st)" "in_seg_file oid part seg e"
  shows "fbo_end e \<le> fbo_end (fExtentMap st ! i)"
proof -
  let ?es = "fExtentMap st"
  from e obtain j where j: "j < length ?es" "e = ?es ! j" by (auto simp: in_set_conv_nth)
  have size: "0 < il_size (em_range (?es ! i))" using ok i by (force simp: em_files_ok_def em_entry_ok_def in_seg_file_def em_used_def)
  show ?thesis
  proof (cases "j = i")
    case False
    have "\<not> holds_fbo (blockOffset (?es ! i)) (?es ! j)"
    proof
      assume "holds_fbo (blockOffset (?es ! i)) (?es ! j)"
      moreover have "holds_fbo (blockOffset (?es ! i)) (?es ! i)" using size by (simp add: holds_fbo_def)
      ultimately have "j = i" using ok i e j unfolding em_files_ok_def places_disjoint_def by blast
      with False show False ..
    qed
    then show ?thesis using last j e(2) size by (auto simp: holds_fbo_def fbo_end_def)
  qed (simp add: j)
qed

text \<open>
  C23. Setting the high water mark of a segment file. \<open>setLocalHWM\<close> succeeds exactly when the file
  has an extent that reaches beyond the new mark and otherwise throws \<open>invalid_argument\<close> and
  changes no extent. After success \<open>getLocalHWM\<close> answers the new mark, still at most one extent
  of the file carries a mark, no extent of another file changes, and undoing gives the map back.
\<close>

theorem setLocalHWM_getLocalHWM:
  assumes ok: "em_files_ok st" and oid: "0 \<le> oid" and one: "hwm_single oid part seg (fExtentMap st)" and log: "em_undoRecords st = []"
  shows "\<exists>r st'. setLocalHWM oid part seg newHWM lock st = Some (r, st') \<and> em_undoChanges st' = Some (em_finishChanges st) \<and>
    (if \<exists>e \<in> set (fExtentMap st). in_seg_file oid part seg e \<and> newHWM < fbo_end e
     then r = Inr () \<and> (\<exists>status. getLocalHWM oid part seg st' = ret (newHWM, status)) \<and> hwm_single oid part seg (fExtentMap st') \<and>
       (\<forall>j < length (fExtentMap st). \<not> in_seg_file oid part seg (fExtentMap st ! j) \<longrightarrow> fExtentMap st' ! j = fExtentMap st ! j)
     else r = Inl invalid_argument \<and> fExtentMap st' = fExtentMap st)"
proof -
  let ?es = "fExtentMap st" and ?st = "if lock then st\<lparr>emLocked := True\<rparr> else st" and ?F = "in_seg_file oid part seg"
  have geom: "em_geom st" and good: "\<And>e. e \<in> set ?es \<Longrightarrow> em_used e \<Longrightarrow> em_entry_ok e" using ok by (auto simp: em_files_ok_def)
  have st: "em_geom ?st" "fExtentMap ?st = ?es" "em_undo_ext st ?st" using geom by simp_all
  have grab: "(if lock then grabEMEntryTable st else st) = ?st" using geom by simp
  from hwm_slots_fold [of ?es oid part seg "length ?es"] good obtain lastI oldI where
    fold: "fold (hwm_slots_step oid part seg ?es) [0..<length ?es] (0, None, None) = (case lastI of None \<Rightarrow> 0 | Some i \<Rightarrow> blockOffset (?es ! i), lastI, oldI)"
    and last: "case lastI of None \<Rightarrow> \<forall>j < length ?es. \<not> ?F (?es ! j)
     | Some i \<Rightarrow> i < length ?es \<and> ?F (?es ! i) \<and> (\<forall>j < length ?es. ?F (?es ! j) \<longrightarrow> blockOffset (?es ! j) \<le> blockOffset (?es ! i))"
    and old: "case oldI of None \<Rightarrow> \<forall>j < length ?es. ?F (?es ! j) \<longrightarrow> HWM (?es ! j) = 0 | Some j \<Rightarrow> j < length ?es \<and> ?F (?es ! j) \<and> HWM (?es ! j) \<noteq> 0"
    by (auto simp: in_seg_file_def em_entry_ok_def)
  have fail: ?thesis if "setLocalHWM oid part seg newHWM lock st = Some (Inl invalid_argument, ?st)"
      "\<not> (\<exists>e \<in> set ?es. ?F e \<and> newHWM < fbo_end e)"
    using that st(2) em_undoChanges_ext [OF st(3) log] by simp
  show ?thesis
  proof (cases lastI)
    case None
    then have "\<forall>e \<in> set ?es. \<not> ?F e" using last by (auto simp: in_set_conv_nth)
    moreover have "setLocalHWM oid part seg newHWM lock st = Some (Inl invalid_argument, ?st)"
      using None fold st by (simp add: setLocalHWM_def grab Let_def)
    ultimately show ?thesis by (intro fail) auto
  next
    case (Some i)
    let ?e = "?es ! i"
    have i: "i < length ?es" "?F ?e" and max: "\<forall>j < length ?es. ?F (?es ! j) \<longrightarrow> blockOffset (?es ! j) \<le> blockOffset ?e"
      using last Some by auto
    have "em_entry_ok ?e" using good i by (simp add: in_seg_file_def)
    then have u32: "u32_of (blockOffset ?e + il_size (em_range ?e) * 1024) = fbo_end ?e"
      unfolding fbo_end_def by (intro u32_id) (auto simp: em_entry_ok_def)
    have iff: "(\<exists>e \<in> set ?es. ?F e \<and> newHWM < fbo_end e) \<longleftrightarrow> newHWM < fbo_end ?e"
      using last_extent_end [OF ok i max] i by (force dest: nth_mem)
    show ?thesis
    proof (cases "newHWM < fbo_end ?e")
      case False
      then show ?thesis using Some fold st iff u32 by (intro fail) (simp_all add: setLocalHWM_def grab Let_def)
    next
      case True
      let ?n = "?e\<lparr>HWM := newHWM, em_status := EXTENTAVAILABLE\<rparr>"
      let ?st1 = "em_put i ?n ?st"
      define st' where "st' = (case oldI of Some j \<Rightarrow> if j \<noteq> i then em_put j ((fExtentMap ?st1 ! j)\<lparr>HWM := 0\<rparr>) ?st1 else ?st1 | None \<Rightarrow> ?st1)"
      have set: "setLocalHWM oid part seg newHWM lock st = Some (Inr (), st')"
        using Some fold st True u32 by (simp add: setLocalHWM_def grab Let_def st'_def)
      have nth: "fExtentMap st' ! j = (if j = i then ?n else if oldI = Some j then (?es ! j)\<lparr>HWM := 0\<rparr> else ?es ! j)" if "j < length ?es" for j
        using that i st(2) by (auto simp: st'_def nth_list_update split: option.split)
      have len: "length (fExtentMap st') = length ?es" and geom': "em_geom st'"
        using geom st(2) by (auto simp: st'_def split: option.split)
      have "em_undo_ext st ?st1" using st(3) by (rule em_undo_ext_trans) simp
      then have "em_undo_ext st (em_put j e ?st1)" for j e by (rule em_undo_ext_trans) simp
      with \<open>em_undo_ext st ?st1\<close> have ext: "em_undo_ext st st'"
        unfolding st'_def by (cases oldI) (simp_all only: option.case if_split, auto)
      have F: "?F (fExtentMap st' ! j) = ?F (?es ! j)" if "j < length ?es" for j
        using nth [OF that] by (auto simp: in_seg_file_def em_used_def)
      have zero: "HWM (fExtentMap st' ! j) = 0" if "j < length ?es" "j \<noteq> i" "?F (?es ! j)" for j
        using nth [OF that(1)] that old one by (cases oldI) (auto simp: hwm_single_def)
      then have "hwm_single oid part seg (fExtentMap st')" unfolding hwm_single_def len using F by metis
      moreover have "\<exists>status. getLocalHWM oid part seg st' = ret (newHWM, status)"
      proof -
        have "HWM (fExtentMap st' ! i) = newHWM" using nth [OF i(1)] by simp
        moreover have "\<exists>status. getLocalHWM oid part seg st' = ret (HWM (fExtentMap st' ! i), status)"
          by (rule getLocalHWM_mark [OF geom' oid]) (use i F zero len in auto)
        ultimately show ?thesis by simp
      qed
      moreover have "fExtentMap st' ! j = ?es ! j" if "j < length ?es" "\<not> ?F (?es ! j)" for j
        using nth [OF that(1)] that(2) i old by (cases oldI) auto
      ultimately show ?thesis using set iff True em_undoChanges_ext [OF ext log] by auto
    qed
  qed
qed

theorem setLocalHWM_getLocalHWM_witness:
  "\<exists>st' status. setLocalHWM 3001 0 1 5000 True ex_em = Some (Inr (), st') \<and> getLocalHWM 3001 0 1 st' = ret (5000, status) \<and>
     em_undoChanges st' = Some (em_finishChanges ex_em)"
proof -
  have "hwm_single 3001 0 1 (fExtentMap ex_em)"
    by (auto simp: hwm_single_def ex_em_slots less_Suc_eq in_seg_file_def)
  moreover have "\<exists>e \<in> set (fExtentMap ex_em). in_seg_file 3001 0 1 e \<and> 5000 < fbo_end e"
    by (simp add: ex_em_slots in_seg_file_def fbo_end_def)
  ultimately show ?thesis using setLocalHWM_getLocalHWM [OF ex_em_files, of 3001 0 1 5000 True] by auto
qed

end
