(* ===== verification/EM_Space.thy ===== *)
theory EM_Space
  imports EM_Lookup "HOL-Library.Multiset"
begin

text \<open>
  The logical block space: taking ranges from the free list (\<open>getLBIDsFromFreeList\<close>), giving an
  extent's range back to it (\<open>deleteExtent\<close>) and the operations that delete a column, a list of
  columns or a DBRoot (\<open>deleteOID\<close>, \<open>deleteOIDs\<close>, \<open>deleteDBRoot\<close> of \<open>extentmap.cpp\<close>). The space is
  managed in units of 1024 blocks; the invariant says that the extents and the free list
  together hold every unit of the space exactly once.
\<close>

section \<open>The free list\<close>

definition getLBIDsFromFreeList :: "int \<Rightarrow> ExtentMap \<Rightarrow> LBID_t em_out" where
  "getLBIDsFromFreeList n st =
     Option.bind (fl_slots st) (\<lambda>fl.
       case find_slot (\<lambda>r. n \<le> il_size r) fl of
         None \<Rightarrow> Some (Inl runtime_error, st)
       | Some i \<Rightarrow>
           let r = \<lparr>il_start = il_start (fl ! i) + u32_of (n * 1024), il_size = u32_of (il_size (fl ! i) - n)\<rparr>;
               st1 = fl_put i r st
           in Some (Inr (il_start (fl ! i)), if il_size r = 0 then fl_resize (- sizeof_InlineLBIDRange) st1 else st1))"

text \<open>
  The scan of \<open>deleteExtent\<close>: the free ranges that end where the extent starts and start where
  it ends, and the last empty slot.
\<close>

definition fl_scan_step ::
  "InlineLBIDRange \<Rightarrow> InlineLBIDRange list \<Rightarrow> nat \<Rightarrow> nat option \<times> nat option \<times> nat option \<Rightarrow> nat option \<times> nat option \<times> nat option"
where
  "fl_scan_step r fl k = (\<lambda>(prec, succ, free).
     if il_size (fl ! k) = 0 then (prec, succ, Some k)
     else if il_end r = il_start (fl ! k) then (prec, Some k, free)
     else if il_end (fl ! k) = il_start r then (Some k, succ, free)
     else (prec, succ, free))"

definition fl_scan :: "InlineLBIDRange \<Rightarrow> InlineLBIDRange list \<Rightarrow> nat option \<times> nat option \<times> nat option" where
  "fl_scan r fl = fold (fl_scan_step r fl) [0..<length fl] (None, None, None)"

text \<open>A record of a free list slot, and a change of a slot without one.\<close>

definition fl_save :: "nat \<Rightarrow> ExtentMap \<Rightarrow> ExtentMap" where
  "fl_save i st = em_makeUndoRecord (ed_range (tableShmkey (fFLShminfo st)) i (fFreeList st ! i)) st"

definition fl_set :: "nat \<Rightarrow> InlineLBIDRange \<Rightarrow> ExtentMap \<Rightarrow> ExtentMap" where
  "fl_set i r st = st\<lparr>fFreeList := (fFreeList st)[i := r]\<rparr>"

text \<open>``Migrate the entry upward if there's a space''.\<close>

definition fl_migrate :: "nat option \<Rightarrow> nat \<Rightarrow> ExtentMap \<Rightarrow> nat \<times> ExtentMap" where
  "fl_migrate free p st =
     (case free of
        Some f \<Rightarrow> if f < p
          then let st1 = fl_save f st;
                   st2 = fl_set f (fFreeList st1 ! p) st1
               in (f, fl_set p ((fFreeList st2 ! p)\<lparr>il_size := 0\<rparr>) st2)
          else (p, st)
      | None \<Rightarrow> (p, st))"

definition fl_enlarge :: "nat \<Rightarrow> int \<Rightarrow> ExtentMap \<Rightarrow> ExtentMap" where
  "fl_enlarge i n st = fl_set i ((fFreeList st ! i)\<lparr>il_size := u32_of (il_size (fFreeList st ! i) + n)\<rparr>) st"

text \<open>
  The four cases of \<open>deleteExtent\<close>: a free range on both sides, after, before, on neither side.
  The last case records the member \<open>fFLShminfo\<close> instead of the descriptor it points to.
\<close>

definition free_between :: "InlineLBIDRange \<Rightarrow> nat \<Rightarrow> nat \<Rightarrow> nat option \<Rightarrow> ExtentMap \<Rightarrow> ExtentMap" where
  "free_between r p s free st =
     (let (p', st1) = fl_migrate free p (fl_save p st);
          st2 = fl_enlarge p' (il_size (fFreeList st1 ! s) + il_size r) st1;
          st3 = fl_put s ((fFreeList st2 ! s)\<lparr>il_size := 0\<rparr>) st2
      in fl_resize (- sizeof_InlineLBIDRange) st3)"

definition free_before :: "InlineLBIDRange \<Rightarrow> nat \<Rightarrow> nat option \<Rightarrow> ExtentMap \<Rightarrow> ExtentMap" where
  "free_before r s free st =
     (let (s', st1) = fl_migrate free s (fl_save s st);
          st2 = fl_set s' ((fFreeList st1 ! s')\<lparr>il_start := il_start r\<rparr>) st1
      in fl_enlarge s' (il_size r) st2)"

definition free_after :: "InlineLBIDRange \<Rightarrow> nat \<Rightarrow> nat option \<Rightarrow> ExtentMap \<Rightarrow> ExtentMap" where
  "free_after r p free st =
     (let (p', st1) = fl_migrate free p (fl_save p st) in fl_enlarge p' (il_size r) st1)"

definition free_alone :: "InlineLBIDRange \<Rightarrow> nat \<Rightarrow> nat option \<Rightarrow> ExtentMap \<Rightarrow> ExtentMap option" where
  "free_alone r flEntries free0 st =
     (let full = (mst_currentSize (fFLShminfo st) = allocdSize (fFLShminfo st));
          st1 = (if full then growFLShmseg st else st)
      in case (if full then Some flEntries else free0) of
           None \<Rightarrow> None
         | Some f \<Rightarrow>
             let st2 = em_makeUndoRecord ed_pointer (fl_put f \<lparr>il_start = il_start r, il_size = il_size r\<rparr> st1)
             in Some (st2\<lparr>fFLShminfo := (fFLShminfo st2)\<lparr>mst_currentSize := mst_currentSize (fFLShminfo st2) + sizeof_InlineLBIDRange\<rparr>\<rparr>))"

definition fl_free :: "InlineLBIDRange \<Rightarrow> ExtentMap \<Rightarrow> ExtentMap option" where
  "fl_free r st =
     Option.bind (fl_slots st) (\<lambda>fl.
       case fl_scan r fl of
         (Some p, Some s, free) \<Rightarrow> Some (free_between r p s free st)
       | (None, Some s, free) \<Rightarrow> Some (free_before r s free st)
       | (Some p, None, free) \<Rightarrow> Some (free_after r p free st)
       | (None, None, free) \<Rightarrow> free_alone r (length fl) free st)"

definition em_clear_slot :: "nat \<Rightarrow> ExtentMap \<Rightarrow> ExtentMap" where
  "em_clear_slot i st =
     (let e = fExtentMap st ! i;
          st1 = em_put i (e\<lparr>em_range := (em_range e)\<lparr>il_size := 0\<rparr>\<rparr>) st;
          st2 = em_makeUndoRecord ed_pointer st1
      in st2\<lparr>fEMShminfo := (fEMShminfo st2)\<lparr>mst_currentSize := mst_currentSize (fEMShminfo st2) - sizeof_EMEntry\<rparr>\<rparr>)"

definition deleteExtent :: "nat \<Rightarrow> ExtentMap \<Rightarrow> ExtentMap option" where
  "deleteExtent i st =
     (if i < length (fExtentMap st)
      then Option.bind (fl_free (em_range (fExtentMap st ! i)) st) (\<lambda>st'. Some (em_clear_slot i st'))
      else None)"

section \<open>Deleting columns and DBRoots\<close>

text \<open>A loop over the slots that deletes the extents with a property.\<close>

fun delete_slots :: "(EMEntry \<Rightarrow> bool) \<Rightarrow> nat list \<Rightarrow> ExtentMap \<Rightarrow> ExtentMap option" where
  "delete_slots P [] st = Some st"
| "delete_slots P (i # is) st =
     Option.bind (if P (fExtentMap st ! i) then deleteExtent i st else Some st) (delete_slots P is)"

definition deleteOID :: "OID_t \<Rightarrow> ExtentMap \<Rightarrow> unit em_out" where
  "deleteOID oid st0 =
     (let st = grabFreeList (grabEMEntryTable st0); P = (\<lambda>e. il_size (em_range e) > 0 \<and> fileID e = oid)
      in Option.bind (em_slots st) (\<lambda>es.
         Option.bind (delete_slots P [0..<length es] st) (\<lambda>st'.
           Some (if \<exists>e \<in> set es. P e then Inr () else Inl invalid_argument, st'))))"

definition deleteOIDs :: "OID_t set \<Rightarrow> ExtentMap \<Rightarrow> unit em_out" where
  "deleteOIDs oids st0 =
     (let st = grabFreeList (grabEMEntryTable st0)
      in Option.bind (em_slots st) (\<lambda>es.
         Option.bind (delete_slots (\<lambda>e. il_size (em_range e) > 0 \<and> fileID e \<in> oids) [0..<length es] st) (\<lambda>st'.
           Some (Inr (), st'))))"

definition deleteDBRoot :: "int \<Rightarrow> ExtentMap \<Rightarrow> unit em_out" where
  "deleteDBRoot root st0 =
     (let st = grabFreeList (grabEMEntryTable st0)
      in Option.bind (em_slots st) (\<lambda>es.
         Option.bind (delete_slots (\<lambda>e. em_used e \<and> dbRoot e = root) [0..<length es] st) (\<lambda>st'. Some (Inr (), st'))))"

section \<open>Units of the block space\<close>

definition range_units :: "InlineLBIDRange \<Rightarrow> int multiset" where
  "range_units r = mset_set {il_start r div 1024 ..< il_start r div 1024 + il_size r}"

definition fl_live :: "InlineLBIDRange \<Rightarrow> bool" where
  "fl_live r \<longleftrightarrow> il_size r \<noteq> 0"

text \<open>The free ranges, wherever they are in the list.\<close>

definition fl_abs :: "InlineLBIDRange list \<Rightarrow> InlineLBIDRange multiset" where
  "fl_abs fl = filter_mset fl_live (mset fl)"

definition units_of :: "InlineLBIDRange multiset \<Rightarrow> int multiset" where
  "units_of m = (\<Sum>r \<in># m. range_units r)"

definition em_abs :: "EMEntry list \<Rightarrow> InlineLBIDRange multiset" where
  "em_abs es = fl_abs (map em_range es)"

definition all_units :: "int multiset" where
  "all_units = mset_set {0 ..< 2 ^ 26}"

definition il_ok :: "InlineLBIDRange \<Rightarrow> bool" where
  "il_ok r \<longleftrightarrow> 0 \<le> il_start r \<and> 1024 dvd il_start r \<and> 0 \<le> il_size r"

definition fl_consolidated :: "InlineLBIDRange multiset \<Rightarrow> bool" where
  "fl_consolidated m \<longleftrightarrow> (\<forall>r \<in># m. \<forall>s \<in># m. il_end r \<noteq> il_start s)"

text \<open>
  The invariant of the two tables: every unit belongs to exactly one extent or free range, the
  descriptors count the used slots, and no two free ranges could be joined.
\<close>

definition em_inv :: "ExtentMap \<Rightarrow> bool" where
  "em_inv st \<longleftrightarrow> em_geom st \<and>
     (\<forall>e \<in> set (fExtentMap st). il_ok (em_range e)) \<and> (\<forall>r \<in> set (fFreeList st). il_ok r) \<and>
     units_of (em_abs (fExtentMap st)) + units_of (fl_abs (fFreeList st)) = all_units \<and>
     mst_currentSize (fEMShminfo st) = sizeof_EMEntry * int (size (em_abs (fExtentMap st))) \<and>
     mst_currentSize (fFLShminfo st) = sizeof_InlineLBIDRange * int (size (fl_abs (fFreeList st))) \<and>
     fl_consolidated (fl_abs (fFreeList st))"

lemma units_of_simps [simp]:
  "units_of {#} = {#}" "units_of (add_mset r m) = range_units r + units_of m" "units_of (m + m') = units_of m + units_of m'"
  by (simp_all add: units_of_def)

lemma units_of_diff: "d \<subseteq># m \<Longrightarrow> units_of (m - d) + units_of d = units_of m"
  by (metis subset_mset.diff_add units_of_simps(3))

lemma fl_abs_update:
  "i < length fl \<Longrightarrow> fl_abs (fl[i := r]) =
     (fl_abs fl - (if fl_live (fl ! i) then {#fl ! i#} else {#})) + (if fl_live r then {#r#} else {#})"
  by (simp add: fl_abs_def mset_update filter_diff_mset)

lemma fl_abs_update_dead: "i < length fl \<Longrightarrow> \<not> fl_live (fl ! i) \<Longrightarrow> fl_live r \<Longrightarrow> fl_abs (fl[i := r]) = add_mset r (fl_abs fl)"
  by (simp add: fl_abs_update)

lemma fl_abs_mem: "r \<in># fl_abs fl \<longleftrightarrow> fl_live r \<and> (\<exists>i < length fl. fl ! i = r)"
  by (auto simp: fl_abs_def in_set_conv_nth)

lemma em_abs_update: "em_abs (es[i := e]) = fl_abs ((map em_range es)[i := em_range e])"
  by (simp add: em_abs_def map_update)

lemma em_abs_mem: "r \<in># em_abs es \<longleftrightarrow> fl_live r \<and> (\<exists>e \<in> set es. em_range e = r)"
  by (auto simp: em_abs_def fl_abs_def)

lemma range_units_mem: "u \<in># range_units r \<longleftrightarrow> il_start r div 1024 \<le> u \<and> u < il_start r div 1024 + il_size r"
  by (simp add: range_units_def)

lemma range_units_join:
  assumes "1024 dvd il_start r" "0 \<le> a" "0 \<le> b"
  shows "range_units \<lparr>il_start = il_start r, il_size = a + b\<rparr> =
    range_units \<lparr>il_start = il_start r, il_size = a\<rparr> + range_units \<lparr>il_start = il_start r + a * 1024, il_size = b\<rparr>"
proof -
  let ?s = "il_start r div 1024"
  have "(il_start r + a * 1024) div 1024 = ?s + a" by simp
  moreover have "{?s ..< ?s + (a + b)} = {?s ..< ?s + a} \<union> {?s + a ..< ?s + a + b}" using assms by auto
  ultimately show ?thesis by (simp add: range_units_def mset_set_Union add.commute [of a])
qed

text \<open>Bounds that follow from the units being units of the space.\<close>

lemma range_bounds:
  assumes "range_units r \<subseteq># all_units" "fl_live r" "il_ok r"
  shows "il_start r div 1024 + il_size r \<le> 2 ^ 26" "0 < il_size r" "il_size r \<le> 2 ^ 26"
proof -
  show pos: "0 < il_size r" using assms by (simp add: fl_live_def il_ok_def)
  then have "il_start r div 1024 + il_size r - 1 \<in># range_units r" by (simp add: range_units_mem)
  then have "il_start r div 1024 + il_size r - 1 \<in># all_units" using assms(1) by (metis mset_subset_eqD)
  then show a: "il_start r div 1024 + il_size r \<le> 2 ^ 26" by (simp add: all_units_def)
  have "0 \<le> il_start r div 1024" using assms(3) by (simp add: il_ok_def pos_imp_zdiv_nonneg_iff)
  then show "il_size r \<le> 2 ^ 26" using a by simp
qed

lemma units_of_member: "r \<in># m \<Longrightarrow> range_units r \<subseteq># units_of m"
  using multi_member_split [of r m] by auto

lemma em_inv_range:
  assumes "em_inv st" "r \<in># em_abs (fExtentMap st) \<or> r \<in># fl_abs (fFreeList st)"
  shows "il_ok r" "fl_live r" "range_units r \<subseteq># all_units"
proof -
  show "il_ok r" "fl_live r" using assms by (auto simp: em_inv_def em_abs_mem fl_abs_mem)
  have "range_units r \<subseteq># units_of (em_abs (fExtentMap st)) + units_of (fl_abs (fFreeList st))"
    using assms(2) units_of_member by (metis subset_mset.order_trans mset_subset_eq_add_left mset_subset_eq_add_right)
  then show "range_units r \<subseteq># all_units" using assms(1) by (simp add: em_inv_def)
qed

section \<open>Freeing a range\<close>

lemma fl_scan_spec:
  assumes "\<forall>x \<in> set fl. 0 \<le> il_size x" "0 < il_size r" "k \<le> length fl"
    and "fold (fl_scan_step r fl) [0..<k] (None, None, None) = (prec, succ, free)"
  shows "(case prec of None \<Rightarrow> \<forall>j < k. fl_live (fl ! j) \<longrightarrow> il_end (fl ! j) \<noteq> il_start r
      | Some p \<Rightarrow> p < k \<and> fl_live (fl ! p) \<and> il_end (fl ! p) = il_start r) \<and>
    (case succ of None \<Rightarrow> \<forall>j < k. fl_live (fl ! j) \<longrightarrow> il_end r \<noteq> il_start (fl ! j)
      | Some q \<Rightarrow> q < k \<and> fl_live (fl ! q) \<and> il_end r = il_start (fl ! q)) \<and>
    (case free of None \<Rightarrow> \<forall>j < k. fl_live (fl ! j) | Some f \<Rightarrow> f < k \<and> \<not> fl_live (fl ! f))"
  using assms(3,4)
proof (induction k arbitrary: prec succ free)
  case (Suc k)
  obtain prec0 succ0 free0 where f0: "fold (fl_scan_step r fl) [0..<k] (None, None, None) = (prec0, succ0, free0)"
    by (cases "fold (fl_scan_step r fl) [0..<k] (None, None, None)")
  from Suc.prems f0 have step: "fl_scan_step r fl k (prec0, succ0, free0) = (prec, succ, free)" by simp
  have "0 \<le> il_size (fl ! k)" using assms(1) Suc.prems(1) by simp
  then have not_both: "il_end r = il_start (fl ! k) \<Longrightarrow> il_end (fl ! k) \<noteq> il_start r" using assms(2) by (auto simp: il_end_def)
  note IH = Suc.IH [OF _ f0]
  show ?case
    using IH Suc.prems(1) step not_both
    by (auto simp: fl_scan_step_def fl_live_def less_Suc_eq split: if_splits option.splits)
qed simp

lemma fl_save_simps [simp]:
  "fFreeList (fl_save i st) = fFreeList st" "fExtentMap (fl_save i st) = fExtentMap st"
  "fEMShminfo (fl_save i st) = fEMShminfo st" "fFLShminfo (fl_save i st) = fFLShminfo st"
  by (simp_all add: fl_save_def em_makeUndoRecord_def)

lemma fl_set_simps [simp]:
  "fFreeList (fl_set i r st) = (fFreeList st)[i := r]" "fExtentMap (fl_set i r st) = fExtentMap st"
  "fEMShminfo (fl_set i r st) = fEMShminfo st" "fFLShminfo (fl_set i r st) = fFLShminfo st"
  by (simp_all add: fl_set_def)

lemma fl_enlarge_simps [simp]:
  "fFreeList (fl_enlarge i n st) = (fFreeList st)[i := (fFreeList st ! i)\<lparr>il_size := u32_of (il_size (fFreeList st ! i) + n)\<rparr>]"
  "fExtentMap (fl_enlarge i n st) = fExtentMap st"
  "fEMShminfo (fl_enlarge i n st) = fEMShminfo st" "fFLShminfo (fl_enlarge i n st) = fFLShminfo st"
  by (simp_all add: fl_enlarge_def)

text \<open>What all four cases leave alone.\<close>

definition fl_frame :: "ExtentMap \<Rightarrow> ExtentMap \<Rightarrow> bool" where
  "fl_frame st st' \<longleftrightarrow> fExtentMap st' = fExtentMap st \<and> fEMShminfo st' = fEMShminfo st"

text \<open>Moving a range to an empty slot changes the list but not the ranges.\<close>

lemma fl_migrate_ok:
  assumes p: "p < length (fFreeList st)" "fl_live (fFreeList st ! p)"
    and free: "case free of None \<Rightarrow> True | Some f \<Rightarrow> f < length (fFreeList st) \<and> \<not> fl_live (fFreeList st ! f)"
    and ok: "\<forall>r \<in> set (fFreeList st). il_ok r"
    and m: "fl_migrate free p (fl_save p st) = (p', st')"
  shows "p' < length (fFreeList st')" "fFreeList st' ! p' = fFreeList st ! p" "fl_abs (fFreeList st') = fl_abs (fFreeList st)"
    "length (fFreeList st') = length (fFreeList st)" "fl_frame st st'" "fFLShminfo st' = fFLShminfo st"
    "\<forall>r \<in> set (fFreeList st'). il_ok r"
    "\<And>s. s < length (fFreeList st) \<Longrightarrow> s \<noteq> p \<Longrightarrow> fl_live (fFreeList st ! s) \<Longrightarrow> s \<noteq> p' \<and> fFreeList st' ! s = fFreeList st ! s"
proof -
  let ?fl = "fFreeList st"
  have "p' < length (fFreeList st') \<and> fFreeList st' ! p' = ?fl ! p \<and> fl_abs (fFreeList st') = fl_abs ?fl \<and>
    length (fFreeList st') = length ?fl \<and> fl_frame st st' \<and> fFLShminfo st' = fFLShminfo st \<and> (\<forall>r \<in> set (fFreeList st'). il_ok r) \<and>
    (\<forall>s < length ?fl. s \<noteq> p \<longrightarrow> fl_live (?fl ! s) \<longrightarrow> s \<noteq> p' \<and> fFreeList st' ! s = ?fl ! s)"
  proof (cases "\<exists>f. free = Some f \<and> f < p")
    case True
    then obtain f where f: "free = Some f" "f < p" by blast
    let ?fl1 = "?fl[f := ?fl ! p]"
    let ?fl2 = "?fl1[p := (?fl ! p)\<lparr>il_size := 0\<rparr>]"
    have fl': "fFreeList st' = ?fl2" "p' = f" "fl_frame st st'" "fFLShminfo st' = fFLShminfo st"
      using m f by (auto simp: fl_migrate_def Let_def fl_frame_def)
    have dead: "f < length ?fl" "\<not> fl_live (?fl ! f)" using free f by auto
    have "fl_abs ?fl1 = add_mset (?fl ! p) (fl_abs ?fl)" using dead p by (simp add: fl_abs_update)
    moreover have "?fl1 ! p = ?fl ! p" "p < length ?fl1" using f p by auto
    ultimately have "fl_abs ?fl2 = fl_abs ?fl" using p by (simp add: fl_abs_update fl_live_def)
    moreover have "\<forall>r \<in> set ?fl2. il_ok r" using ok p by (auto simp: il_ok_def dest!: set_update_subset_insert [THEN subsetD])
    ultimately show ?thesis using fl' f dead p by (auto simp: nth_list_update)
  next
    case False
    then have "st' = fl_save p st" "p' = p" using m by (auto simp: fl_migrate_def split: option.splits if_splits)
    then show ?thesis using p ok by (simp add: fl_frame_def)
  qed
  then show "p' < length (fFreeList st')" "fFreeList st' ! p' = fFreeList st ! p" "fl_abs (fFreeList st') = fl_abs (fFreeList st)"
    "length (fFreeList st') = length (fFreeList st)" "fl_frame st st'" "fFLShminfo st' = fFLShminfo st"
    "\<forall>r \<in> set (fFreeList st'). il_ok r"
    "\<And>s. s < length (fFreeList st) \<Longrightarrow> s \<noteq> p \<Longrightarrow> fl_live (fFreeList st ! s) \<Longrightarrow> s \<noteq> p' \<and> fFreeList st' ! s = fFreeList st ! s"
    by auto
qed

text \<open>The state of the free list after a range has been returned to it.\<close>

definition fl_freed :: "InlineLBIDRange \<Rightarrow> ExtentMap \<Rightarrow> ExtentMap \<Rightarrow> bool" where
  "fl_freed r st st' \<longleftrightarrow> fl_frame st st' \<and> em_geom st' \<and> (\<forall>x \<in> set (fFreeList st'). il_ok x) \<and>
     fl_consolidated (fl_abs (fFreeList st')) \<and>
     mst_currentSize (fFLShminfo st') = sizeof_InlineLBIDRange * int (size (fl_abs (fFreeList st'))) \<and>
     units_of (fl_abs (fFreeList st')) = units_of (fl_abs (fFreeList st)) + range_units r"

text \<open>What holds before.\<close>

definition fl_ready :: "InlineLBIDRange \<Rightarrow> ExtentMap \<Rightarrow> bool" where
  "fl_ready r st \<longleftrightarrow> em_geom st \<and> (\<forall>x \<in> set (fFreeList st). il_ok x) \<and> fl_consolidated (fl_abs (fFreeList st)) \<and>
     mst_currentSize (fFLShminfo st) = sizeof_InlineLBIDRange * int (size (fl_abs (fFreeList st))) \<and>
     il_ok r \<and> fl_live r \<and> units_of (fl_abs (fFreeList st)) + range_units r \<subseteq># all_units"

lemma fl_ready_bounds:
  assumes "fl_ready r st"
  shows "il_start r div 1024 + il_size r \<le> 2 ^ 26" "0 < il_size r"
    and "i < length (fFreeList st) \<Longrightarrow> fl_live (fFreeList st ! i) \<Longrightarrow>
      il_ok (fFreeList st ! i) \<and> 0 < il_size (fFreeList st ! i) \<and> il_start (fFreeList st ! i) div 1024 + il_size (fFreeList st ! i) \<le> 2 ^ 26"
proof -
  have sub: "units_of (fl_abs (fFreeList st)) + range_units r \<subseteq># all_units" using assms by (simp add: fl_ready_def)
  then have r: "range_units r \<subseteq># all_units" by (metis mset_subset_eq_add_right subset_mset.order_trans)
  show "il_start r div 1024 + il_size r \<le> 2 ^ 26" "0 < il_size r"
    using range_bounds [OF r] assms by (auto simp: fl_ready_def)
  assume i: "i < length (fFreeList st)" "fl_live (fFreeList st ! i)"
  then have "range_units (fFreeList st ! i) \<subseteq># units_of (fl_abs (fFreeList st))" by (intro units_of_member) (auto simp: fl_abs_mem)
  then have x: "range_units (fFreeList st ! i) \<subseteq># all_units" using sub by (metis mset_subset_eq_add_left subset_mset.order_trans)
  have "il_ok (fFreeList st ! i)" using assms i by (simp add: fl_ready_def)
  then show "il_ok (fFreeList st ! i) \<and> 0 < il_size (fFreeList st ! i) \<and> il_start (fFreeList st ! i) div 1024 + il_size (fFreeList st ! i) \<le> 2 ^ 26"
    using range_bounds [OF x i(2)] by simp
qed

lemma il_end_div: "1024 dvd il_start r \<Longrightarrow> il_end r div 1024 = il_start r div 1024 + il_size r"
  by (auto simp: il_end_def elim: dvdE)

lemma set_update_ok: "\<forall>x \<in> set xs. P x \<Longrightarrow> P y \<Longrightarrow> \<forall>x \<in> set (xs[i := y]). P x"
  by (auto dest: set_update_subset_insert [THEN subsetD])

text \<open>
  All four cases replace the free ranges \<open>d\<close> next to the freed range by one that spans them and it.
\<close>

lemma fl_freedI:
  assumes rd: "fl_ready r st" and d: "d \<subseteq># fl_abs (fFreeList st)" and R: "fl_live R" "il_ok R" "range_units R = units_of d + range_units r"
    and left: "\<And>x. x \<in># fl_abs (fFreeList st) - d \<Longrightarrow> il_end x \<noteq> il_start R"
    and right: "\<And>x. x \<in># fl_abs (fFreeList st) - d \<Longrightarrow> il_end R \<noteq> il_start x"
    and st': "fl_abs (fFreeList st') = add_mset R (fl_abs (fFreeList st) - d)" "\<forall>x \<in> set (fFreeList st'). il_ok x"
      "fl_frame st st'" "em_geom st'"
      "mst_currentSize (fFLShminfo st') = mst_currentSize (fFLShminfo st) + sizeof_InlineLBIDRange * (1 - int (size d))"
  shows "fl_freed r st st'"
proof -
  let ?m = "fl_abs (fFreeList st)"
  have m: "fl_consolidated ?m" "mst_currentSize (fFLShminfo st) = sizeof_InlineLBIDRange * int (size ?m)" using rd by (auto simp: fl_ready_def)
  have "units_of (add_mset R (?m - d)) = units_of ?m + range_units r" using units_of_diff [OF d] R(3) by (simp add: ac_simps)
  moreover have "il_end R \<noteq> il_start R" using R by (simp add: il_end_def fl_live_def)
  then have "fl_consolidated (add_mset R (?m - d))"
    using m(1) left right in_diffD [of _ ?m d] unfolding fl_consolidated_def by (simp add: Ball_def)
  moreover have "int (size (?m - d)) = int (size ?m) - int (size d)" using d size_mset_mono [OF d] by (simp add: size_Diff_submset of_nat_diff)
  ultimately show ?thesis using st' m(2) by (simp add: fl_freed_def em_size_defs algebra_simps)
qed

definition free_slot_ok :: "nat option \<Rightarrow> ExtentMap \<Rightarrow> bool" where
  "free_slot_ok free st \<longleftrightarrow> (case free of None \<Rightarrow> True | Some f \<Rightarrow> f < length (fFreeList st) \<and> \<not> fl_live (fFreeList st ! f))"

lemma fl_not_linked:
  "fl_ready r st \<Longrightarrow> x \<in># fl_abs (fFreeList st) - d \<Longrightarrow> y \<in># fl_abs (fFreeList st) \<Longrightarrow> il_end x \<noteq> il_start y \<and> il_end y \<noteq> il_start x"
  using in_diffD [of x "fl_abs (fFreeList st)" d] by (auto simp: fl_ready_def fl_consolidated_def)

definition no_succ :: "InlineLBIDRange \<Rightarrow> ExtentMap \<Rightarrow> bool" where
  "no_succ r st \<longleftrightarrow> (\<forall>j < length (fFreeList st). fl_live (fFreeList st ! j) \<longrightarrow> il_end r \<noteq> il_start (fFreeList st ! j))"

definition no_pred :: "InlineLBIDRange \<Rightarrow> ExtentMap \<Rightarrow> bool" where
  "no_pred r st \<longleftrightarrow> (\<forall>j < length (fFreeList st). fl_live (fFreeList st ! j) \<longrightarrow> il_end (fFreeList st ! j) \<noteq> il_start r)"

lemma no_succ_diff: "no_succ r st \<Longrightarrow> x \<in># fl_abs (fFreeList st) - d \<Longrightarrow> il_end r \<noteq> il_start x"
  using in_diffD [of x "fl_abs (fFreeList st)" d] by (auto simp: no_succ_def fl_abs_mem)

lemma no_pred_diff: "no_pred r st \<Longrightarrow> x \<in># fl_abs (fFreeList st) - d \<Longrightarrow> il_end x \<noteq> il_start r"
  using in_diffD [of x "fl_abs (fFreeList st)" d] by (auto simp: no_pred_def fl_abs_mem)

text \<open>A range that continues another one, after alignment.\<close>

lemma range_join:
  assumes "il_ok r" "fl_live r" "il_ok s" "fl_live s" "il_end r = il_start s" "il_start s div 1024 + il_size s \<le> 2 ^ 26"
    and R: "il_start R = il_start r" "il_size R = u32_of (il_size r + il_size s)"
  shows "il_size R = il_size r + il_size s" "fl_live R" "il_ok R" "il_end R = il_end s" "range_units R = range_units r + range_units s"
    "il_start R div 1024 + il_size R = il_start s div 1024 + il_size s"
proof -
  have dv: "1024 dvd il_start r" using assms(1) by (simp add: il_ok_def)
  have e: "il_start s div 1024 = il_start r div 1024 + il_size r" using il_end_div [OF dv] assms(5) by simp
  moreover have "0 \<le> il_start r div 1024" using assms(1) by (simp add: il_ok_def pos_imp_zdiv_nonneg_iff)
  ultimately have "il_size r + il_size s \<le> 2 ^ 26" using assms(6) by linarith
  then show sz: "il_size R = il_size r + il_size s" using assms(1,3) unfolding R(2) by (intro u32_id) (auto simp: il_ok_def)
  show "fl_live R" "il_ok R" using sz R(1) assms(1-4) by (auto simp: fl_live_def il_ok_def)
  show "il_end R = il_end s" using sz R(1) assms(5) by (auto simp: il_end_def algebra_simps)
  have "{il_start r div 1024..<il_start r div 1024 + (il_size r + il_size s)} =
      {il_start r div 1024..<il_start r div 1024 + il_size r} \<union> {il_start r div 1024 + il_size r..<il_start r div 1024 + il_size r + il_size s}"
    using assms(1,3) by (auto simp: il_ok_def)
  then show "range_units R = range_units r + range_units s" using sz R(1) e by (simp add: range_units_def mset_set_Union)
  show "il_start R div 1024 + il_size R = il_start s div 1024 + il_size s" using e sz R(1) by simp
qed

lemma fl_ready_D:
  assumes "fl_ready r st"
  shows "em_geom st" "\<forall>x \<in> set (fFreeList st). il_ok x" "il_ok r" "fl_live r"
  using assms by (auto simp: fl_ready_def)

lemma geom_same_length:
  "em_geom st \<Longrightarrow> fl_frame st st' \<Longrightarrow> length (fFreeList st') = length (fFreeList st) \<Longrightarrow>
   allocdSize (fFLShminfo st') = allocdSize (fFLShminfo st) \<Longrightarrow> em_geom st'"
  unfolding em_geom_def fl_frame_def by (metis length_0_conv)

lemma free_after_ok:
  assumes rd: "fl_ready r st" and p: "p < length (fFreeList st)" "fl_live (fFreeList st ! p)" "il_end (fFreeList st ! p) = il_start r"
    and none: "no_succ r st" and free: "free_slot_ok free st"
  shows "fl_freed r st (free_after r p free st)"
proof -
  let ?fl = "fFreeList st" and ?P = "fFreeList st ! p" and ?st' = "free_after r p free st"
  obtain p' st1 where m: "fl_migrate free p (fl_save p st) = (p', st1)" by (cases "fl_migrate free p (fl_save p st)")
  note b = fl_ready_bounds [OF rd] and bp = fl_ready_bounds(3) [OF rd p(1,2)] and ready = fl_ready_D [OF rd]
  note mg = fl_migrate_ok [OF p(1,2) free [unfolded free_slot_ok_def] ready(2) m]
  define R where "R = ?P\<lparr>il_size := u32_of (il_size ?P + il_size r)\<rparr>"
  have st': "?st' = fl_enlarge p' (il_size r) st1" by (simp add: free_after_def m)
  have R0: "il_start R = il_start ?P" "il_size R = u32_of (il_size ?P + il_size r)" by (simp_all add: R_def)
  note R = range_join [OF conjunct1 [OF bp] p(2) ready(3,4) p(3) b(1) R0]
  have mem: "?P \<in># fl_abs ?fl" using p by (auto simp: fl_abs_mem)
  show ?thesis
  proof (rule fl_freedI [OF rd _ R(2,3)])
    show "{#?P#} \<subseteq># fl_abs ?fl" "range_units R = units_of {#?P#} + range_units r" using mem R by simp_all
    show "il_end x \<noteq> il_start R" if "x \<in># fl_abs ?fl - {#?P#}" for x using fl_not_linked [OF rd that mem] R0 by simp
    show "il_end R \<noteq> il_start x" if "x \<in># fl_abs ?fl - {#?P#}" for x using no_succ_diff [OF none that] R(4) by simp
    show "fl_abs (fFreeList ?st') = add_mset R (fl_abs ?fl - {#?P#})"
      using mg(1,2,3) p(2) R(2) by (simp add: st' fl_abs_update R_def)
    show "\<forall>x \<in> set (fFreeList ?st'). il_ok x" using set_update_ok [OF mg(7) R(3)] mg(2) by (simp add: st' R_def)
    show "fl_frame st ?st'" using mg(5) by (simp add: st' fl_frame_def)
    then show "em_geom ?st'" using mg(4,6) by (intro geom_same_length [OF ready(1)]) (simp_all add: st')
  qed (simp add: st' mg(6))
qed

lemma free_before_ok:
  assumes rd: "fl_ready r st" and s: "s < length (fFreeList st)" "fl_live (fFreeList st ! s)" "il_end r = il_start (fFreeList st ! s)"
    and none: "no_pred r st" and free: "free_slot_ok free st"
  shows "fl_freed r st (free_before r s free st)"
proof -
  let ?fl = "fFreeList st" and ?S = "fFreeList st ! s" and ?st' = "free_before r s free st"
  obtain s' st1 where m: "fl_migrate free s (fl_save s st) = (s', st1)" by (cases "fl_migrate free s (fl_save s st)")
  note b = fl_ready_bounds [OF rd] and bs = fl_ready_bounds(3) [OF rd s(1,2)] and ready = fl_ready_D [OF rd]
  note mg = fl_migrate_ok [OF s(1,2) free [unfolded free_slot_ok_def] ready(2) m]
  define R where "R = ?S\<lparr>il_start := il_start r, il_size := u32_of (il_size r + il_size ?S)\<rparr>"
  have R0: "il_start R = il_start r" "il_size R = u32_of (il_size r + il_size ?S)" by (simp_all add: R_def)
  have fl': "fFreeList ?st' = (fFreeList st1)[s' := R]" "fl_frame st1 ?st'" "fFLShminfo ?st' = fFLShminfo st1"
    using mg(1,2) by (simp_all add: free_before_def m Let_def R_def fl_frame_def add.commute)
  note R = range_join [OF ready(3,4) conjunct1 [OF bs] s(2,3) conjunct2 [OF conjunct2 [OF bs]] R0]
  have mem: "?S \<in># fl_abs ?fl" using s by (auto simp: fl_abs_mem)
  show ?thesis
  proof (rule fl_freedI [OF rd _ R(2,3)])
    show "{#?S#} \<subseteq># fl_abs ?fl" "range_units R = units_of {#?S#} + range_units r" using mem R by simp_all
    show "il_end x \<noteq> il_start R" if "x \<in># fl_abs ?fl - {#?S#}" for x using no_pred_diff [OF none that] R0 by simp
    show "il_end R \<noteq> il_start x" if "x \<in># fl_abs ?fl - {#?S#}" for x using fl_not_linked [OF rd that mem] R(4) by simp
    show "fl_abs (fFreeList ?st') = add_mset R (fl_abs ?fl - {#?S#})" using mg(1,2,3) s(2) R(2) by (simp add: fl' fl_abs_update)
    show "\<forall>x \<in> set (fFreeList ?st'). il_ok x" using set_update_ok [OF mg(7) R(3)] by (simp add: fl')
    show "fl_frame st ?st'" using mg(5) fl'(2) by (simp add: fl_frame_def)
    then show "em_geom ?st'" using mg(4,6) by (intro geom_same_length [OF ready(1)]) (simp_all add: fl')
  qed (simp add: fl' mg(6))
qed

lemma free_between_ok:
  assumes rd: "fl_ready r st" and p: "p < length (fFreeList st)" "fl_live (fFreeList st ! p)" "il_end (fFreeList st ! p) = il_start r"
    and s: "s < length (fFreeList st)" "fl_live (fFreeList st ! s)" "il_end r = il_start (fFreeList st ! s)"
    and free: "free_slot_ok free st"
  shows "fl_freed r st (free_between r p s free st)"
proof -
  let ?fl = "fFreeList st" and ?P = "fFreeList st ! p" and ?S = "fFreeList st ! s" and ?st' = "free_between r p s free st"
  obtain p' st1 where m: "fl_migrate free p (fl_save p st) = (p', st1)" by (cases "fl_migrate free p (fl_save p st)")
  note bp = fl_ready_bounds(3) [OF rd p(1,2)] and bs = fl_ready_bounds(3) [OF rd s(1,2)] and ready = fl_ready_D [OF rd]
  note mg = fl_migrate_ok [OF p(1,2) free [unfolded free_slot_ok_def] ready(2) m]
  have ne: "?P \<noteq> ?S" using p(3) s(3) bp fl_ready_bounds(2) [OF rd] by (auto simp: il_end_def)
  then have ps: "s \<noteq> p" by auto
  note s1 = mg(8) [OF s(1) ps s(2)]
  define Q where "Q = \<lparr>il_start = il_start r, il_size = u32_of (il_size r + il_size ?S)\<rparr>"
  define R where "R = ?P\<lparr>il_size := u32_of (il_size ?S + il_size r + il_size ?P)\<rparr>"
  have Q0: "il_start Q = il_start r" "il_size Q = u32_of (il_size r + il_size ?S)" by (simp_all add: Q_def)
  note Q = range_join [OF ready(3,4) conjunct1 [OF bs] s(2,3) conjunct2 [OF conjunct2 [OF bs]] Q0]
  have R0: "il_start R = il_start ?P" "il_size R = u32_of (il_size ?P + il_size Q)" by (simp_all add: R_def Q(1) ac_simps)
  have "il_end ?P = il_start Q" "il_start Q div 1024 + il_size Q \<le> 2 ^ 26" using p(3) Q(6) bs Q0 by simp_all
  note R = range_join [OF conjunct1 [OF bp] p(2) Q(3,2) this R0]
  have fl': "fFreeList ?st' = (fFreeList st1)[p' := R, s := ?S\<lparr>il_size := 0\<rparr>]" "fl_frame st1 ?st'"
    "fFLShminfo ?st' = (fFLShminfo st1)\<lparr>mst_currentSize := mst_currentSize (fFLShminfo st1) - sizeof_InlineLBIDRange\<rparr>"
    using mg(1,2) s1 by (simp_all add: free_between_def m Let_def R_def fl_frame_def ac_simps)
  have mem: "?P \<in># fl_abs ?fl" "?S \<in># fl_abs ?fl" using p s by (auto simp: fl_abs_mem)
  then obtain M where M: "fl_abs ?fl = add_mset ?P (add_mset ?S M)" using ne by (metis insert_noteq_member multi_member_split)
  have "fl_abs ((fFreeList st1)[p' := R]) = add_mset R (add_mset ?S M)" using mg(1,2,3) p(2) R(2) M by (simp add: fl_abs_update)
  moreover have "(fFreeList st1)[p' := R] ! s = ?S" using s1 by simp
  ultimately have abs: "fl_abs (fFreeList ?st') = add_mset R M"
    using s(1,2) mg(4) by (simp add: fl' fl_abs_update fl_live_def)
  show ?thesis
  proof (rule fl_freedI [OF rd _ R(2,3)])
    show "{#?P, ?S#} \<subseteq># fl_abs ?fl" "range_units R = units_of {#?P, ?S#} + range_units r" using M R Q by (simp_all add: ac_simps)
    show "il_end x \<noteq> il_start R" if "x \<in># fl_abs ?fl - {#?P, ?S#}" for x using fl_not_linked [OF rd that mem(1)] R0 by simp
    show "il_end R \<noteq> il_start x" if "x \<in># fl_abs ?fl - {#?P, ?S#}" for x using fl_not_linked [OF rd that mem(2)] R(4) Q(4) by simp
    show "fl_abs (fFreeList ?st') = add_mset R (fl_abs ?fl - {#?P, ?S#})" using abs M by simp
    have "il_ok (?S\<lparr>il_size := 0\<rparr>)" using bs by (simp add: il_ok_def)
    then show "\<forall>x \<in> set (fFreeList ?st'). il_ok x" unfolding fl' by (intro set_update_ok mg(7) R(3))
    show "fl_frame st ?st'" using mg(5) fl'(2) by (simp add: fl_frame_def)
    then show "em_geom ?st'" using mg(4,6) by (intro geom_same_length [OF ready(1)]) (simp_all add: fl')
  qed (simp add: fl' mg(6))
qed

lemma size_fl_abs: "size (fl_abs fl) = length (filter fl_live fl)"
  by (simp add: fl_abs_def flip: mset_filter)

lemma fl_abs_append: "fl_abs (xs @ ys) = fl_abs xs + fl_abs ys"
  by (simp add: fl_abs_def)

lemma fl_abs_zero: "fl_abs (replicate n zero_range) = {#}"
  by (simp add: fl_abs_def fl_live_def zero_range_def)

lemma free_alone_ok:
  assumes rd: "fl_ready r st" and none: "no_pred r st" "no_succ r st" and free: "free_slot_ok free st"
    and found: "free = None \<Longrightarrow> \<forall>x \<in> set (fFreeList st). fl_live x"
  shows "\<exists>st'. free_alone r (length (fFreeList st)) free st = Some st' \<and> fl_freed r st st'"
proof -
  let ?fl = "fFreeList st" and ?R = "\<lparr>il_start = il_start r, il_size = il_size r\<rparr>"
  note ready = fl_ready_D [OF rd]
  let ?full = "mst_currentSize (fFLShminfo st) = allocdSize (fFLShminfo st)"
  define st1 where "st1 = (if ?full then growFLShmseg st else st)"
  define f where "f = (if ?full then length ?fl else the free)"
  have szs: "mst_currentSize (fFLShminfo st) = sizeof_InlineLBIDRange * int (size (fl_abs ?fl))" "allocdSize (fFLShminfo st) = sizeof_InlineLBIDRange * int (length ?fl)"
    using rd by (auto simp: fl_ready_def em_geom_def)
  have nf: "\<not> ?full \<Longrightarrow> free \<noteq> None" using found szs by (cases free) (simp_all add: size_fl_abs em_size_defs)
  have "em_geom st1 \<and> fl_frame st st1 \<and> fl_abs (fFreeList st1) = fl_abs ?fl \<and> (\<forall>x \<in> set (fFreeList st1). il_ok x) \<and>
      mst_currentSize (fFLShminfo st1) = mst_currentSize (fFLShminfo st) \<and> f < length (fFreeList st1) \<and> \<not> fl_live (fFreeList st1 ! f)"
  proof (cases ?full)
    case True
    then show ?thesis using ready(1,2)
      by (auto simp: st1_def f_def growFLShmseg_def Let_def em_geom_def fl_frame_def fl_abs_append fl_abs_zero [unfolded zero_range_def] em_size_defs il_ok_def
          fl_live_def zero_range_def nth_append)
  next
    case False
    then show ?thesis using ready(1,2) nf free by (auto simp: st1_def f_def fl_frame_def free_slot_ok_def)
  qed
  then have g: "em_geom st1" "fl_frame st st1" "fl_abs (fFreeList st1) = fl_abs ?fl" "\<forall>x \<in> set (fFreeList st1). il_ok x"
      "mst_currentSize (fFLShminfo st1) = mst_currentSize (fFLShminfo st)" "f < length (fFreeList st1)" "\<not> fl_live (fFreeList st1 ! f)" by auto
  define st' where "st' = (em_makeUndoRecord ed_pointer (fl_put f ?R st1))\<lparr>fFLShminfo :=
    (fFLShminfo st1)\<lparr>mst_currentSize := mst_currentSize (fFLShminfo st1) + sizeof_InlineLBIDRange\<rparr>\<rparr>"
  have "free_alone r (length ?fl) free st = Some st'"
    using nf by (auto simp: free_alone_def Let_def st'_def st1_def f_def em_makeUndoRecord_def)
  moreover have "fl_freed r st st'"
  proof (rule fl_freedI [OF rd, where d = "{#}" and R = ?R])
    show "fl_live ?R" "il_ok ?R" "range_units ?R = units_of {#} + range_units r" using ready by (simp_all add: fl_live_def il_ok_def range_units_def)
    show "il_end x \<noteq> il_start ?R" if "x \<in># fl_abs ?fl - {#}" for x using no_pred_diff [OF none(1) that] by simp
    show "il_end ?R \<noteq> il_start x" if "x \<in># fl_abs ?fl - {#}" for x using no_succ_diff [OF none(2) that] by (simp add: il_end_def)
    show "fl_abs (fFreeList st') = add_mset ?R (fl_abs ?fl - {#})"
      using g(3,6,7) ready(4) by (simp add: st'_def em_makeUndoRecord_def fl_abs_update) (simp add: fl_live_def)
    have "il_ok ?R" using ready by (simp add: il_ok_def)
    then show "\<forall>x \<in> set (fFreeList st'). il_ok x" using set_update_ok [OF g(4)] by (simp add: st'_def em_makeUndoRecord_def)
    show "fl_frame st st'" "em_geom st'" using g(1,2) by (simp_all add: st'_def em_makeUndoRecord_def fl_frame_def em_geom_def)
  qed (simp_all add: st'_def g(5))
  ultimately show ?thesis by blast
qed

text \<open>Freeing a range that is neither free nor in another extent always succeeds.\<close>

lemma fl_free_ok:
  assumes rd: "fl_ready r st"
  shows "\<exists>st'. fl_free r st = Some st' \<and> fl_freed r st st'"
proof -
  let ?fl = "fFreeList st"
  obtain prec succ free where sc: "fl_scan r ?fl = (prec, succ, free)" by (cases "fl_scan r ?fl") auto
  note ready = fl_ready_D [OF rd]
  have "\<forall>x \<in> set ?fl. 0 \<le> il_size x" "0 < il_size r" using ready fl_ready_bounds(2) [OF rd] by (auto simp: il_ok_def)
  note spec = fl_scan_spec [OF this le_refl sc [unfolded fl_scan_def]]
  have free: "free_slot_ok free st" and found: "free = None \<Longrightarrow> \<forall>x \<in> set ?fl. fl_live x"
    using spec by (auto simp: free_slot_ok_def all_set_conv_all_nth split: option.splits)
  show ?thesis
  proof (cases prec; cases succ)
    fix p s assume "prec = Some p" "succ = Some s"
    then show ?thesis using spec free_between_ok [OF rd _ _ _ _ _ _ free, of p s] ready(1) sc by (simp add: fl_free_def)
  next
    fix p assume "prec = Some p" "succ = None"
    then show ?thesis using spec free_after_ok [OF rd _ _ _ _ free, of p] ready(1) sc by (simp add: fl_free_def no_succ_def)
  next
    fix s assume "prec = None" "succ = Some s"
    then show ?thesis using spec free_before_ok [OF rd _ _ _ _ free, of s] ready(1) sc by (simp add: fl_free_def no_pred_def)
  next
    assume "prec = None" "succ = None"
    then show ?thesis using spec free_alone_ok [OF rd _ _ free found] ready(1) sc by (simp add: fl_free_def no_succ_def no_pred_def)
  qed
qed

section \<open>Deleting an extent\<close>

definition cleared :: "EMEntry \<Rightarrow> EMEntry" where
  "cleared e = e\<lparr>em_range := (em_range e)\<lparr>il_size := 0\<rparr>\<rparr>"

lemma cleared_dead [simp]: "\<not> em_used (cleared e)" "\<not> fl_live (em_range (cleared e))"
  by (simp_all add: cleared_def em_used_def fl_live_def)

lemma em_used_live: "em_used e \<longleftrightarrow> fl_live (em_range e)"
  by (simp add: em_used_def fl_live_def)

lemma em_clear_slot_simps:
  "fExtentMap (em_clear_slot i st) = (fExtentMap st)[i := cleared (fExtentMap st ! i)]" "fFreeList (em_clear_slot i st) = fFreeList st"
  "fEMShminfo (em_clear_slot i st) = (fEMShminfo st)\<lparr>mst_currentSize := mst_currentSize (fEMShminfo st) - sizeof_EMEntry\<rparr>"
  "fFLShminfo (em_clear_slot i st) = fFLShminfo st"
  by (simp_all add: em_clear_slot_def Let_def em_makeUndoRecord_def cleared_def)

lemma em_inv_fl_ready:
  assumes "em_inv st" "e \<in> set (fExtentMap st)" "em_used e"
  shows "fl_ready (em_range e) st"
proof -
  have "em_range e \<in># em_abs (fExtentMap st)" using assms(2,3) by (auto simp: em_abs_mem em_used_live)
  then have "units_of (fl_abs (fFreeList st)) + range_units (em_range e) \<subseteq># units_of (em_abs (fExtentMap st)) + units_of (fl_abs (fFreeList st))"
    using units_of_member by (simp add: add.commute)
  also have "\<dots> = all_units" using assms(1) by (simp add: em_inv_def)
  finally show ?thesis using assms by (auto simp: fl_ready_def em_inv_def em_used_live)
qed

lemma em_abs_clear:
  assumes "i < length es" "em_used (es ! i)"
  shows "em_abs es = add_mset (em_range (es ! i)) (em_abs (es[i := cleared (es ! i)]))"
proof -
  have "em_range (es ! i) \<in># fl_abs (map em_range es)" using assms by (auto simp: fl_abs_def em_used_live)
  then show ?thesis using assms by (simp add: em_abs_def map_update fl_abs_update em_used_live)
qed

lemma deleteExtent_ok:
  assumes inv: "em_inv st" and i: "i < length (fExtentMap st)" "em_used (fExtentMap st ! i)"
  shows "\<exists>st'. deleteExtent i st = Some st' \<and> em_inv st' \<and> fExtentMap st' = (fExtentMap st)[i := cleared (fExtentMap st ! i)]"
proof -
  let ?e = "fExtentMap st ! i"
  have rd: "fl_ready (em_range ?e) st" using em_inv_fl_ready [OF inv] i by simp
  then obtain st1 where f: "fl_free (em_range ?e) st = Some st1" "fl_freed (em_range ?e) st st1" using fl_free_ok by blast
  have em1: "fExtentMap st1 = fExtentMap st" "fEMShminfo st1 = fEMShminfo st" using f(2) by (auto simp: fl_freed_def fl_frame_def)
  have "il_ok (em_range (cleared ?e))" using inv i by (auto simp: em_inv_def cleared_def il_ok_def)
  then have "\<forall>e \<in> set ((fExtentMap st)[i := cleared ?e]). il_ok (em_range e)" using inv by (intro set_update_ok) (auto simp: em_inv_def)
  moreover note em_abs_clear [OF i]
  ultimately have "em_inv (em_clear_slot i st1)"
    using inv f(2) by (simp add: em_inv_def em_clear_slot_simps em1 fl_freed_def em_geom_def algebra_simps em_size_defs)
  then show ?thesis using f(1) i by (simp add: deleteExtent_def em_clear_slot_simps em1)
qed

lemma delete_slots_ok:
  assumes "em_inv st" "distinct is" "set is \<subseteq> {..<length (fExtentMap st)}" "\<And>e. P e \<Longrightarrow> em_used e"
  shows "\<exists>st'. delete_slots P is st = Some st' \<and> em_inv st' \<and> length (fExtentMap st') = length (fExtentMap st) \<and>
    (\<forall>j < length (fExtentMap st). fExtentMap st' ! j =
       (if j \<in> set is \<and> P (fExtentMap st ! j) then cleared (fExtentMap st ! j) else fExtentMap st ! j))"
  using assms(1-3)
proof (induction "is" arbitrary: st)
  case (Cons i "is")
  let ?e = "fExtentMap st ! i"
  have "\<exists>st1. (if P ?e then deleteExtent i st else Some st) = Some st1 \<and> em_inv st1 \<and>
      fExtentMap st1 = (if P ?e then (fExtentMap st)[i := cleared ?e] else fExtentMap st)"
    using deleteExtent_ok [OF Cons.prems(1), of i] assms(4) [of ?e] Cons.prems(1,3) by auto
  then obtain st1 where st1: "(if P ?e then deleteExtent i st else Some st) = Some st1" "em_inv st1"
      "fExtentMap st1 = (if P ?e then (fExtentMap st)[i := cleared ?e] else fExtentMap st)" by blast
  have "distinct is" "set is \<subseteq> {..<length (fExtentMap st1)}" using Cons.prems st1(3) by auto
  from Cons.IH [OF st1(2) this] show ?case using st1(1,3) Cons.prems(2,3) by (auto simp: nth_list_update)
qed simp

definition delete_where :: "(EMEntry \<Rightarrow> bool) \<Rightarrow> EMEntry list \<Rightarrow> EMEntry list" where
  "delete_where P es = map (\<lambda>e. if P e then cleared e else e) es"

lemma em_abs_delete_where:
  "(\<And>e. P e \<Longrightarrow> em_used e) \<Longrightarrow> em_abs es = em_abs (delete_where P es) + mset (map em_range (filter P es))"
  by (induction es) (auto simp: delete_where_def em_abs_def fl_abs_def em_used_live)

lemma delete_all_ok:
  assumes inv: "em_inv st" and P: "\<And>e. P e \<Longrightarrow> em_used e"
  shows "\<exists>st'. delete_slots P [0..<length (fExtentMap st)] st = Some st' \<and> em_inv st' \<and> fExtentMap st' = delete_where P (fExtentMap st) \<and>
    units_of (fl_abs (fFreeList st')) = units_of (fl_abs (fFreeList st)) + units_of (mset (map em_range (filter P (fExtentMap st))))"
proof -
  let ?es = "fExtentMap st"
  have "set [0..<length ?es] \<subseteq> {..<length ?es}" by auto
  from delete_slots_ok [of st "[0..<length ?es]" P, OF inv distinct_upt this P]
  obtain st' where st': "delete_slots P [0..<length ?es] st = Some st'" "em_inv st'" "length (fExtentMap st') = length ?es"
      "\<forall>j < length ?es. fExtentMap st' ! j = (if j \<in> set [0..<length ?es] \<and> P (?es ! j) then cleared (?es ! j) else ?es ! j)"
    by blast
  have es': "fExtentMap st' = delete_where P ?es" using st'(3,4) by (intro nth_equalityI) (simp_all add: delete_where_def)
  have "units_of (em_abs ?es) + units_of (fl_abs (fFreeList st)) = units_of (em_abs (delete_where P ?es)) + units_of (fl_abs (fFreeList st'))"
    using inv st'(2) by (simp add: em_inv_def es')
  moreover have "units_of (em_abs ?es) = units_of (em_abs (delete_where P ?es)) + units_of (mset (map em_range (filter P ?es)))"
    by (subst em_abs_delete_where [of P ?es, OF P]) simp_all
  ultimately have "units_of (fl_abs (fFreeList st')) = units_of (fl_abs (fFreeList st)) + units_of (mset (map em_range (filter P ?es)))"
    by (simp only: add.assoc add_left_cancel) (simp only: add.commute)
  then show ?thesis using st'(1,2) es' by blast
qed

section \<open>Taking a range\<close>

text \<open>The state of the free list after a range has been taken from it.\<close>

definition fl_taken :: "InlineLBIDRange \<Rightarrow> ExtentMap \<Rightarrow> ExtentMap \<Rightarrow> bool" where
  "fl_taken r st st' \<longleftrightarrow> fl_frame st st' \<and> em_geom st' \<and> il_ok r \<and> fl_live r \<and> (\<forall>x \<in> set (fFreeList st'). il_ok x) \<and>
     fl_consolidated (fl_abs (fFreeList st')) \<and>
     mst_currentSize (fFLShminfo st') = sizeof_InlineLBIDRange * int (size (fl_abs (fFreeList st'))) \<and>
     units_of (fl_abs (fFreeList st)) = units_of (fl_abs (fFreeList st')) + range_units r"

lemma unit_once:
  assumes "range_units r + units_of M \<subseteq># all_units" "x \<in># M" "u \<in># range_units x"
  shows "u \<notin># range_units r"
proof
  assume "u \<in># range_units r"
  moreover have "u \<in># units_of M" using units_of_member [OF assms(2)] assms(3) by (rule mset_subset_eqD)
  ultimately have "0 < count (range_units r) u" "0 < count (units_of M) u" by simp_all
  moreover have "count (range_units r) u + count (units_of M) u \<le> count all_units u" using mset_subset_eq_count [OF assms(1), of u] by simp
  ultimately have "2 \<le> count all_units u" by linarith
  then show False by (simp add: all_units_def count_mset_set' split: if_splits)
qed

lemma range_last_unit:
  assumes "il_ok x" "fl_live x"
  shows "il_end x div 1024 - 1 \<in># range_units x"
  using assms il_end_div [of x] by (auto simp: range_units_def il_ok_def fl_live_def)

lemma fl_takenI:
  assumes inv: "em_inv st" and m: "fl_abs (fFreeList st) = add_mset x M" and n: "0 < n" "n \<le> il_size x"
    and st': "fl_abs (fFreeList st') = (if n = il_size x then M else add_mset \<lparr>il_start = il_start x + n * 1024, il_size = il_size x - n\<rparr> M)"
      "\<forall>x \<in> set (fFreeList st'). il_ok x" "fl_frame st st'" "em_geom st'"
      "mst_currentSize (fFLShminfo st') = mst_currentSize (fFLShminfo st) - (if n = il_size x then sizeof_InlineLBIDRange else 0)"
  shows "fl_taken \<lparr>il_start = il_start x, il_size = n\<rparr> st st'"
proof -
  let ?r = "\<lparr>il_start = il_start x, il_size = n\<rparr>" and ?R = "\<lparr>il_start = il_start x + n * 1024, il_size = il_size x - n\<rparr>"
  have x: "il_ok x" "fl_live x" "range_units x \<subseteq># all_units" using em_inv_range [OF inv disjI2, of x] m by auto
  have "units_of (em_abs (fExtentMap st)) + (range_units x + units_of M) = all_units" using inv m by (simp add: em_inv_def)
  then have once: "range_units x + units_of M \<subseteq># all_units" using mset_subset_eq_add_right by metis
  have fl: "mst_currentSize (fFLShminfo st) = sizeof_InlineLBIDRange * (1 + int (size M))" "\<forall>r \<in># add_mset x M. \<forall>s \<in># add_mset x M. il_end r \<noteq> il_start s"
    using inv m by (auto simp: em_inv_def fl_consolidated_def)
  have r: "il_ok ?r" "fl_live ?r" using x(1) n by (auto simp: il_ok_def fl_live_def)
  have dv: "1024 dvd il_start x" using x(1) by (simp add: il_ok_def)
  have div: "il_start ?R div 1024 = il_start x div 1024 + n" using dv by (auto elim: dvdE)
  have "{il_start x div 1024..<il_start x div 1024 + il_size x} =
      {il_start x div 1024..<il_start x div 1024 + n} \<union> {il_start x div 1024 + n..<il_start x div 1024 + il_size x}" using n by auto
  then have units: "range_units x = range_units ?r + range_units ?R" using div by (simp add: range_units_def mset_set_Union add.commute)
  show ?thesis
  proof (cases "n = il_size x")
    case True
    then have "range_units ?r = range_units x" by (simp add: range_units_def)
    then show ?thesis using st' r fl m True by (simp add: fl_taken_def fl_consolidated_def em_size_defs add.commute)
  next
    case False
    then have R: "fl_live ?R" "il_end ?R = il_end x" using n by (auto simp: fl_live_def il_end_def algebra_simps)
    have "il_end y \<noteq> il_start ?R" if y: "y \<in># M" for y
    proof
      assume e: "il_end y = il_start ?R"
      have "il_ok y" "fl_live y" using em_inv_range [OF inv disjI2, of y] m y by auto
      from unit_once [OF once y range_last_unit [OF this]] show False using e div n by (auto simp: range_units_def)
    qed
    moreover have "il_end ?R \<noteq> il_start ?R" using False by (simp add: il_end_def)
    ultimately have "fl_consolidated (add_mset ?R M)" using fl(2) R(2) unfolding fl_consolidated_def by simp
    moreover have fl': "fl_abs (fFreeList st') = add_mset ?R M" using st'(1) False by simp
    moreover have "units_of (fl_abs (fFreeList st)) = units_of (add_mset ?R M) + range_units ?r" unfolding m units_of_simps units by (simp only: ac_simps)
    moreover have "mst_currentSize (fFLShminfo st') = sizeof_InlineLBIDRange * int (size (add_mset ?R M))" using st'(5) False fl(1) by simp
    ultimately show ?thesis using st'(2-4) r unfolding fl_taken_def fl' by blast
  qed
qed

lemma getLBIDsFromFreeList_ok:
  assumes inv: "em_inv st" and n: "0 < n" "n < 2 ^ 22"
  shows "(\<forall>r \<in># fl_abs (fFreeList st). il_size r < n) \<and> getLBIDsFromFreeList n st = Some (Inl runtime_error, st) \<or>
    (\<exists>lbid st'. getLBIDsFromFreeList n st = Some (Inr lbid, st') \<and> em_undo_ext st st' \<and> fl_taken \<lparr>il_start = lbid, il_size = n\<rparr> st st')"
proof (cases "find_slot (\<lambda>r. n \<le> il_size r) (fFreeList st)")
  case None
  have "em_geom st" using inv by (simp add: em_inv_def)
  then have "getLBIDsFromFreeList n st = Some (Inl runtime_error, st)" using None by (simp add: getLBIDsFromFreeList_def)
  moreover have "\<forall>r \<in># fl_abs (fFreeList st). il_size r < n" using None by (auto simp: find_slot_None fl_abs_def)
  ultimately show ?thesis by blast
next
  case (Some i)
  let ?fl = "fFreeList st" and ?x = "fFreeList st ! i"
  have g: "em_geom st" "\<forall>r \<in> set ?fl. il_ok r" using inv by (auto simp: em_inv_def)
  have i: "i < length ?fl" "n \<le> il_size ?x" using Some by (auto simp: find_slot_Some)
  then have live: "fl_live ?x" "?x \<in># fl_abs ?fl" using n by (auto simp: fl_live_def fl_abs_mem)
  note x = em_inv_range [OF inv disjI2, OF live(2)]
  have "il_start ?x div 1024 + il_size ?x \<le> 2 ^ 26" "0 \<le> il_start ?x div 1024"
    using range_bounds [OF x(3,2)] x(1) by (auto simp: il_ok_def pos_imp_zdiv_nonneg_iff)
  then have "u32_of (n * 1024) = n * 1024" "u32_of (il_size ?x - n) = il_size ?x - n" using n i(2) by (auto intro!: u32_id)
  moreover define st' where "st' = (let st1 = fl_put i \<lparr>il_start = il_start ?x + n * 1024, il_size = il_size ?x - n\<rparr> st
    in if n = il_size ?x then fl_resize (- sizeof_InlineLBIDRange) st1 else st1)"
  ultimately have "getLBIDsFromFreeList n st = Some (Inr (il_start ?x), st')"
    using Some g(1) by (simp add: getLBIDsFromFreeList_def Let_def)
  moreover have "em_undo_ext st st'"
    unfolding st'_def Let_def by (cases "n = il_size ?x") (auto intro!: em_undo_ext_trans [OF fl_put_ext fl_resize_ext])
  moreover obtain M where M: "fl_abs ?fl = add_mset ?x M" using live(2) by (auto dest: multi_member_split)
  have fl': "fFreeList st' = ?fl[i := \<lparr>il_start = il_start ?x + n * 1024, il_size = il_size ?x - n\<rparr>]" by (simp add: st'_def Let_def)
  have "fl_taken \<lparr>il_start = il_start ?x, il_size = n\<rparr> st st'"
  proof (rule fl_takenI [OF inv M n(1) i(2)])
    show "fl_abs (fFreeList st') = (if n = il_size ?x then M else add_mset \<lparr>il_start = il_start ?x + n * 1024, il_size = il_size ?x - n\<rparr> M)"
      using i(1) live(1) M by (simp add: fl' fl_abs_update) (simp add: fl_live_def)
    have "il_ok \<lparr>il_start = il_start ?x + n * 1024, il_size = il_size ?x - n\<rparr>" using x(1) i(2) n by (auto simp: il_ok_def)
    then show "\<forall>x \<in> set (fFreeList st'). il_ok x" unfolding fl' by (rule set_update_ok [OF g(2)])
  qed (use g(1) in \<open>simp_all add: st'_def Let_def fl_frame_def\<close>)
  ultimately show ?thesis by blast
qed

section \<open>Undoing a deletion\<close>

text \<open>Overwriting a slot of the free list whose old contents are in the log.\<close>

lemma foldr_fl_set:
  "foldr em_apply_delta ds (st\<lparr>fFreeList := (fFreeList st)[i := r]\<rparr>) = foldr em_apply_delta ds st \<or>
   foldr em_apply_delta ds (st\<lparr>fFreeList := (fFreeList st)[i := r]\<rparr>) =
     (foldr em_apply_delta ds st)\<lparr>fFreeList := (fFreeList (foldr em_apply_delta ds st))[i := r]\<rparr>"
proof (induction ds)
  case (Cons d ds)
  then show ?case
  proof (cases d)
    case (ed_range key j v)
    with Cons show ?thesis by (cases "j = i") (auto simp: list_update_swap)
  qed auto
qed simp

lemma foldr_fl_saved:
  "ed_range key i v \<in> set ds \<Longrightarrow>
   foldr em_apply_delta ds (st\<lparr>fFreeList := (fFreeList st)[i := r]\<rparr>) = foldr em_apply_delta ds st"
proof (induction ds)
  case (Cons d ds)
  then show ?case using foldr_fl_set [of ds st i r] by (cases "d = ed_range key i v") auto
qed simp

lemma fl_set_ext: "ed_range key i v \<in> set (em_undoRecords st) \<Longrightarrow> em_undo_ext st (fl_set i r st)"
  by (simp add: em_undo_ext_def em_undone_def em_log_ok_def fl_set_def foldr_fl_saved)

lemma fl_save_ext [simp]: "em_undo_ext st (fl_save i st)"
  by (rule em_undo_ext_save, simp add: fl_save_def em_makeUndoRecord_def) (simp_all add: fl_save_def em_makeUndoRecord_def)

definition fl_saved :: "nat \<Rightarrow> ExtentMap \<Rightarrow> bool" where
  "fl_saved i st \<longleftrightarrow> (\<exists>key v. ed_range key i v \<in> set (em_undoRecords st))"

lemma fl_saved_simps [simp]:
  "fl_saved i (fl_save i st)" "fl_saved i st \<Longrightarrow> fl_saved i (fl_save j st)" "fl_saved i (fl_set j r st) = fl_saved i st"
  by (auto simp: fl_saved_def fl_save_def fl_set_def em_makeUndoRecord_def)

lemma fl_set_saved_ext: "fl_saved i st \<Longrightarrow> em_undo_ext st (fl_set i r st)"
  by (auto simp: fl_saved_def intro: fl_set_ext)

lemma fl_migrate_ext:
  assumes "fl_migrate free p (fl_save p st) = (p', st')"
  shows "em_undo_ext st st' \<and> fl_saved p' st'"
proof (cases "\<exists>f. free = Some f \<and> f < p")
  case True
  then obtain f where f: "free = Some f" "f < p" by blast
  let ?s = "fl_save f (fl_save p st)"
  have "em_undo_ext st ?s" by (rule em_undo_ext_trans [OF fl_save_ext fl_save_ext])
  also have "em_undo_ext ?s (fl_set f r ?s)" for r by (simp add: fl_set_saved_ext)
  also have "em_undo_ext (fl_set f r ?s) (fl_set p r' (fl_set f r ?s))" for r r' by (simp add: fl_set_saved_ext)
  finally have "em_undo_ext st (fl_set p r' (fl_set f r ?s))" for r r' .
  then show ?thesis using assms f by (auto simp: fl_migrate_def Let_def)
next
  case False
  then show ?thesis using assms by (auto simp: fl_migrate_def split: option.splits if_splits)
qed

lemma fl_enlarge_ext: "fl_saved i st \<Longrightarrow> em_undo_ext st (fl_enlarge i n st)"
  by (simp add: fl_enlarge_def fl_set_saved_ext)

lemma free_joined_ext:
  "em_undo_ext st (free_between r p s free st)" "em_undo_ext st (free_before r s free st)" "em_undo_ext st (free_after r p free st)"
proof -
  obtain p' st1 where p: "fl_migrate free p (fl_save p st) = (p', st1)" by (cases "fl_migrate free p (fl_save p st)")
  obtain s' st2 where s: "fl_migrate free s (fl_save s st) = (s', st2)" by (cases "fl_migrate free s (fl_save s st)")
  note p1 = fl_migrate_ext [OF p] and s1 = fl_migrate_ext [OF s]
  have en: "em_undo_ext st (fl_enlarge p' n st1)" for n using p1 by (auto intro: em_undo_ext_trans fl_enlarge_ext)
  then show "em_undo_ext st (free_after r p free st)" by (simp add: free_after_def p)
  show "em_undo_ext st (free_between r p s free st)"
    unfolding free_between_def p Let_def prod.case by (rule em_undo_ext_trans [OF em_undo_ext_trans [OF en fl_put_ext] fl_resize_ext])
  have "em_undo_ext st (fl_set s' x st2)" "fl_saved s' (fl_set s' x st2)" for x using s1 by (auto intro: em_undo_ext_trans fl_set_saved_ext)
  then show "em_undo_ext st (free_before r s free st)"
    unfolding free_before_def s Let_def prod.case by (blast intro: em_undo_ext_trans fl_enlarge_ext)
qed

text \<open>The weaker relation a deletion keeps: the log restores the two tables but not their descriptors.\<close>

definition em_tables_ext :: "ExtentMap \<Rightarrow> ExtentMap \<Rightarrow> bool" where
  "em_tables_ext st st' \<longleftrightarrow> (em_log_ok st \<longrightarrow> em_log_ok st') \<and>
     fExtentMap (em_undone st') = fExtentMap (em_undone st) \<and> fFreeList (em_undone st') = fFreeList (em_undone st)"

lemma em_undo_ext_tables: "em_undo_ext st st' \<Longrightarrow> em_tables_ext st st'"
  by (simp add: em_undo_ext_def em_tables_ext_def)

lemma em_tables_ext_trans [trans]: "em_tables_ext st st' \<Longrightarrow> em_tables_ext st' st'' \<Longrightarrow> em_tables_ext st st''"
  by (simp add: em_tables_ext_def)

lemma foldr_sizes:
  "fExtentMap (foldr em_apply_delta ds (st\<lparr>fEMShminfo := m\<rparr>)) = fExtentMap (foldr em_apply_delta ds st) \<and>
   fFreeList (foldr em_apply_delta ds (st\<lparr>fEMShminfo := m\<rparr>)) = fFreeList (foldr em_apply_delta ds st)"
  "fExtentMap (foldr em_apply_delta ds (st\<lparr>fFLShminfo := m\<rparr>)) = fExtentMap (foldr em_apply_delta ds st) \<and>
   fFreeList (foldr em_apply_delta ds (st\<lparr>fFLShminfo := m\<rparr>)) = fFreeList (foldr em_apply_delta ds st)"
proof (induction ds)
  case (Cons d ds)
  {
    case 1
    show ?case using Cons by (cases d) auto
  next
    case 2
    show ?case using Cons by (cases d) auto
  }
qed simp_all

lemma em_pointer_ext:
  "tableShmkey m = tableShmkey (fEMShminfo st) \<Longrightarrow> em_tables_ext st ((em_makeUndoRecord ed_pointer st)\<lparr>fEMShminfo := m\<rparr>)"
  "tableShmkey m = tableShmkey (fFLShminfo st) \<Longrightarrow> em_tables_ext st ((em_makeUndoRecord ed_pointer st)\<lparr>fFLShminfo := m\<rparr>)"
  by (simp_all add: em_tables_ext_def em_undone_def em_log_ok_def em_makeUndoRecord_def em_finishChanges_def foldr_sizes foldr_em_apply_frame)

lemma em_clear_slot_ext: "em_tables_ext st (em_clear_slot i st)"
proof -
  let ?s = "em_put i (cleared (fExtentMap st ! i)) st"
  have "em_tables_ext st ?s" by (simp add: em_undo_ext_tables)
  also have "em_tables_ext ?s ((em_makeUndoRecord ed_pointer ?s)\<lparr>fEMShminfo := (fEMShminfo ?s)\<lparr>mst_currentSize := n\<rparr>\<rparr>)" for n
    by (rule em_pointer_ext) simp
  finally show ?thesis by (simp add: em_clear_slot_def Let_def cleared_def em_makeUndoRecord_def)
qed

lemma fl_free_cases:
  assumes "fl_free r st = Some st'"
  obtains (between) p s free where "st' = free_between r p s free st"
    | (before) s free where "st' = free_before r s free st"
    | (after) p free where "st' = free_after r p free st"
    | (alone) n free where "free_alone r n free st = Some st'"
proof -
  obtain fl where fl: "fl_slots st = Some fl" using assms by (cases "fl_slots st") (auto simp: fl_free_def)
  obtain prec succ free where "fl_scan r fl = (prec, succ, free)" by (cases "fl_scan r fl") auto
  with fl assms that show thesis by (cases prec; cases succ) (auto simp: fl_free_def)
qed

lemma fl_free_ext:
  assumes "mst_currentSize (fFLShminfo st) \<noteq> allocdSize (fFLShminfo st)" "fl_free r st = Some st'"
  shows "em_tables_ext st st'"
proof -
  have alone: "em_tables_ext st x" if "free_alone r n free st = Some x" for n free x
  proof -
    from that assms(1) obtain f where x: "x = (let s = fl_put f \<lparr>il_start = il_start r, il_size = il_size r\<rparr> st in
        (em_makeUndoRecord ed_pointer s)\<lparr>fFLShminfo := (fFLShminfo s)\<lparr>mst_currentSize := mst_currentSize (fFLShminfo s) + sizeof_InlineLBIDRange\<rparr>\<rparr>)"
      by (auto simp: free_alone_def Let_def em_makeUndoRecord_def split: option.splits)
    show ?thesis unfolding x Let_def by (rule em_tables_ext_trans [OF em_undo_ext_tables [OF fl_put_ext] em_pointer_ext(2)]) simp
  qed
  from assms(2) show ?thesis
    by (cases rule: fl_free_cases) (auto intro: alone free_joined_ext [THEN em_undo_ext_tables])
qed

definition no_emshm :: "ExtentMap \<Rightarrow> bool" where
  "no_emshm st \<longleftrightarrow> (\<forall>m. ed_emshm m \<notin> set (em_undoRecords st))"

lemma no_emshm_undone:
  assumes "no_emshm st"
  shows "fEMShminfo (em_undone st) = fEMShminfo st"
proof -
  have "(\<forall>m. ed_emshm m \<notin> set ds) \<Longrightarrow> fEMShminfo (foldr em_apply_delta ds x) = fEMShminfo x" for ds x
  proof (induction ds)
    case (Cons d ds)
    then show ?case by (cases d) auto
  qed simp
  then show ?thesis using assms by (simp add: em_undone_def em_finishChanges_def no_emshm_def)
qed

lemma no_emshm_simps [simp]:
  "no_emshm (fl_save i st) = no_emshm st" "no_emshm (fl_set i r st) = no_emshm st" "no_emshm (fl_enlarge i n st) = no_emshm st"
  "no_emshm (fl_put i r st) = no_emshm st" "no_emshm (fl_resize d st) = no_emshm st" "no_emshm (em_put i e st) = no_emshm st"
  "no_emshm (growFLShmseg st) = no_emshm st" "no_emshm (em_makeUndoRecord ed_pointer st) = no_emshm st"
  "no_emshm (st\<lparr>fFLShminfo := m\<rparr>) = no_emshm st" "no_emshm (st\<lparr>fEMShminfo := m\<rparr>) = no_emshm st"
  by (auto simp: no_emshm_def fl_save_def fl_set_def fl_enlarge_def fl_put_def fl_resize_def em_put_def growFLShmseg_def Let_def em_makeUndoRecord_def)

lemma fl_migrate_no_emshm [simp]: "no_emshm (snd (fl_migrate free p st)) = no_emshm st"
  by (auto simp: fl_migrate_def Let_def split: option.splits)

lemma fl_free_no_emshm:
  assumes "fl_free r st = Some st'"
  shows "no_emshm st' = no_emshm st"
  using assms
proof (cases rule: fl_free_cases)
  case (alone n free)
  then show ?thesis by (auto simp: free_alone_def Let_def split: if_splits option.splits)
qed (simp_all add: free_between_def free_before_def free_after_def Let_def case_prod_beta)

lemma em_clear_slot_no_emshm [simp]: "no_emshm (em_clear_slot i st) = no_emshm st"
  by (simp add: em_clear_slot_def Let_def)

section \<open>The properties\<close>

lemma em_inv_flags [simp]: "em_inv (st\<lparr>emLocked := b\<rparr>) = em_inv st" "em_inv (st\<lparr>flLocked := b\<rparr>) = em_inv st"
  by (simp_all add: em_inv_def)

lemma mset_set_upto_join: "a \<le> b \<Longrightarrow> b \<le> c \<Longrightarrow> mset_set {a..<b} + mset_set {b..<c} = mset_set {a..<c::int}"
  by (subst mset_set_Union [symmetric]) (auto intro: arg_cong [where f = mset_set])

lemma ex_em_inv [simp]: "em_inv ex_em"
proof -
  have "mset_set {0..<8} + mset_set {8..<16} + mset_set {16..<67108864} = mset_set {0..<67108864::int}"
    by (simp add: mset_set_upto_join)
  then show ?thesis
    by (simp add: em_inv_def ex_em_slots em_abs_def fl_abs_def fl_live_def zero_EMEntry_def zero_range_def all_units_def)
      (simp add: ex_em_def zero_range_def il_ok_def range_units_def em_size_defs fl_consolidated_def il_end_def fl_live_def)
qed

text \<open>The extents with a property are gone, and their blocks, no others, are free again.\<close>

definition deletes :: "(EMEntry \<Rightarrow> bool) \<Rightarrow> ExtentMap \<Rightarrow> ExtentMap \<Rightarrow> bool" where
  "deletes P st st' \<longleftrightarrow> em_inv st' \<and> fExtentMap st' = delete_where P (fExtentMap st) \<and>
     units_of (fl_abs (fFreeList st')) = units_of (fl_abs (fFreeList st)) + units_of (mset (map em_range (filter P (fExtentMap st))))"

lemma delete_all_locked:
  assumes "em_inv st" "\<And>e. P e \<Longrightarrow> em_used e"
  obtains st' where "delete_slots P [0..<length (fExtentMap st)] (st\<lparr>emLocked := True, flLocked := True\<rparr>) = Some st'" "deletes P st st'"
  using delete_all_ok [of "st\<lparr>emLocked := True, flLocked := True\<rparr>" P] assms by (auto simp: deletes_def)

text \<open>
  C19. Space is conserved: on a consistent extent map \<open>deleteOID\<close>, \<open>deleteOIDs\<close> and \<open>deleteDBRoot\<close>
  always return, \<open>deleteOID\<close> with an error just when the column has no extents. They remove the
  extents of the column, columns or DBRoot and no others, the free list gains exactly the blocks
  of these extents, and the map stays consistent: every unit of the block space is still held
  exactly once, by an extent or by a free range, the descriptors count the used slots, and
  adjacent free ranges have been joined.
\<close>

theorem deletions_conserve_space:
  assumes "em_inv st"
  shows "(\<exists>st'. deleteOID oid st = Some (if \<exists>e \<in> set (fExtentMap st). 0 < il_size (em_range e) \<and> fileID e = oid then Inr () else Inl invalid_argument, st') \<and>
            deletes (\<lambda>e. 0 < il_size (em_range e) \<and> fileID e = oid) st st') \<and>
         (\<exists>st'. deleteOIDs oids st = Some (Inr (), st') \<and> deletes (\<lambda>e. 0 < il_size (em_range e) \<and> fileID e \<in> oids) st st') \<and>
         (\<exists>st'. deleteDBRoot root st = Some (Inr (), st') \<and> deletes (\<lambda>e. em_used e \<and> dbRoot e = root) st st')"
proof -
  have g: "em_geom st" using assms by (simp add: em_inv_def)
  have u: "0 < il_size (em_range e) \<Longrightarrow> em_used e" for e by (simp add: em_used_def)
  obtain st1 where "delete_slots (\<lambda>e. 0 < il_size (em_range e) \<and> fileID e = oid) [0..<length (fExtentMap st)] (st\<lparr>emLocked := True, flLocked := True\<rparr>) = Some st1"
      "deletes (\<lambda>e. 0 < il_size (em_range e) \<and> fileID e = oid) st st1" by (rule delete_all_locked [of st "\<lambda>e. 0 < il_size (em_range e) \<and> fileID e = oid", OF assms]) (auto dest: u)
  moreover obtain st2 where "delete_slots (\<lambda>e. 0 < il_size (em_range e) \<and> fileID e \<in> oids) [0..<length (fExtentMap st)] (st\<lparr>emLocked := True, flLocked := True\<rparr>) = Some st2"
      "deletes (\<lambda>e. 0 < il_size (em_range e) \<and> fileID e \<in> oids) st st2" by (rule delete_all_locked [of st "\<lambda>e. 0 < il_size (em_range e) \<and> fileID e \<in> oids", OF assms]) (auto dest: u)
  moreover obtain st3 where "delete_slots (\<lambda>e. em_used e \<and> dbRoot e = root) [0..<length (fExtentMap st)] (st\<lparr>emLocked := True, flLocked := True\<rparr>) = Some st3"
      "deletes (\<lambda>e. em_used e \<and> dbRoot e = root) st st3" by (rule delete_all_locked [of st "\<lambda>e. em_used e \<and> dbRoot e = root", OF assms]) (auto dest: u)
  ultimately show ?thesis using g by (simp add: deleteOID_def deleteOIDs_def deleteDBRoot_def Let_def)
qed

theorem deletions_conserve_space_witness:
  "em_inv ex_em \<and> (\<exists>st'. deleteOID 3001 ex_em = Some (Inr (), st') \<and> em_inv st' \<and> (\<forall>e \<in> set (fExtentMap st'). \<not> em_used e))"
  using deletions_conserve_space [OF ex_em_inv, of 3001 "{}" 0] by (auto simp: deletes_def delete_where_def ex_em_slots)

text \<open>
  C24. Undoing a deletion does not give back the state before it. \<open>deleteExtent\<close> logs the member
  variable that holds the address of the descriptor, not the descriptor. When nothing had been
  logged before and the free list has room, \<open>undoChanges\<close> restores every slot of the
  extent map and of the free list, but the size of the extent map stays one entry too small,
  so that the map is not consistent any more.
\<close>

theorem deleteExtent_undo_loses_size:
  assumes "em_inv st" "em_undoRecords st = []" "mst_currentSize (fFLShminfo st) \<noteq> allocdSize (fFLShminfo st)"
    and "i < length (fExtentMap st)" "em_used (fExtentMap st ! i)"
  shows "\<exists>st' st''. deleteExtent i st = Some st' \<and> em_undoChanges st' = Some st'' \<and>
    fExtentMap st'' = fExtentMap st \<and> fFreeList st'' = fFreeList st \<and>
    mst_currentSize (fEMShminfo st'') = mst_currentSize (fEMShminfo st) - sizeof_EMEntry \<and> \<not> em_inv st''"
proof -
  from deleteExtent_ok [OF assms(1,4,5)] obtain st' where st': "deleteExtent i st = Some st'" by blast
  then obtain st1 where st1: "fl_free (em_range (fExtentMap st ! i)) st = Some st1" "st' = em_clear_slot i st1"
    using assms(4) by (auto simp: deleteExtent_def bind_eq_Some_conv)
  have ext: "em_tables_ext st st'" using fl_free_ext [OF assms(3) st1(1)] em_clear_slot_ext st1(2) em_tables_ext_trans by blast
  have "no_emshm st'" using fl_free_no_emshm [OF st1(1)] assms(2) st1(2) by (simp add: no_emshm_def [of st])
  then have em: "fEMShminfo (em_undone st') = fEMShminfo st'" by (rule no_emshm_undone)
  have "fEMShminfo st1 = fEMShminfo st"
    using fl_free_ok [OF em_inv_fl_ready [OF assms(1) nth_mem [OF assms(4)] assms(5)]] st1(1) by (auto simp: fl_freed_def fl_frame_def)
  then have sz: "mst_currentSize (fEMShminfo (em_undone st')) = mst_currentSize (fEMShminfo st) - sizeof_EMEntry"
    using em st1(2) by (simp add: em_clear_slot_simps)
  have "em_undone st = em_finishChanges st" using assms(2) by (cases st) (simp add: em_undone_def)
  then have t: "fExtentMap (em_undone st') = fExtentMap st" "fFreeList (em_undone st') = fFreeList st" "em_log_ok st'"
    using ext assms(2) by (simp_all add: em_tables_ext_def em_finishChanges_def em_log_ok_def [of st])
  then have "em_undoChanges st' = Some (em_undone st')" by (simp add: em_undoChanges_def em_undone_def)
  moreover have "\<not> em_inv (em_undone st')" using sz t assms(1) by (auto simp: em_inv_def em_size_defs)
  ultimately show ?thesis using st' t sz by blast
qed

theorem deleteExtent_undo_loses_size_witness:
  "em_inv ex_em \<and> (\<exists>st' st''. deleteExtent 2 ex_em = Some st' \<and> em_undoChanges st' = Some st'' \<and>
     mst_currentSize (fEMShminfo st'') = 64 \<and> length (filter em_used (fExtentMap st'')) = 2)"
proof -
  have "mst_currentSize (fFLShminfo ex_em) \<noteq> allocdSize (fFLShminfo ex_em)" "mst_currentSize (fEMShminfo ex_em) = 128"
    by (simp_all add: ex_em_def)
  then show ?thesis
    using deleteExtent_undo_loses_size [OF ex_em_inv ex_em_log, of 2] by (auto simp: ex_em_slots em_size_defs)
qed

end
