(* ===== verification/EM_Create.thy ===== *)
theory EM_Create
  imports EM_Space
begin

text \<open>
  Creating extents: \<open>createColumnExtent_DBroot\<close>, \<open>createStripeColumnExtents\<close>,
  \<open>createColumnExtentExactFile\<close> and \<open>createDictStoreExtent\<close> of \<open>extentmap.cpp\<close>. A new extent takes
  its blocks from the free list; for a column on a DBRoot the code also chooses the partition,
  the segment file and the offset in it from the extents the column has already.
\<close>

section \<open>The configuration\<close>

text \<open>
  What \<open>checkReloadConfig\<close> and \<open>OamCache::getDBRootCount\<close> read from the system configuration; the
  rows per extent are fixed in the code.
\<close>

record em_config =
  filesPerColumnPartition :: int
  extentsPerSegmentFile :: int
  dbRootCount :: int

definition ExtentRows :: int where "ExtentRows = 0x800000"
definition DICT_COL_WIDTH :: int where "DICT_COL_WIDTH = 8"

definition EXTENT_SIZE :: "int \<Rightarrow> int" where
  "EXTENT_SIZE colWidth = u32_of (ExtentRows * colWidth) div BLOCK_SIZE"

section \<open>Choosing the place of a column extent\<close>

text \<open>
  The first scan: the last extent of the column on the DBRoot, and, as long as there is none, the
  highest segment number in the partition the caller asks for.
\<close>

definition create_scan_step ::
  "OID_t \<Rightarrow> int \<Rightarrow> int \<Rightarrow> EMEntry list \<Rightarrow> nat \<Rightarrow>
    (int \<times> int \<times> int \<times> nat option) \<times> int option \<Rightarrow> (int \<times> int \<times> int \<times> nat option) \<times> int option"
where
  "create_scan_step oid root part es i = (\<lambda>(lst, hiSeg).
     let e = es ! i; lst' = last_extent_step (\<lambda>e. em_used e \<and> fileID e = oid \<and> dbRoot e = root) es i lst
     in (lst',
         if em_used e \<and> fileID e = oid \<and> snd (snd (snd lst')) = None \<and> partitionNum e = part
         then (case hiSeg of None \<Rightarrow> Some (segmentNum e)
               | Some h \<Rightarrow> if segmentNum e > h then Some (segmentNum e) else Some h)
         else hiSeg))"

definition create_scan :: "OID_t \<Rightarrow> int \<Rightarrow> int \<Rightarrow> EMEntry list \<Rightarrow> nat option \<times> int option" where
  "create_scan oid root part es =
     (case fold (create_scan_step oid root part es) [0..<length es] ((0, 0, 0, None), None) of
        ((_, _, _, idx), hiSeg) \<Rightarrow> (idx, hiSeg))"

text \<open>
  The second scan collects the highest segment numbers of the last partition and of the next
  one, and the segment files of the last partition on the DBRoot with their highest offsets.
\<close>

record seg_info =
  partHighSeg :: int
  partHighSegNext :: int
  targetDbRootSegs :: "(int \<times> int) list"
  segsOutOfService :: bool

definition put_seg :: "int \<Rightarrow> int \<Rightarrow> (int \<times> int) list \<Rightarrow> (int \<times> int) list" where
  "put_seg seg off segs =
     (if seg \<in> fst ` set segs
      then map (\<lambda>(s, h). if s = seg \<and> off > h then (s, off) else (s, h)) segs
      else segs @ [(seg, off)])"

definition seg_scan_step :: "OID_t \<Rightarrow> int \<Rightarrow> int \<Rightarrow> EMEntry \<Rightarrow> seg_info \<Rightarrow> seg_info" where
  "seg_scan_step oid root part e s =
     (if em_used e \<and> fileID e = oid
      then if partitionNum e = u32_of (part + 1)
           then s\<lparr>partHighSegNext := max (partHighSegNext s) (segmentNum e)\<rparr>
           else if partitionNum e = part
           then let s1 = s\<lparr>partHighSeg := max (partHighSeg s) (segmentNum e)\<rparr>
                in if dbRoot e = root
                   then s1\<lparr>segsOutOfService := (segsOutOfService s1 \<or> em_status e = EXTENTOUTOFSERVICE),
                           targetDbRootSegs := put_seg (segmentNum e) (blockOffset e) (targetDbRootSegs s1)\<rparr>
                   else s1
           else s
      else s)"

definition seg_scan :: "OID_t \<Rightarrow> int \<Rightarrow> EMEntry list \<Rightarrow> EMEntry \<Rightarrow> seg_info" where
  "seg_scan oid root es l =
     fold (seg_scan_step oid root (partitionNum l)) es
       \<lparr>partHighSeg = segmentNum l, partHighSegNext = -1,
        targetDbRootSegs = [(segmentNum l, blockOffset l)], segsOutOfService = False\<rparr>"

text \<open>
  The first, last and next segment file of the DBRoot in the partition. The code runs over a hash
  map; the result does not depend on the order.
\<close>

definition target_step :: "int \<Rightarrow> int \<times> int \<Rightarrow> int \<times> int \<times> int \<times> bool \<Rightarrow> int \<times> int \<times> int \<times> bool" where
  "target_step seg = (\<lambda>(t, _) (firstS, lastS, nextS, isSet).
     let (f, l) = (if t < firstS then (t, lastS) else if t > lastS then (firstS, t) else (firstS, lastS))
     in if t > seg \<and> (t < nextS \<or> \<not> isSet) then (f, l, t, True) else (f, l, nextS, isSet))"

definition target_segs :: "int \<Rightarrow> (int \<times> int) list \<Rightarrow> int \<times> int \<times> int" where
  "target_segs seg segs =
     (if length segs > 1
      then (case fold (target_step seg) segs (seg, seg, seg, False) of (f, l, n, _) \<Rightarrow> (f, l, n))
      else (seg, seg, seg))"

text \<open>Where the next extent after \<open>l\<close> goes: partition, segment and offset.\<close>

definition next_partition :: "EMEntry \<Rightarrow> seg_info \<Rightarrow> int \<times> int \<times> int" where
  "next_partition l s =
     (u32_of (partitionNum l + 1), if partHighSegNext s = -1 then 0 else u16_of (partHighSegNext s + 1), 0)"

definition same_partition :: "EMEntry \<Rightarrow> int \<Rightarrow> int \<Rightarrow> bool \<Rightarrow> int \<times> int \<times> int" where
  "same_partition l firstSeg seg newStripe =
     (partitionNum l, seg,
      if blockOffset l = 0 \<and> seg > firstSeg then 0
      else if newStripe then u32_of (il_size (em_range l) * 1024 + blockOffset l)
      else blockOffset l)"

definition choose_place :: "em_config \<Rightarrow> int \<Rightarrow> EMEntry \<Rightarrow> seg_info \<Rightarrow> (int \<times> int \<times> int) option" where
  "choose_place cfg colWidth l s =
     (if dbRootCount cfg = 0 then None
      else let files = int (length (targetDbRootSegs s));
               filesPerDBRoot = filesPerColumnPartition cfg div dbRootCount cfg;
               (firstSeg, lastSeg, nextSeg) = target_segs (segmentNum l) (targetDbRootSegs s)
           in Some (
             if segsOutOfService s \<or> files < filesPerDBRoot \<and> (\<exists>(_, fbo) \<in> set (targetDbRootSegs s). fbo > 0)
             then next_partition l s
             else if files \<ge> filesPerDBRoot
             then if segmentNum l = lastSeg
                  then if blockOffset l = u32_of ((extentsPerSegmentFile cfg - 1) * EXTENT_SIZE colWidth)
                       then next_partition l s
                       else same_partition l firstSeg firstSeg True
                  else same_partition l firstSeg nextSeg False
             else same_partition l firstSeg (u16_of (partHighSeg s + 1)) False))"

section \<open>Creating an extent\<close>

definition new_column_entry :: "LBID_t \<Rightarrow> int \<Rightarrow> OID_t \<Rightarrow> ColDataType \<Rightarrow> int \<Rightarrow> int \<Rightarrow> int \<times> int \<times> int \<Rightarrow> EMEntry" where
  "new_column_entry lbid sz oid ty colWidth root = (\<lambda>(part, seg, off).
     \<lparr>em_range = \<lparr>il_start = lbid, il_size = sz\<rparr>, fileID = oid, blockOffset = off, HWM = 0, partitionNum = part,
      segmentNum = seg, dbRoot = root, colWid = u16_of colWidth, em_status = EXTENTUNAVAILABLE,
      cprange = empty_cp ty \<lparr>hi_val = 0, lo_val = 0, sequenceNum = 0,
        isValid = (if part = 0 \<and> seg = 0 \<and> off = 0 then CP_VALID else CP_INVALID)\<rparr>\<rparr>)"

text \<open>
  The common frame of the three functions: take the blocks, look for an empty slot, and fill it;
  the rest of the entry is a function of the slots.
\<close>

definition create_extent :: "int \<Rightarrow> (LBID_t \<Rightarrow> EMEntry list \<Rightarrow> EMEntry option) \<Rightarrow> ExtentMap \<Rightarrow> (LBID_t \<times> EMEntry) em_out" where
  "create_extent sz mk st =
     Option.bind (getLBIDsFromFreeList sz st) (\<lambda>(r, st1).
       case r of
         Inl x \<Rightarrow> Some (Inl x, st1)
       | Inr lbid \<Rightarrow>
           Option.bind (em_slots st1) (\<lambda>es.
             case find_slot (\<lambda>e. \<not> em_used e) es of
               None \<Rightarrow> Some (Inl logic_error, st1)
             | Some i \<Rightarrow>
                 Option.bind (mk lbid es) (\<lambda>e. Some (Inr (lbid, e), em_resize sizeof_EMEntry (em_put i e st1)))))"

definition column_place :: "em_config \<Rightarrow> OID_t \<Rightarrow> int \<Rightarrow> int \<Rightarrow> int \<Rightarrow> EMEntry list \<Rightarrow> (int \<times> int \<times> int) option" where
  "column_place cfg oid colWidth root part es =
     (case create_scan oid root part es of
        (None, hiSeg) \<Rightarrow> Some (part, case hiSeg of None \<Rightarrow> 0 | Some h \<Rightarrow> u16_of (h + 1), 0)
      | (Some i, _) \<Rightarrow> choose_place cfg colWidth (es ! i) (seg_scan oid root es (es ! i)))"

definition createColumnExtent_DBroot_impl ::
  "em_config \<Rightarrow> int \<Rightarrow> OID_t \<Rightarrow> int \<Rightarrow> int \<Rightarrow> ColDataType \<Rightarrow> int \<Rightarrow> ExtentMap \<Rightarrow> (LBID_t \<times> EMEntry) em_out"
where
  "createColumnExtent_DBroot_impl cfg sz oid colWidth root ty part =
     create_extent sz (\<lambda>lbid es. map_option (new_column_entry lbid sz oid ty colWidth root) (column_place cfg oid colWidth root part es))"

text \<open>\<open>growEMShmseg\<close> with its default argument.\<close>

definition em_make_room :: "ExtentMap \<Rightarrow> ExtentMap" where
  "em_make_room st = (if mst_currentSize (fEMShminfo st) = allocdSize (fEMShminfo st) then growEMShmseg 0 st else st)"

text \<open>The answer: partition, segment, first block, number of blocks and offset of the extent.\<close>

definition createColumnExtent_DBroot ::
  "em_config \<Rightarrow> OID_t \<Rightarrow> int \<Rightarrow> int \<Rightarrow> ColDataType \<Rightarrow> int \<Rightarrow> bool \<Rightarrow> ExtentMap \<Rightarrow> (int \<times> int \<times> LBID_t \<times> int \<times> int) em_out"
where
  "createColumnExtent_DBroot cfg oid colWidth root ty part useLock st0 =
     (let st = em_make_room (if useLock then grabFreeList (grabEMEntryTable st0) else st0); n = EXTENT_SIZE colWidth
      in Option.bind (createColumnExtent_DBroot_impl cfg (n div 1024) oid colWidth root ty part st) (\<lambda>(r, st').
           Some (case r of Inl x \<Rightarrow> Inl x
                 | Inr (lbid, e) \<Rightarrow> Inr (partitionNum e, segmentNum e, lbid, n, blockOffset e), st')))"

record CreateStripeColumnExtentsArgIn =
  cs_oid :: OID_t
  cs_width :: int
  cs_colDataType :: ColDataType

record CreateStripeColumnExtentsArgOut =
  cs_startLbid :: LBID_t
  cs_allocSize :: int
  cs_startBlkOffset :: int

text \<open>The loop over the columns; \<open>base\<close> is the place of the first column's extent.\<close>

fun stripe_each ::
  "em_config \<Rightarrow> int \<Rightarrow> (int \<times> int) option \<Rightarrow> CreateStripeColumnExtentsArgIn list \<Rightarrow> int \<Rightarrow> int \<Rightarrow> ExtentMap \<Rightarrow>
    (int \<times> int \<times> CreateStripeColumnExtentsArgOut list) em_out"
where
  "stripe_each cfg root base [] part seg st = Some (Inr (part, seg, []), st)"
| "stripe_each cfg root base (c # cs) part seg st =
     Option.bind (createColumnExtent_DBroot cfg (cs_oid c) (cs_width c) root (cs_colDataType c) part False st) (\<lambda>(r, st').
       case r of
         Inl x \<Rightarrow> Some (Inl x, st')
       | Inr (part', seg', lbid, n, off) \<Rightarrow>
           if base \<noteq> None \<and> base \<noteq> Some (part', seg') then Some (Inl invalid_argument, st')
           else Option.bind (stripe_each cfg root (Some (part', seg')) cs part' seg' st') (\<lambda>(r', st'').
             Some (case r' of Inl x \<Rightarrow> Inl x
                   | Inr (p, s, outs) \<Rightarrow> Inr (p, s, \<lparr>cs_startLbid = lbid, cs_allocSize = n, cs_startBlkOffset = off\<rparr> # outs), st'')))"

definition createStripeColumnExtents ::
  "em_config \<Rightarrow> CreateStripeColumnExtentsArgIn list \<Rightarrow> int \<Rightarrow> int \<Rightarrow> int \<Rightarrow> ExtentMap \<Rightarrow>
    (int \<times> int \<times> CreateStripeColumnExtentsArgOut list) em_out"
where
  "createStripeColumnExtents cfg cols root part seg st =
     stripe_each cfg root None cols part seg (grabFreeList (grabEMEntryTable st))"

text \<open>The last extent of a segment file.\<close>

definition last_in_file_step :: "(EMEntry \<Rightarrow> bool) \<Rightarrow> EMEntry list \<Rightarrow> nat \<Rightarrow> int \<times> nat option \<Rightarrow> int \<times> nat option" where
  "last_in_file_step P es i = (\<lambda>(highest, idx).
     if P (es ! i) \<and> blockOffset (es ! i) \<ge> highest then (blockOffset (es ! i), Some i) else (highest, idx))"

definition last_in_file :: "(EMEntry \<Rightarrow> bool) \<Rightarrow> EMEntry list \<Rightarrow> nat option" where
  "last_in_file P es = snd (fold (last_in_file_step P es) [0..<length es] (0, None))"

definition next_offset :: "EMEntry list \<Rightarrow> nat option \<Rightarrow> int" where
  "next_offset es idx =
     (case idx of None \<Rightarrow> 0 | Some i \<Rightarrow> u32_of (il_size (em_range (es ! i)) * 1024 + blockOffset (es ! i)))"

definition createColumnExtentExactFile_impl ::
  "int \<Rightarrow> OID_t \<Rightarrow> int \<Rightarrow> int \<Rightarrow> int \<Rightarrow> int \<Rightarrow> ColDataType \<Rightarrow> ExtentMap \<Rightarrow> (LBID_t \<times> EMEntry) em_out"
where
  "createColumnExtentExactFile_impl sz oid colWidth root part seg ty =
     create_extent sz (\<lambda>lbid es. Some (new_column_entry lbid sz oid ty colWidth root
       (part, seg, next_offset es (last_in_file (\<lambda>e. in_seg_file oid part seg e \<and> dbRoot e = root) es))))"

definition createColumnExtentExactFile ::
  "OID_t \<Rightarrow> int \<Rightarrow> int \<Rightarrow> int \<Rightarrow> int \<Rightarrow> ColDataType \<Rightarrow> ExtentMap \<Rightarrow> (LBID_t \<times> int \<times> int) em_out"
where
  "createColumnExtentExactFile oid colWidth root part seg ty st0 =
     (let st = em_make_room (grabFreeList (grabEMEntryTable st0)); n = EXTENT_SIZE colWidth
      in Option.bind (createColumnExtentExactFile_impl (n div 1024) oid colWidth root part seg ty st) (\<lambda>(r, st').
           Some (case r of Inl x \<Rightarrow> Inl x | Inr (lbid, e) \<Rightarrow> Inr (lbid, n, blockOffset e), st')))"

definition new_dict_entry :: "LBID_t \<Rightarrow> int \<Rightarrow> OID_t \<Rightarrow> int \<Rightarrow> int \<Rightarrow> int \<Rightarrow> EMEntry list \<Rightarrow> EMEntry" where
  "new_dict_entry lbid sz oid root part seg es =
     (let idx = last_in_file (in_seg_file oid part seg) es;
          (s, p, d, w) = (case idx of None \<Rightarrow> (seg, part, root, 0)
                          | Some i \<Rightarrow> (segmentNum (es ! i), partitionNum (es ! i), dbRoot (es ! i), colWid (es ! i)))
      in \<lparr>em_range = \<lparr>il_start = lbid, il_size = sz\<rparr>, fileID = oid, blockOffset = next_offset es idx, HWM = 0,
          partitionNum = p, segmentNum = s, dbRoot = d, colWid = w, em_status = EXTENTUNAVAILABLE,
          cprange = \<lparr>hi_val = int64_min, lo_val = int64_max, sequenceNum = 0, isValid = CP_INVALID\<rparr>\<rparr>)"

definition createDictStoreExtent_impl :: "int \<Rightarrow> OID_t \<Rightarrow> int \<Rightarrow> int \<Rightarrow> int \<Rightarrow> ExtentMap \<Rightarrow> (LBID_t \<times> EMEntry) em_out" where
  "createDictStoreExtent_impl sz oid root part seg =
     create_extent sz (\<lambda>lbid es. Some (new_dict_entry lbid sz oid root part seg es))"

definition createDictStoreExtent :: "OID_t \<Rightarrow> int \<Rightarrow> int \<Rightarrow> int \<Rightarrow> ExtentMap \<Rightarrow> (LBID_t \<times> int) em_out" where
  "createDictStoreExtent oid root part seg st0 =
     (let st = em_make_room (grabFreeList (grabEMEntryTable st0)); n = EXTENT_SIZE DICT_COL_WIDTH
      in Option.bind (createDictStoreExtent_impl (n div 1024) oid root part seg st) (\<lambda>(r, st').
           Some (case r of Inl x \<Rightarrow> Inl x | Inr (lbid, e) \<Rightarrow> Inr (lbid, n), st')))"

section \<open>Blocks of a new extent\<close>

definition has_room :: "ExtentMap \<Rightarrow> bool" where
  "has_room st \<longleftrightarrow> (\<exists>e \<in> set (fExtentMap st). \<not> em_used e)"

lemma size_em_abs: "size (em_abs es) = length (filter em_used es)"
  by (simp add: em_abs_def size_fl_abs filter_map em_used_live [abs_def] o_def)

lemma em_abs_append: "em_abs (xs @ ys) = em_abs xs + em_abs ys"
  by (simp add: em_abs_def fl_abs_append)

lemma em_inv_room:
  assumes "em_inv st" "mst_currentSize (fEMShminfo st) \<noteq> allocdSize (fEMShminfo st)"
  shows "has_room st"
proof (rule ccontr)
  assume "\<not> has_room st"
  then have "filter em_used (fExtentMap st) = fExtentMap st" by (auto simp: has_room_def filter_id_conv)
  then show False using assms by (simp add: em_inv_def em_geom_def size_em_abs)
qed

lemma em_abs_zero: "em_abs (replicate n zero_EMEntry) = {#}"
  by (simp add: em_abs_def map_replicate zero_EMEntry_def fl_abs_zero)

text \<open>Growing the segment adds empty slots.\<close>

lemma em_make_room_ok:
  assumes inv: "em_inv st"
  shows "em_inv (em_make_room st)" "has_room (em_make_room st)" "fFreeList (em_make_room st) = fFreeList st"
    and "\<exists>n. fExtentMap (em_make_room st) = fExtentMap st @ replicate n zero_EMEntry"
proof -
  let ?es = "fExtentMap st"
  have g: "em_geom st" using inv by (simp add: em_inv_def)
  have grow: "fExtentMap (growEMShmseg 0 st) = ?es @ replicate 100 zero_EMEntry" "fFreeList (growEMShmseg 0 st) = fFreeList st"
      "fFLShminfo (growEMShmseg 0 st) = fFLShminfo st" "mst_currentSize (fEMShminfo (growEMShmseg 0 st)) = mst_currentSize (fEMShminfo st)"
      "allocdSize (fEMShminfo (growEMShmseg 0 st)) = allocdSize (fEMShminfo st) + EM_INCREMENT"
    using g by (auto simp: growEMShmseg_def em_geom_def Let_def em_size_defs)
  have zero_ok: "il_ok (em_range zero_EMEntry)" by (simp add: zero_EMEntry_def zero_range_def il_ok_def)
  have "em_inv (growEMShmseg 0 st)"
    using inv g grow zero_ok by (auto simp: em_inv_def em_geom_def em_size_defs em_abs_append em_abs_zero)
  moreover have "has_room (growEMShmseg 0 st)" using grow(1) by (auto simp: has_room_def)
  ultimately show "em_inv (em_make_room st)" "has_room (em_make_room st)" "fFreeList (em_make_room st) = fFreeList st"
    "\<exists>n. fExtentMap (em_make_room st) = fExtentMap st @ replicate n zero_EMEntry"
    using inv em_inv_room [OF inv] grow by (auto simp: em_make_room_def intro: exI [of _ 0])
qed

text \<open>What creating an extent does to the tables.\<close>

definition created :: "int \<Rightarrow> LBID_t \<Rightarrow> EMEntry \<Rightarrow> ExtentMap \<Rightarrow> ExtentMap \<Rightarrow> bool" where
  "created sz lbid e st st' \<longleftrightarrow> em_inv st' \<and> em_range e = \<lparr>il_start = lbid, il_size = sz\<rparr> \<and>
     (\<exists>i < length (fExtentMap st). \<not> em_used (fExtentMap st ! i) \<and> fExtentMap st' = (fExtentMap st)[i := e]) \<and>
     units_of (fl_abs (fFreeList st)) = units_of (fl_abs (fFreeList st')) + range_units \<lparr>il_start = lbid, il_size = sz\<rparr>"

lemma em_abs_fill:
  "i < length es \<Longrightarrow> \<not> em_used (es ! i) \<Longrightarrow> em_used e \<Longrightarrow> em_abs (es[i := e]) = add_mset (em_range e) (em_abs es)"
  by (simp add: em_abs_def map_update fl_abs_update em_used_live)

lemma fill_slot_ok:
  assumes inv: "em_inv st" and t: "fl_taken r st st1" and i: "i < length (fExtentMap st)" "\<not> em_used (fExtentMap st ! i)" and e: "em_range e = r"
  shows "em_inv (em_resize sizeof_EMEntry (em_put i e st1))"
proof -
  have em: "fExtentMap st1 = fExtentMap st" "fEMShminfo st1 = fEMShminfo st" using t by (auto simp: fl_taken_def fl_frame_def)
  have used: "em_used e" using t e by (simp add: fl_taken_def em_used_live)
  have "\<forall>x \<in> set ((fExtentMap st)[i := e]). il_ok (em_range x)"
    using inv t e by (intro set_update_ok) (auto simp: em_inv_def fl_taken_def)
  then show ?thesis
    using inv t em_abs_fill [OF i used] e
    by (simp add: em_inv_def fl_taken_def em em_size_defs) (simp add: ac_simps)
qed

lemma create_extent_ok:
  assumes inv: "em_inv st" and room: "has_room st" and sz: "0 < sz" "sz < 2 ^ 22"
    and mk: "\<And>lbid. \<exists>e. mk lbid (fExtentMap st) = Some e \<and> em_range e = \<lparr>il_start = lbid, il_size = sz\<rparr>"
  shows "(\<forall>r \<in># fl_abs (fFreeList st). il_size r < sz) \<and> create_extent sz mk st = Some (Inl runtime_error, st) \<or>
    (\<exists>lbid e st'. create_extent sz mk st = Some (Inr (lbid, e), st') \<and> mk lbid (fExtentMap st) = Some e \<and>
       em_undo_ext st st' \<and> created sz lbid e st st')"
  using getLBIDsFromFreeList_ok [OF inv sz]
proof (elim disjE conjE exE)
  fix lbid st1
  assume st1: "getLBIDsFromFreeList sz st = Some (Inr lbid, st1)" "em_undo_ext st st1" "fl_taken \<lparr>il_start = lbid, il_size = sz\<rparr> st st1"
  then have g: "em_geom st1" "fExtentMap st1 = fExtentMap st" by (auto simp: fl_taken_def fl_frame_def)
  obtain i where fi: "find_slot (\<lambda>e. \<not> em_used e) (fExtentMap st) = Some i"
    using room by (cases "find_slot (\<lambda>e. \<not> em_used e) (fExtentMap st)") (auto simp: has_room_def find_slot_None)
  then have i: "i < length (fExtentMap st)" "\<not> em_used (fExtentMap st ! i)" by (auto simp: find_slot_Some)
  obtain e where e: "mk lbid (fExtentMap st) = Some e" "em_range e = \<lparr>il_start = lbid, il_size = sz\<rparr>" using mk by blast
  let ?st' = "em_resize sizeof_EMEntry (em_put i e st1)"
  have "create_extent sz mk st = Some (Inr (lbid, e), ?st')" using st1(1) g fi e(1) by (simp add: create_extent_def)
  moreover have "em_undo_ext st ?st'" using em_undo_ext_trans [OF st1(2)] em_undo_ext_trans [OF em_put_ext em_resize_ext] by blast
  moreover have "created sz lbid e st ?st'"
    using fill_slot_ok [OF inv st1(3) i e(2)] e(2) i st1(3) g(2) by (auto simp: created_def fl_taken_def)
  ultimately show ?thesis using e(1) by blast
qed (simp add: create_extent_def)

section \<open>The place of a new extent\<close>

text \<open>
  The layout of a column: its extents have the same size, their offsets are multiples of it, a
  segment file is on one DBRoot, and no two extents of a file have the same offset.
\<close>

definition of_column :: "OID_t \<Rightarrow> EMEntry \<Rightarrow> bool" where
  "of_column oid e \<longleftrightarrow> em_used e \<and> fileID e = oid"

definition same_file :: "EMEntry \<Rightarrow> EMEntry \<Rightarrow> bool" where
  "same_file e f \<longleftrightarrow> partitionNum e = partitionNum f \<and> segmentNum e = segmentNum f"

definition col_layout :: "OID_t \<Rightarrow> int \<Rightarrow> EMEntry list \<Rightarrow> bool" where
  "col_layout oid n es \<longleftrightarrow>
     (\<forall>e \<in> set es. of_column oid e \<longrightarrow> em_entry_ok e \<and> il_size (em_range e) = n \<and> n * 1024 dvd blockOffset e) \<and>
     (\<forall>i < length es. \<forall>j < length es. i \<noteq> j \<longrightarrow> of_column oid (es ! i) \<longrightarrow> of_column oid (es ! j) \<longrightarrow> same_file (es ! i) (es ! j) \<longrightarrow>
        dbRoot (es ! i) = dbRoot (es ! j) \<and> blockOffset (es ! i) \<noteq> blockOffset (es ! j))"

text \<open>The next partition, segment and offset are in the range of their types.\<close>

definition col_bounds :: "OID_t \<Rightarrow> int \<Rightarrow> EMEntry list \<Rightarrow> bool" where
  "col_bounds oid n es \<longleftrightarrow>
     (\<forall>e \<in> set es. of_column oid e \<longrightarrow> partitionNum e + 1 < 2 ^ 32 \<and> segmentNum e + 1 < 2 ^ 16 \<and> blockOffset e + 2 * (n * 1024) < 2 ^ 32)"

text \<open>A place no extent of the column has.\<close>

definition fresh_place :: "OID_t \<Rightarrow> int \<Rightarrow> int \<Rightarrow> EMEntry list \<Rightarrow> int \<times> int \<times> int \<Rightarrow> bool" where
  "fresh_place oid n root es = (\<lambda>(part, seg, off).
     0 \<le> part \<and> 0 \<le> seg \<and> 0 \<le> off \<and> off + n * 1024 < 2 ^ 32 \<and> n * 1024 dvd off \<and>
     (\<forall>e \<in> set es. of_column oid e \<longrightarrow> partitionNum e = part \<longrightarrow> segmentNum e = seg \<longrightarrow> dbRoot e = root \<and> blockOffset e \<noteq> off))"

lemma col_layout_same_root:
  "col_layout oid n es \<Longrightarrow> e \<in> set es \<Longrightarrow> f \<in> set es \<Longrightarrow> of_column oid e \<Longrightarrow> of_column oid f \<Longrightarrow> same_file e f \<Longrightarrow> dbRoot e = dbRoot f"
  by (auto simp: col_layout_def in_set_conv_nth)

text \<open>The segment files around the last one.\<close>

lemma target_fold:
  "case fold (target_step seg) segs (seg, seg, seg, False) of (f, l, n, b) \<Rightarrow>
     f \<le> seg \<and> seg \<le> l \<and> f \<in> insert seg (fst ` set segs) \<and> l \<in> insert seg (fst ` set segs) \<and>
     (\<forall>t \<in> fst ` set segs. f \<le> t \<and> t \<le> l) \<and>
     (if b then seg < n \<and> n \<in> fst ` set segs else \<forall>t \<in> fst ` set segs. t \<le> seg)"
proof (induction segs rule: rev_induct)
  case (snoc x segs)
  obtain f l n b where r: "fold (target_step seg) segs (seg, seg, seg, False) = (f, l, n, b)"
    by (cases "fold (target_step seg) segs (seg, seg, seg, False)")
  obtain t h where x: "x = (t, h)" by (cases x)
  show ?case using snoc r x by (auto simp: target_step_def Let_def)
qed simp

lemma target_segs_spec:
  assumes "target_segs seg segs = (f, l, n)" "seg \<in> fst ` set segs"
  shows "f \<le> seg" "f \<in> fst ` set segs" "seg \<noteq> l \<Longrightarrow> seg < n \<and> n \<in> fst ` set segs"
proof -
  obtain f' l' n' b where r: "fold (target_step seg) segs (seg, seg, seg, False) = (f', l', n', b)"
    by (cases "fold (target_step seg) segs (seg, seg, seg, False)")
  note spec = target_fold [of seg segs, unfolded r prod.case]
  show "f \<le> seg" "f \<in> fst ` set segs" "seg \<noteq> l \<Longrightarrow> seg < n \<and> n \<in> fst ` set segs"
    using assms spec r by (auto simp: target_segs_def split: if_splits)
qed

text \<open>The second scan.\<close>

lemma put_seg_keys: "fst ` set (put_seg seg off segs) = insert seg (fst ` set segs)"
  by (force simp: put_seg_def)

lemma put_seg_old:
  assumes "(s, h) \<in> set segs"
  shows "\<exists>h'. (s, h') \<in> set (put_seg seg off segs) \<and> h \<le> h'"
proof (cases "s = seg \<and> off > h")
  case True
  then have "(s, off) \<in> set (put_seg seg off segs)" using assms by (force simp: put_seg_def)
  then show ?thesis using True by auto
next
  case False
  then have "(s, h) \<in> set (put_seg seg off segs)" using assms by (force simp: put_seg_def)
  then show ?thesis by auto
qed

lemma put_seg_new: "\<exists>h'. (seg, h') \<in> set (put_seg seg off segs) \<and> off \<le> h'"
proof (cases "seg \<in> fst ` set segs")
  case True
  then obtain h where h: "(seg, h) \<in> set segs" by auto
  show ?thesis
  proof (cases "off > h")
    case True
    then have "(seg, off) \<in> set (put_seg seg off segs)" using h by (force simp: put_seg_def)
    then show ?thesis by auto
  next
    case False
    then show ?thesis using put_seg_old [OF h, of seg off] by force
  qed
qed (auto simp: put_seg_def)

lemma fold_put_seg_keys:
  "fst ` set (fold (\<lambda>e. put_seg (segmentNum e) (blockOffset e)) es segs) = fst ` set segs \<union> segmentNum ` set es"
  by (induction es arbitrary: segs) (auto simp: put_seg_keys)

lemma fold_put_seg_old:
  "(x, h) \<in> set segs \<Longrightarrow> \<exists>h'. (x, h') \<in> set (fold (\<lambda>e. put_seg (segmentNum e) (blockOffset e)) es segs) \<and> h \<le> h'"
proof (induction es arbitrary: segs h)
  case (Cons a es)
  obtain h1 where h1: "(x, h1) \<in> set (put_seg (segmentNum a) (blockOffset a) segs)" "h \<le> h1" using put_seg_old [OF Cons.prems] by blast
  show ?case using Cons.IH [OF h1(1)] h1(2) by (auto intro: order_trans)
qed auto

lemma fold_put_seg_new:
  "e \<in> set es \<Longrightarrow> \<exists>h'. (segmentNum e, h') \<in> set (fold (\<lambda>e. put_seg (segmentNum e) (blockOffset e)) es segs) \<and> blockOffset e \<le> h'"
proof (induction es arbitrary: segs)
  case (Cons a es)
  obtain h1 where h1: "(segmentNum a, h1) \<in> set (put_seg (segmentNum a) (blockOffset a) segs)" "blockOffset a \<le> h1" using put_seg_new by blast
  show ?case using Cons fold_put_seg_old [OF h1(1), of es] h1(2) by (auto intro: order_trans)
qed simp

lemma fold_max_ge: "(\<forall>x \<in> set xs. f x \<le> fold (\<lambda>x m. max m (f x)) xs (m :: int)) \<and> m \<le> fold (\<lambda>x m. max m (f x)) xs m"
  by (induction xs rule: rev_induct) auto

lemma fold_max_mem: "fold (\<lambda>x m. max m (f x)) xs (m :: int) \<in> insert m (f ` set xs)"
  by (induction xs rule: rev_induct) (auto simp: max_def)

text \<open>The second scan, field by field.\<close>

lemma seg_scan_fields:
  assumes "u32_of (part + 1) = part + 1"
  shows "partHighSegNext (fold (seg_scan_step oid root part) es s) =
      fold (\<lambda>e m. max m (segmentNum e)) (filter (\<lambda>e. of_column oid e \<and> partitionNum e = part + 1) es) (partHighSegNext s)"
    "partHighSeg (fold (seg_scan_step oid root part) es s) =
      fold (\<lambda>e m. max m (segmentNum e)) (filter (\<lambda>e. of_column oid e \<and> partitionNum e = part) es) (partHighSeg s)"
    "targetDbRootSegs (fold (seg_scan_step oid root part) es s) =
      fold (\<lambda>e. put_seg (segmentNum e) (blockOffset e))
        (filter (\<lambda>e. (of_column oid e \<and> partitionNum e = part) \<and> dbRoot e = root) es) (targetDbRootSegs s)"
  by (induction es arbitrary: s) (auto simp: seg_scan_step_def assms of_column_def Let_def)

text \<open>What the second scan knows about the column, after the last extent \<open>l\<close> on the DBRoot.\<close>

lemma seg_scan_ok:
  assumes u: "u32_of (partitionNum l + 1) = partitionNum l + 1" and l: "l \<in> set es" "of_column oid l" "dbRoot l = root"
  defines "s \<equiv> seg_scan oid root es l"
  shows "e \<in> set es \<Longrightarrow> of_column oid e \<Longrightarrow> partitionNum e = partitionNum l + 1 \<Longrightarrow> segmentNum e \<le> partHighSegNext s"
    "e \<in> set es \<Longrightarrow> of_column oid e \<Longrightarrow> partitionNum e = partitionNum l \<Longrightarrow> segmentNum e \<le> partHighSeg s"
    "e \<in> set es \<Longrightarrow> of_column oid e \<Longrightarrow> partitionNum e = partitionNum l \<Longrightarrow> dbRoot e = root \<Longrightarrow>
       \<exists>h. (segmentNum e, h) \<in> set (targetDbRootSegs s) \<and> blockOffset e \<le> h"
    "x \<in> fst ` set (targetDbRootSegs s) \<Longrightarrow> \<exists>e \<in> set es. of_column oid e \<and> partitionNum e = partitionNum l \<and> dbRoot e = root \<and> segmentNum e = x"
    "partHighSegNext s = -1 \<or> (\<exists>e \<in> set es. of_column oid e \<and> segmentNum e = partHighSegNext s)"
    "\<exists>e \<in> set es. of_column oid e \<and> segmentNum e = partHighSeg s"
proof -
  let ?in = "\<lambda>p e. of_column oid e \<and> partitionNum e = p"
  have s: "partHighSegNext s = fold (\<lambda>e m. max m (segmentNum e)) (filter (?in (partitionNum l + 1)) es) (-1)"
      "partHighSeg s = fold (\<lambda>e m. max m (segmentNum e)) (filter (?in (partitionNum l)) es) (segmentNum l)"
      "targetDbRootSegs s = fold (\<lambda>e. put_seg (segmentNum e) (blockOffset e))
         (filter (\<lambda>e. ?in (partitionNum l) e \<and> dbRoot e = root) es) [(segmentNum l, blockOffset l)]"
    unfolding s_def seg_scan_def seg_scan_fields [OF u] by simp_all
  show "segmentNum e \<le> partHighSegNext s" if "e \<in> set es" "of_column oid e" "partitionNum e = partitionNum l + 1"
    using that fold_max_ge [of "filter (?in (partitionNum l + 1)) es" segmentNum "-1"] unfolding s by auto
  show "segmentNum e \<le> partHighSeg s" if "e \<in> set es" "of_column oid e" "partitionNum e = partitionNum l"
    using that fold_max_ge [of "filter (?in (partitionNum l)) es" segmentNum "segmentNum l"] unfolding s by auto
  show "\<exists>h. (segmentNum e, h) \<in> set (targetDbRootSegs s) \<and> blockOffset e \<le> h"
    if "e \<in> set es" "of_column oid e" "partitionNum e = partitionNum l" "dbRoot e = root"
    unfolding s by (rule fold_put_seg_new) (use that in simp)
  show "\<exists>e \<in> set es. of_column oid e \<and> partitionNum e = partitionNum l \<and> dbRoot e = root \<and> segmentNum e = x"
    if "x \<in> fst ` set (targetDbRootSegs s)" using that l unfolding s fold_put_seg_keys by auto
  show "partHighSegNext s = -1 \<or> (\<exists>e \<in> set es. of_column oid e \<and> segmentNum e = partHighSegNext s)"
    using fold_max_mem [of segmentNum "filter (?in (partitionNum l + 1)) es" "-1"] unfolding s by auto
  show "\<exists>e \<in> set es. of_column oid e \<and> segmentNum e = partHighSeg s"
    using fold_max_mem [of segmentNum "filter (?in (partitionNum l)) es" "segmentNum l"] l unfolding s by auto
qed

text \<open>The last extent of a well laid out column on a DBRoot.\<close>

definition last_on_root :: "OID_t \<Rightarrow> int \<Rightarrow> int \<Rightarrow> EMEntry list \<Rightarrow> EMEntry \<Rightarrow> bool" where
  "last_on_root oid n root es l \<longleftrightarrow> col_layout oid n es \<and> col_bounds oid n es \<and> 0 < n \<and> n < 2 ^ 20 \<and>
     l \<in> set es \<and> of_column oid l \<and> dbRoot l = root \<and> (\<forall>e \<in> set es. of_column oid e \<longrightarrow> dbRoot e = root \<longrightarrow> ext_pos e \<le> ext_pos l)"

lemma column_entry_bounds:
  assumes "last_on_root oid n root es l" "e \<in> set es" "of_column oid e"
  shows "0 \<le> partitionNum e" "partitionNum e + 1 < 2 ^ 32" "0 \<le> segmentNum e" "segmentNum e + 1 < 2 ^ 16"
    "0 \<le> blockOffset e" "blockOffset e + 2 * (n * 1024) < 2 ^ 32" "n * 1024 dvd blockOffset e" "il_size (em_range e) = n"
  using assms by (auto simp: last_on_root_def col_layout_def col_bounds_def em_entry_ok_def)

lemma last_on_rootD:
  assumes "last_on_root oid n root es l"
  shows "col_layout oid n es" "0 < n" "l \<in> set es" "of_column oid l" "dbRoot l = root" "u32_of (partitionNum l + 1) = partitionNum l + 1"
proof -
  show l: "col_layout oid n es" "0 < n" "l \<in> set es" "of_column oid l" "dbRoot l = root" using assms by (auto simp: last_on_root_def)
  show "u32_of (partitionNum l + 1) = partitionNum l + 1" using column_entry_bounds [OF assms l(3,4)] by (intro u32_id) auto
qed

lemma fresh_placeI:
  assumes "0 \<le> part" "0 \<le> seg" "0 \<le> off" "off + n * 1024 < 2 ^ 32" "n * 1024 dvd off"
    and "\<And>e. e \<in> set es \<Longrightarrow> of_column oid e \<Longrightarrow> partitionNum e = part \<Longrightarrow> segmentNum e = seg \<Longrightarrow> dbRoot e = root \<and> blockOffset e \<noteq> off"
  shows "fresh_place oid n root es (part, seg, off)"
  using assms by (simp add: fresh_place_def)

text \<open>A segment file of the DBRoot in the last partition holds no extent behind the last one.\<close>

lemma target_file_before_last:
  assumes l: "last_on_root oid n root es l" and x: "x \<in> fst ` set (targetDbRootSegs (seg_scan oid root es l))"
    and e: "e \<in> set es" "of_column oid e" "partitionNum e = partitionNum l" "segmentNum e = x"
  shows "dbRoot e = root" "blockOffset e < blockOffset l \<or> blockOffset e = blockOffset l \<and> x \<le> segmentNum l"
proof -
  note D = last_on_rootD [OF l]
  from seg_scan_ok(4) [OF D(6,3,4,5) x] obtain e' where
    "e' \<in> set es" "of_column oid e'" "partitionNum e' = partitionNum l" "dbRoot e' = root" "segmentNum e' = x" by blast
  then show r: "dbRoot e = root" using col_layout_same_root [OF D(1) e(1) _ e(2), of e'] e by (simp add: same_file_def)
  have "ext_pos e \<le> ext_pos l" using l e r by (simp add: last_on_root_def)
  then show "blockOffset e < blockOffset l \<or> blockOffset e = blockOffset l \<and> x \<le> segmentNum l"
    using e by (auto simp: ext_pos_def less_eq_prod_def)
qed

text \<open>The four places the code chooses from.\<close>

lemma next_partition_fresh:
  assumes l: "last_on_root oid n root es l"
  shows "fresh_place oid n root es (next_partition l (seg_scan oid root es l))"
proof -
  let ?s = "seg_scan oid root es l"
  note D = last_on_rootD [OF l] and B = column_entry_bounds [OF l] and sc = seg_scan_ok [OF last_on_rootD(6,3,4,5) [OF l]]
  have hs: "-1 \<le> partHighSegNext ?s \<and> partHighSegNext ?s + 1 < 2 ^ 16" using sc(5) B(3,4) by force
  then have seg: "(if partHighSegNext ?s = -1 then 0 else u16_of (partHighSegNext ?s + 1)) = partHighSegNext ?s + 1"
    using u16_id [of "partHighSegNext ?s + 1"] by auto
  have "segmentNum e \<noteq> partHighSegNext ?s + 1" if "e \<in> set es" "of_column oid e" "partitionNum e = partitionNum l + 1" for e
    using sc(1) [OF that] by simp
  moreover have "n < 2 ^ 20" using l by (simp add: last_on_root_def)
  ultimately show ?thesis unfolding next_partition_def D(6) seg using B(1) [OF D(3,4)] hs D(2) by (auto simp: fresh_place_def)
qed

lemma next_stripe_fresh:
  assumes l: "last_on_root oid n root es l" and f: "f \<in> fst ` set (targetDbRootSegs (seg_scan oid root es l))"
  shows "fresh_place oid n root es (same_partition l f f True)"
proof -
  note D = last_on_rootD [OF l] and B = column_entry_bounds [OF l last_on_rootD(3,4) [OF l]]
  have o: "u32_of (n * 1024 + blockOffset l) = n * 1024 + blockOffset l" using B D(2) by (intro u32_id) auto
  obtain e where "e \<in> set es" "of_column oid e" "segmentNum e = f" using seg_scan_ok(4) [OF D(6,3,4,5) f] by blast
  then have "0 \<le> f" using column_entry_bounds(3) [OF l] by blast
  moreover have "dbRoot e = root \<and> blockOffset e \<noteq> n * 1024 + blockOffset l"
    if "e \<in> set es" "of_column oid e" "partitionNum e = partitionNum l" "segmentNum e = f" for e
    using target_file_before_last [OF l f that] D(2) by auto
  ultimately show ?thesis unfolding same_partition_def using B D(2) by (intro fresh_placeI) (simp_all add: o)
qed

lemma next_file_fresh:
  assumes l: "last_on_root oid n root es l" and x: "x \<in> fst ` set (targetDbRootSegs (seg_scan oid root es l))" "segmentNum l < x"
  shows "fresh_place oid n root es (same_partition l f x False)"
proof -
  note D = last_on_rootD [OF l] and B = column_entry_bounds [OF l last_on_rootD(3,4) [OF l]]
  obtain e' where e': "e' \<in> set es" "of_column oid e'" "partitionNum e' = partitionNum l" "segmentNum e' = x"
    using seg_scan_ok(4) [OF D(6,3,4,5) x(1)] by blast
  have below: "dbRoot e = root \<and> blockOffset e < blockOffset l"
    if "e \<in> set es" "of_column oid e" "partitionNum e = partitionNum l" "segmentNum e = x" for e
    using target_file_before_last [OF l x(1) that] x(2) by auto
  have "0 < blockOffset l" using below [OF e'] column_entry_bounds(5) [OF l e'(1,2)] by linarith
  moreover have "0 \<le> x" using column_entry_bounds(3) [OF l e'(1,2)] e'(4) by simp
  moreover have "dbRoot e = root \<and> blockOffset e \<noteq> blockOffset l"
    if "e \<in> set es" "of_column oid e" "partitionNum e = partitionNum l" "segmentNum e = x" for e using below [OF that] by simp
  ultimately show ?thesis using B D(2) by (auto simp: same_partition_def intro!: fresh_placeI)
qed

lemma new_file_fresh:
  assumes l: "last_on_root oid n root es l" and f: "f \<le> segmentNum l"
    and flat: "\<not> (\<exists>(_, fbo) \<in> set (targetDbRootSegs (seg_scan oid root es l)). fbo > 0)"
  shows "fresh_place oid n root es (same_partition l f (u16_of (partHighSeg (seg_scan oid root es l) + 1)) False)"
proof -
  let ?s = "seg_scan oid root es l"
  note D = last_on_rootD [OF l] and B = column_entry_bounds [OF l] and sc = seg_scan_ok [OF last_on_rootD(6,3,4,5) [OF l]]
  obtain h where "(segmentNum l, h) \<in> set (targetDbRootSegs ?s)" "blockOffset l \<le> h" using sc(3) [OF D(3,4) refl D(5)] by blast
  then have "blockOffset l = 0" using flat B(5) [OF D(3,4)] by force
  moreover have hs: "0 \<le> partHighSeg ?s \<and> partHighSeg ?s + 1 < 2 ^ 16" using sc(6) B(3,4) by force
  then have "u16_of (partHighSeg ?s + 1) = partHighSeg ?s + 1" by (intro u16_id) auto
  moreover have "f < partHighSeg ?s + 1" using f sc(2) [OF D(3,4) refl] by simp
  ultimately show ?thesis unfolding same_partition_def using B [OF D(3,4)] D(2) hs by (intro fresh_placeI) (auto dest!: sc(2))
qed

lemma choose_place_fresh:
  assumes l: "last_on_root oid n root es l" and r: "choose_place cfg w l (seg_scan oid root es l) = Some place"
  shows "fresh_place oid n root es place"
proof -
  let ?segs = "targetDbRootSegs (seg_scan oid root es l)"
  note D = last_on_rootD [OF l]
  obtain f lst nx where t: "target_segs (segmentNum l) ?segs = (f, lst, nx)" by (cases "target_segs (segmentNum l) ?segs")
  have "segmentNum l \<in> fst ` set ?segs" using seg_scan_ok(3) [OF D(6,3,4,5) D(3,4) refl D(5)] by force
  note ts = target_segs_spec [OF t this]
  have "fresh_place oid n root es (same_partition l f nx False)" if "segmentNum l \<noteq> lst" using ts(3) [OF that] next_file_fresh [OF l] by blast
  then show ?thesis using r next_partition_fresh [OF l] next_stripe_fresh [OF l ts(2)] new_file_fresh [OF l ts(1)]
    by (auto simp: choose_place_def Let_def t split: if_splits)
qed

section \<open>The first scan\<close>

lemma create_scan_fold:
  "case fold (create_scan_step oid root part es) [0..<k] ((0, 0, 0, None), None) of (lst, hi) \<Rightarrow>
     lst = fold (last_extent_step (\<lambda>e. em_used e \<and> fileID e = oid \<and> dbRoot e = root) es) [0..<k] (0, 0, 0, None) \<and>
     (snd (snd (snd lst)) = None \<longrightarrow>
        (\<forall>j < k. of_column oid (es ! j) \<and> partitionNum (es ! j) = part \<longrightarrow> (\<exists>h. hi = Some h \<and> segmentNum (es ! j) \<le> h)) \<and>
        (\<forall>h. hi = Some h \<longrightarrow> (\<exists>j < k. of_column oid (es ! j) \<and> segmentNum (es ! j) = h)))"
proof (induction k)
  case (Suc k)
  obtain lst hi where r: "fold (create_scan_step oid root part es) [0..<k] ((0, 0, 0, None), None) = (lst, hi)" by fastforce
  let ?P = "\<lambda>e. em_used e \<and> fileID e = oid \<and> dbRoot e = root"
  let ?lst' = "last_extent_step ?P es k lst" and ?e = "es ! k"
  define hit where "hit \<longleftrightarrow> of_column oid ?e \<and> snd (snd (snd ?lst')) = None \<and> partitionNum ?e = part"
  define hi' where "hi' = (if hit then Some (case hi of None \<Rightarrow> segmentNum ?e | Some h \<Rightarrow> max h (segmentNum ?e)) else hi)"
  have st: "fold (create_scan_step oid root part es) [0..<Suc k] ((0, 0, 0, None), None) = (?lst', hi')"
    using r by (cases hi) (simp_all add: create_scan_step_def Let_def hi'_def hit_def of_column_def max_def)
  have mono: "snd (snd (snd lst)) = None" if "snd (snd (snd ?lst')) = None"
    using that by (cases lst) (simp add: last_extent_step_def Let_def split: if_splits)
  have "lst = fold (last_extent_step ?P es) [0..<k] (0, 0, 0, None)" using Suc r by simp
  moreover have "(\<forall>j < Suc k. of_column oid (es ! j) \<and> partitionNum (es ! j) = part \<longrightarrow> (\<exists>h. hi' = Some h \<and> segmentNum (es ! j) \<le> h)) \<and>
      (\<forall>h. hi' = Some h \<longrightarrow> (\<exists>j < Suc k. of_column oid (es ! j) \<and> segmentNum (es ! j) = h))" if n: "snd (snd (snd ?lst')) = None"
  proof -
    have IH: "\<forall>j < k. of_column oid (es ! j) \<and> partitionNum (es ! j) = part \<longrightarrow> (\<exists>h. hi = Some h \<and> segmentNum (es ! j) \<le> h)"
      "\<forall>h. hi = Some h \<longrightarrow> (\<exists>j < k. of_column oid (es ! j) \<and> segmentNum (es ! j) = h)" using Suc r mono [OF n] by simp_all
    show ?thesis
    proof (cases hi)
      case None
      then show ?thesis using IH n by (auto simp: hi'_def hit_def less_Suc_eq)
    next
      case (Some h)
      obtain j where j: "j < k" "of_column oid (es ! j)" "segmentNum (es ! j) = h" using IH(2) Some by auto
      have "\<exists>j < Suc k. of_column oid (es ! j) \<and> segmentNum (es ! j) = h'" if "hi' = Some h'" for h'
        using that Some j by (cases "hit \<and> h < segmentNum ?e") (auto simp: hi'_def hit_def max_def less_Suc_eq split: if_splits)
      moreover obtain h' where h': "hi' = Some h'" "h \<le> h'" "hit \<longrightarrow> segmentNum ?e \<le> h'"
        using Some by (cases hit) (simp_all add: hi'_def)
      have "segmentNum (es ! j) \<le> h'" if "j < Suc k" "of_column oid (es ! j)" "partitionNum (es ! j) = part" for j
      proof (cases "j = k")
        case True
        then show ?thesis using that h'(3) n by (simp add: hit_def)
      next
        case False
        then have "j < k" using that(1) by simp
        then show ?thesis using that(2,3) IH(1) Some h'(2) by force
      qed
      ultimately show ?thesis using h'(1) by simp
    qed
  qed
  ultimately show ?case unfolding st by simp
qed simp

lemma column_place_fresh:
  assumes lay: "col_layout oid n es" "col_bounds oid n es" and n: "0 < n" "n < 2 ^ 20" and part: "0 \<le> part"
    and r: "column_place cfg oid w root part es = Some place"
  shows "fresh_place oid n root es place"
proof -
  let ?P = "\<lambda>e. em_used e \<and> fileID e = oid \<and> dbRoot e = root"
  obtain lst hi where f: "fold (create_scan_step oid root part es) [0..<length es] ((0, 0, 0, None), None) = (lst, hi)" by fastforce
  note cs = create_scan_fold [where k = "length es" and oid = oid and root = root and part = part and es = es, unfolded f prod.case]
  have "\<forall>j \<in> set [0..<length es]. ?P (es ! j) \<longrightarrow> em_entry_ok (es ! j)" using lay(1) by (simp add: col_layout_def of_column_def)
  from last_extent_fold [OF this] cs obtain idx where
    idx: "lst = (case idx of None \<Rightarrow> (0, 0, 0, None) | Some i \<Rightarrow> (partitionNum (es ! i), blockOffset (es ! i), segmentNum (es ! i), Some i))"
    "is_last ?P es {0..<length es} idx" by auto
  show ?thesis
  proof (cases idx)
    case None
    have "place = (part, case hi of None \<Rightarrow> 0 | Some h \<Rightarrow> u16_of (h + 1), 0)" using r f idx(1) None by (simp add: column_place_def create_scan_def)
    moreover have "u16_of (h + 1) = h + 1 \<and> 0 \<le> h" if "hi = Some h" for h
    proof -
      from cs that None idx(1) obtain j where "j < length es" "of_column oid (es ! j)" "segmentNum (es ! j) = h" by auto
      then have "0 \<le> h \<and> h + 1 < 2 ^ 16" using lay by (auto simp: col_layout_def col_bounds_def em_entry_ok_def)
      then show ?thesis by (auto intro: u16_id)
    qed
    moreover have "\<exists>h. hi = Some h \<and> segmentNum e \<le> h" if "e \<in> set es" "of_column oid e" "partitionNum e = part" for e
      using that cs None idx(1) by (auto simp: in_set_conv_nth)
    ultimately show ?thesis using part n by (cases hi) (fastforce simp: fresh_place_def)+
  next
    case (Some i)
    have "last_on_root oid n root es (es ! i)"
      using idx(2) Some lay n by (auto simp: last_on_root_def is_last_def of_column_def in_set_conv_nth)
    moreover have "choose_place cfg w (es ! i) (seg_scan oid root es (es ! i)) = Some place"
      using r f idx(1) Some by (simp add: column_place_def create_scan_def)
    ultimately show ?thesis by (rule choose_place_fresh)
  qed
qed

section \<open>The layout is kept\<close>

lemma col_layout_fill:
  assumes lay: "col_layout oid n es" and i: "i < length es" "\<not> em_used (es ! i)"
    and f: "fresh_place oid n root es (partitionNum e, segmentNum e, blockOffset e)" and e: "dbRoot e = root" "fileID e = oid" "em_entry_ok e" "il_size (em_range e) = n"
  shows "col_layout oid n (es[i := e])"
proof -
  have d: "n * 1024 dvd blockOffset e" using f by (simp add: fresh_place_def)
  have old: "dbRoot (es ! j) = dbRoot e \<and> blockOffset (es ! j) \<noteq> blockOffset e"
    if "j < length es" "of_column oid (es ! j)" "same_file (es ! j) e" for j using f that e(1) by (auto simp: fresh_place_def same_file_def)
  have "of_column oid x \<longrightarrow> em_entry_ok x \<and> il_size (em_range x) = n \<and> n * 1024 dvd blockOffset x" if "x \<in> set (es[i := e])" for x
    using that lay d e set_update_subset_insert [of es i e] by (auto simp: col_layout_def)
  moreover have "dbRoot (es[i := e] ! j) = dbRoot (es[i := e] ! k) \<and> blockOffset (es[i := e] ! j) \<noteq> blockOffset (es[i := e] ! k)"
    if "j < length es" "k < length es" "j \<noteq> k" "of_column oid (es[i := e] ! j)" "of_column oid (es[i := e] ! k)" "same_file (es[i := e] ! j) (es[i := e] ! k)" for j k
  proof (cases "j = i \<or> k = i")
    case True
    then show ?thesis using that i old [of j] old [of k] by (auto simp: same_file_def)
  next
    case False
    then show ?thesis using that lay by (simp add: col_layout_def)
  qed
  ultimately show ?thesis by (simp add: col_layout_def)
qed

lemma col_append_empty:
  "col_layout oid n es \<Longrightarrow> col_layout oid n (es @ replicate k zero_EMEntry)"
  "col_bounds oid n es \<Longrightarrow> col_bounds oid n (es @ replicate k zero_EMEntry)"
proof -
  let ?es = "es @ replicate k zero_EMEntry"
  have z: "\<not> of_column oid zero_EMEntry" by (simp add: of_column_def)
  show "col_bounds oid n es \<Longrightarrow> col_bounds oid n ?es" using z by (auto simp: col_bounds_def)
  have old: "i < length es \<and> ?es ! i = es ! i" if "of_column oid (?es ! i)" "i < length ?es" for i
    using that z by (cases "i < length es") (auto simp: nth_append)
  show "col_layout oid n ?es" if lay: "col_layout oid n es"
  proof -
    have "dbRoot (?es ! i) = dbRoot (?es ! j) \<and> blockOffset (?es ! i) \<noteq> blockOffset (?es ! j)"
      if "i < length ?es" "j < length ?es" "i \<noteq> j" "of_column oid (?es ! i)" "of_column oid (?es ! j)" "same_file (?es ! i) (?es ! j)" for i j
      using that old [OF that(4,1)] old [OF that(5,2)] lay by (simp add: col_layout_def)
    then show ?thesis using lay z by (auto simp: col_layout_def)
  qed
qed

text \<open>Two extents of a file with different offsets do not overlap.\<close>

lemma col_layout_apart:
  assumes lay: "col_layout oid n es" and n: "0 < n"
    and i: "i < length es" "j < length es" "i \<noteq> j" "of_column oid (es ! i)" "of_column oid (es ! j)" "same_file (es ! i) (es ! j)"
  shows "blockOffset (es ! i) + n * 1024 \<le> blockOffset (es ! j) \<or> blockOffset (es ! j) + n * 1024 \<le> blockOffset (es ! i)"
proof -
  have "n * 1024 dvd blockOffset (es ! i)" "n * 1024 dvd blockOffset (es ! j)" "blockOffset (es ! i) \<noteq> blockOffset (es ! j)"
    using lay i by (simp_all add: col_layout_def)
  then have "n * 1024 dvd blockOffset (es ! j) - blockOffset (es ! i)" "blockOffset (es ! j) - blockOffset (es ! i) \<noteq> 0" by (simp_all add: dvd_diff)
  then have "n * 1024 \<le> \<bar>blockOffset (es ! j) - blockOffset (es ! i)\<bar>" using n by (intro zdvd_imp_le) auto
  then show ?thesis by linarith
qed

section \<open>The functions\<close>

lemma EXTENT_SIZE_width:
  assumes "0 < w" "w < 512"
  shows "EXTENT_SIZE w = 1024 * w" "EXTENT_SIZE w div 1024 = w"
proof -
  have "u32_of (ExtentRows * w) = ExtentRows * w" using assms by (intro u32_id) (simp_all add: ExtentRows_def)
  then show "EXTENT_SIZE w = 1024 * w" by (simp add: EXTENT_SIZE_def ExtentRows_def BLOCK_SIZE_def)
  then show "EXTENT_SIZE w div 1024 = w" by simp
qed

text \<open>What a successful creation does: one more extent, whose blocks were free.\<close>

definition allocated :: "int \<Rightarrow> LBID_t \<Rightarrow> EMEntry \<Rightarrow> ExtentMap \<Rightarrow> ExtentMap \<Rightarrow> bool" where
  "allocated sz lbid e st st' \<longleftrightarrow> em_inv st' \<and> em_range e = \<lparr>il_start = lbid, il_size = sz\<rparr> \<and>
     mset (filter em_used (fExtentMap st')) = add_mset e (mset (filter em_used (fExtentMap st))) \<and>
     units_of (fl_abs (fFreeList st)) = units_of (fl_abs (fFreeList st')) + range_units \<lparr>il_start = lbid, il_size = sz\<rparr>"

definition em_unchanged :: "ExtentMap \<Rightarrow> ExtentMap \<Rightarrow> bool" where
  "em_unchanged st st' \<longleftrightarrow> em_inv st' \<and> fFreeList st' = fFreeList st \<and> filter em_used (fExtentMap st') = filter em_used (fExtentMap st)"

lemma mset_used_fill:
  "i < length es \<Longrightarrow> \<not> em_used (es ! i) \<Longrightarrow> em_used e \<Longrightarrow> mset (filter em_used (es[i := e])) = add_mset e (mset (filter em_used es))"
  by (simp add: mset_update filter_diff_mset)

lemma em_make_room_used: "em_inv st \<Longrightarrow> filter em_used (fExtentMap (em_make_room st)) = filter em_used (fExtentMap st)"
  using em_make_room_ok(4) [of st] by auto

lemma created_allocated:
  assumes inv: "em_inv st" and c: "created sz lbid e (em_make_room st) st'" and sz: "0 < sz"
  shows "allocated sz lbid e st st'"
proof -
  from c obtain i where c': "em_inv st'" "em_range e = \<lparr>il_start = lbid, il_size = sz\<rparr>" "i < length (fExtentMap (em_make_room st))"
      "\<not> em_used (fExtentMap (em_make_room st) ! i)" "fExtentMap st' = (fExtentMap (em_make_room st))[i := e]"
      "units_of (fl_abs (fFreeList st)) = units_of (fl_abs (fFreeList st')) + range_units \<lparr>il_start = lbid, il_size = sz\<rparr>"
    using em_make_room_ok(3) [OF inv] by (auto simp: created_def)
  have "em_used e" using c'(2) sz by (simp add: em_used_def)
  from mset_used_fill [OF c'(3,4) this] show ?thesis using c' em_make_room_used [OF inv] by (simp add: allocated_def)
qed

lemma create_in_room:
  assumes inv: "em_inv st" and sz: "0 < sz" "sz < 512"
    and mk: "\<And>lbid. \<exists>e. mk lbid (fExtentMap (em_make_room st)) = Some e \<and> em_range e = \<lparr>il_start = lbid, il_size = sz\<rparr>"
  obtains (full) "\<forall>r \<in># fl_abs (fFreeList st). il_size r < sz" "create_extent sz mk (em_make_room st) = Some (Inl runtime_error, em_make_room st)"
      "em_unchanged st (em_make_room st)"
    | (ok) lbid e st' where "create_extent sz mk (em_make_room st) = Some (Inr (lbid, e), st')" "mk lbid (fExtentMap (em_make_room st)) = Some e"
      "em_undo_ext (em_make_room st) st'" "created sz lbid e (em_make_room st) st'" "allocated sz lbid e st st'"
proof -
  note r = em_make_room_ok [OF inv]
  have "sz < 2 ^ 22" using sz by simp
  with create_extent_ok [where mk = mk, OF r(1,2) sz(1) _ mk] show thesis
    using that created_allocated [OF inv _ sz(1)] r em_make_room_used [OF inv] by (auto simp: em_unchanged_def)
qed

lemma new_column_entry_simps [simp]:
  "em_range (new_column_entry lbid sz oid ty w root (p, s, off)) = \<lparr>il_start = lbid, il_size = sz\<rparr>"
  "fileID (new_column_entry lbid sz oid ty w root (p, s, off)) = oid" "blockOffset (new_column_entry lbid sz oid ty w root (p, s, off)) = off"
  "partitionNum (new_column_entry lbid sz oid ty w root (p, s, off)) = p" "segmentNum (new_column_entry lbid sz oid ty w root (p, s, off)) = s"
  "dbRoot (new_column_entry lbid sz oid ty w root (p, s, off)) = root" "em_status (new_column_entry lbid sz oid ty w root (p, s, off)) = EXTENTUNAVAILABLE"
  by (simp_all add: new_column_entry_def)

lemma column_mk:
  assumes "dbRootCount cfg \<noteq> 0"
  shows "\<exists>e. map_option (new_column_entry lbid sz oid ty w root) (column_place cfg oid w root part es) = Some e \<and> em_range e = \<lparr>il_start = lbid, il_size = sz\<rparr>"
proof -
  have "choose_place cfg w l s \<noteq> None" for l s using assms by (simp add: choose_place_def Let_def case_prod_beta)
  then have "column_place cfg oid w root part es \<noteq> None" by (simp add: column_place_def split: prod.split option.split)
  then obtain p s off where "column_place cfg oid w root part es = Some (p, s, off)" by auto
  then show ?thesis by simp
qed

definition em_lock :: "bool \<Rightarrow> ExtentMap \<Rightarrow> ExtentMap" where
  "em_lock useLock st = (if useLock then st\<lparr>emLocked := True, flLocked := True\<rparr> else st)"

lemma em_lock_simps [simp]:
  "em_inv (em_lock b st) = em_inv st" "fExtentMap (em_lock b st) = fExtentMap st" "fFreeList (em_lock b st) = fFreeList st"
  by (simp_all add: em_lock_def)

lemma em_lock_eq: "em_inv st \<Longrightarrow> (if b then grabFreeList (grabEMEntryTable st) else st) = em_lock b st"
  by (simp add: em_lock_def em_inv_def)

lemma createColumnExtent_DBroot_cases:
  assumes inv: "em_inv st" and w: "0 < w" "w < 512" and cfg: "dbRootCount cfg \<noteq> 0"
  obtains (full) "\<forall>r \<in># fl_abs (fFreeList st). il_size r < w" "em_unchanged st (em_make_room (em_lock b st))"
      "createColumnExtent_DBroot cfg oid w root ty part b st = Some (Inl runtime_error, em_make_room (em_lock b st))"
    | (ok) p s off lbid e st' where
      "createColumnExtent_DBroot cfg oid w root ty part b st = Some (Inr (p, s, lbid, 1024 * w, off), st')"
      "column_place cfg oid w root part (fExtentMap (em_make_room (em_lock b st))) = Some (p, s, off)" "e = new_column_entry lbid w oid ty w root (p, s, off)"
      "em_undo_ext (em_make_room (em_lock b st)) st'" "created w lbid e (em_make_room (em_lock b st)) st'" "allocated w lbid e st st'"
proof -
  let ?st = "em_lock b st"
  note def = createColumnExtent_DBroot_def [of cfg oid w root ty part b st, unfolded em_lock_eq [OF inv] EXTENT_SIZE_width [OF w] Let_def createColumnExtent_DBroot_impl_def]
  have inv': "em_inv ?st" using inv by simp
  from column_mk [OF cfg]
  show thesis
  proof (rule create_in_room [OF inv' w, where mk = "\<lambda>lbid es. map_option (new_column_entry lbid w oid ty w root) (column_place cfg oid w root part es)"], goal_cases)
    case 1
    then show ?case using full def by (simp add: em_unchanged_def)
  next
    case (2 lbid e st')
    then obtain p s off where p: "column_place cfg oid w root part (fExtentMap (em_make_room ?st)) = Some (p, s, off)" "e = new_column_entry lbid w oid ty w root (p, s, off)"
      by auto
    have "createColumnExtent_DBroot cfg oid w root ty part b st = Some (Inr (p, s, lbid, 1024 * w, off), st')" using 2(1) p(2) def by simp
    from ok [OF this p 2(3,4)] 2(5) show ?case by (simp add: allocated_def)
  qed
qed

lemma new_entry_ok:
  assumes "em_inv st'" "em_used e" "e \<in> set (fExtentMap st')" "il_size (em_range e) < 2 ^ 20" "0 \<le> fileID e"
    and "0 \<le> partitionNum e" "0 \<le> segmentNum e" "0 \<le> blockOffset e" "blockOffset e + il_size (em_range e) * 1024 < 2 ^ 32"
  shows "em_entry_ok e"
  using assms by (auto simp: em_inv_def il_ok_def em_entry_ok_def)

text \<open>An extent that goes to a fresh place keeps the layout of its column.\<close>

lemma created_layout:
  assumes inv: "em_inv st" and lay: "col_layout oid n (fExtentMap st)" and n: "0 < n" "n < 512" and oid: "0 \<le> oid"
    and c: "created n lbid e (em_make_room st) st'" and e: "fileID e = oid" "dbRoot e = root"
    and f: "fresh_place oid n root (fExtentMap (em_make_room st)) (partitionNum e, segmentNum e, blockOffset e)"
  shows "col_layout oid n (fExtentMap st')"
proof -
  let ?es = "fExtentMap (em_make_room st)"
  from c obtain i where i: "i < length ?es" "\<not> em_used (?es ! i)" "fExtentMap st' = ?es[i := e]" and c': "em_inv st'" "em_range e = \<lparr>il_start = lbid, il_size = n\<rparr>"
    by (auto simp: created_def)
  have "col_layout oid n ?es" using em_make_room_ok(4) [OF inv] lay col_append_empty(1) by auto
  moreover have "em_entry_ok e"
  proof (rule new_entry_ok [OF c'(1)])
    show "em_used e" using c'(2) n by (simp add: em_used_def)
    show "e \<in> set (fExtentMap st')" using i by (simp add: set_update_memI)
  qed (use f c'(2) n oid e(1) in \<open>auto simp: fresh_place_def\<close>)
  ultimately show ?thesis using col_layout_fill [OF _ i(1,2) f e(2,1)] c'(2) i(3) by simp
qed

text \<open>
  C25. Creating a column extent with \<open>createColumnExtent_DBroot\<close> on a consistent map always returns.
  When no free range is long enough it reports \<open>runtime_error\<close> and the extents and the free list
  are as before. Otherwise there is exactly one more extent, with the size of the column width
  and marked as being in process; its blocks were free, are taken from the free list and belong
  to no other extent; the map stays consistent, also when its segment had to grow.
\<close>

theorem createColumnExtent_DBroot_allocates:
  assumes "em_inv st" "0 < w" "w < 512" "dbRootCount cfg \<noteq> 0"
  shows "(\<forall>r \<in># fl_abs (fFreeList st). il_size r < w) \<and>
      (\<exists>st'. createColumnExtent_DBroot cfg oid w root ty part useLock st = Some (Inl runtime_error, st') \<and> em_unchanged st st') \<or>
    (\<exists>p s lbid off st'. createColumnExtent_DBroot cfg oid w root ty part useLock st = Some (Inr (p, s, lbid, 1024 * w, off), st') \<and>
       allocated w lbid (new_column_entry lbid w oid ty w root (p, s, off)) st st')"
  by (rule createColumnExtent_DBroot_cases [OF assms, of useLock oid root ty part]) blast+

definition ex_cfg :: em_config where
  "ex_cfg = \<lparr>filesPerColumnPartition = 4, extentsPerSegmentFile = 2, dbRootCount = 1\<rparr>"

lemma ex_em_free: "\<lparr>il_start = 16384, il_size = 67108848\<rparr> \<in># fl_abs (fFreeList ex_em)"
  by (simp add: ex_em_def fl_abs_def fl_live_def)

theorem createColumnExtent_DBroot_allocates_witness:
  "\<exists>p s lbid off st'. createColumnExtent_DBroot ex_cfg 3001 8 1 INT_t 0 True ex_em = Some (Inr (p, s, lbid, 8192, off), st') \<and>
     em_inv st' \<and> size (mset (filter em_used (fExtentMap st'))) = 3"
proof -
  have "\<not> (\<forall>r \<in># fl_abs (fFreeList ex_em). il_size r < 8)" using ex_em_free by (auto intro!: bexI [rotated])
  moreover have "size (mset (filter em_used (fExtentMap ex_em))) = 2" by (simp add: ex_em_slots)
  ultimately show ?thesis
    using createColumnExtent_DBroot_allocates [OF ex_em_inv, of 8 ex_cfg 3001 1 INT_t 0 True]
    by (simp add: ex_cfg_def allocated_def del: size_mset) (metis size_add_mset numeral_2_eq_2 numeral_3_eq_3)
qed


lemma ex_em_layout: "col_layout 3001 8 (fExtentMap ex_em)" "col_bounds 3001 8 (fExtentMap ex_em)"
  by (auto simp: col_layout_def col_bounds_def ex_em_slots of_column_def em_entry_ok_def same_file_def less_Suc_eq numeral_3_eq_3 nth_Cons')

lemma ex_em_creates:
  obtains a st' where "createColumnExtent_DBroot ex_cfg 3001 8 1 INT_t 0 True ex_em = Some (Inr a, st')"
proof (rule createColumnExtent_DBroot_cases [OF ex_em_inv, of 8 ex_cfg True 3001 1 INT_t 0])
  show "dbRootCount ex_cfg \<noteq> 0" by (simp add: ex_cfg_def)
next
  assume "\<forall>r \<in># fl_abs (fFreeList ex_em). il_size r < 8"
  from bspec [OF this ex_em_free] show thesis by simp
qed (use that in simp_all)


section \<open>Stripes of extents\<close>

definition free_slots :: "ExtentMap \<Rightarrow> nat" where
  "free_slots st = length (filter (\<lambda>e. \<not> em_used e) (fExtentMap st))"

lemma em_make_room_idle:
  assumes inv: "em_inv st" and f: "0 < free_slots st"
  shows "em_make_room st = st"
proof -
  have "length (filter em_used (fExtentMap st)) < length (fExtentMap st)"
    using f sum_length_filter_compl [of em_used "fExtentMap st"] unfolding free_slots_def by linarith
  then show ?thesis using inv by (simp add: em_make_room_def em_inv_def em_geom_def size_em_abs em_size_defs)
qed

lemma created_free_slots:
  assumes "created sz lbid e st st'" "0 < sz"
  shows "Suc (free_slots st') = free_slots st"
proof -
  from assms(1) obtain i where i: "i < length (fExtentMap st)" "\<not> em_used (fExtentMap st ! i)" "fExtentMap st' = (fExtentMap st)[i := e]"
      "em_range e = \<lparr>il_start = lbid, il_size = sz\<rparr>" by (auto simp: created_def)
  then have used: "em_used e" using assms(2) by (simp add: em_used_def)
  from mset_used_fill [OF i(1,2) used] have "Suc (length (filter em_used (fExtentMap st))) = length (filter em_used (fExtentMap st'))"
    unfolding i(3) by (metis size_add_mset size_mset)
  then show ?thesis
    using sum_length_filter_compl [of em_used "fExtentMap st"] sum_length_filter_compl [of em_used "fExtentMap st'"] i(3) by (simp add: free_slots_def)
qed

definition widths_ok :: "CreateStripeColumnExtentsArgIn list \<Rightarrow> bool" where
  "widths_ok cols \<longleftrightarrow> (\<forall>c \<in> set cols. 0 < cs_width c \<and> cs_width c < 512)"

text \<open>The extents a stripe adds: one per column, all in one partition and segment.\<close>

definition stripe_added :: "CreateStripeColumnExtentsArgIn list \<Rightarrow> int \<Rightarrow> int \<Rightarrow> int \<Rightarrow> CreateStripeColumnExtentsArgOut list \<Rightarrow> EMEntry list \<Rightarrow> bool" where
  "stripe_added cols root p s outs es \<longleftrightarrow> length outs = length cols \<and> length es = length cols \<and>
     (\<forall>i < length cols. es ! i = new_column_entry (cs_startLbid (outs ! i)) (cs_width (cols ! i)) (cs_oid (cols ! i)) (cs_colDataType (cols ! i))
        (cs_width (cols ! i)) root (p, s, cs_startBlkOffset (outs ! i)) \<and> cs_allocSize (outs ! i) = 1024 * cs_width (cols ! i))"

lemma stripe_added_Cons:
  assumes "stripe_added cs root p s outs es" "e = new_column_entry lbid (cs_width c) (cs_oid c) (cs_colDataType c) (cs_width c) root (p, s, off)"
  shows "stripe_added (c # cs) root p s (\<lparr>cs_startLbid = lbid, cs_allocSize = 1024 * cs_width c, cs_startBlkOffset = off\<rparr> # outs) (e # es)"
  using assms by (auto simp: stripe_added_def nth_Cons split: nat.splits)

definition stripe_post ::
  "CreateStripeColumnExtentsArgIn list \<Rightarrow> int \<Rightarrow> ExtentMap \<Rightarrow> exn + int \<times> int \<times> CreateStripeColumnExtentsArgOut list \<Rightarrow> ExtentMap \<Rightarrow> bool"
where
  "stripe_post cols root st r st' \<longleftrightarrow> em_inv st' \<and> (length cols \<le> free_slots st \<longrightarrow> em_undo_ext st st') \<and>
    (case r of Inl x \<Rightarrow> x = runtime_error \<or> x = invalid_argument
     | Inr (p, s, outs) \<Rightarrow> \<exists>es. stripe_added cols root p s outs es \<and>
         mset (filter em_used (fExtentMap st')) = mset es + mset (filter em_used (fExtentMap st)))"

text \<open>One column of a stripe that succeeds.\<close>

lemma stripe_each_Inr:
  assumes "stripe_each cfg root base (c # cs) part seg st = Some (Inr a, st')"
  obtains p s lbid n off st1 outs where
    "createColumnExtent_DBroot cfg (cs_oid c) (cs_width c) root (cs_colDataType c) part False st = Some (Inr (p, s, lbid, n, off), st1)"
    "base = None \<or> base = Some (p, s)" "stripe_each cfg root (Some (p, s)) cs p s st1 = Some (Inr (fst a, fst (snd a), outs), st')"
proof -
  let ?c = "createColumnExtent_DBroot cfg (cs_oid c) (cs_width c) root (cs_colDataType c) part False st"
  obtain r st1 where r: "?c = Some (r, st1)" using assms by (cases ?c) auto
  then obtain p s lbid n off where r1: "r = Inr (p, s, lbid, n, off)" using assms by (cases r) auto
  then have b: "base = None \<or> base = Some (p, s)" using assms r by (cases base) (auto split: if_splits)
  obtain r2 st2 where r2: "stripe_each cfg root (Some (p, s)) cs p s st1 = Some (r2, st2)"
    using assms r r1 b by (cases "stripe_each cfg root (Some (p, s)) cs p s st1") auto
  show thesis using that r r1 b r2 assms by (cases r2) auto
qed

text \<open>Later columns of a stripe go where the first one went.\<close>

lemma stripe_each_place:
  "stripe_each cfg root (Some (p, s)) cols p s st = Some (Inr (p', s', outs), st') \<Longrightarrow> p' = p \<and> s' = s"
proof (induction cols arbitrary: st outs st')
  case (Cons c cs)
  from Cons.prems show ?case by (rule stripe_each_Inr) (use Cons.IH in auto)
qed simp

lemma stripe_each_ok:
  assumes "em_inv st" "widths_ok cols" "dbRootCount cfg \<noteq> 0"
  shows "\<exists>r st'. stripe_each cfg root base cols part seg st = Some (r, st') \<and> stripe_post cols root st r st'"
  using assms
proof (induction cols arbitrary: base part seg st)
  case Nil
  then show ?case by (simp add: stripe_added_def stripe_post_def)
next
  case (Cons c cs)
  have w: "0 < cs_width c" "cs_width c < 512" "widths_ok cs" using Cons.prems(2) by (auto simp: widths_ok_def)
  show ?case
  proof (rule createColumnExtent_DBroot_cases [OF Cons.prems(1) w(1,2) Cons.prems(3), of False "cs_oid c" root "cs_colDataType c" part], goal_cases)
    case 1
    then show ?case using em_make_room_idle [OF Cons.prems(1)] by (auto simp: em_lock_def em_unchanged_def stripe_post_def)
  next
    case (2 p s off lbid e st1)
    have inv1: "em_inv st1" using 2(6) by (simp add: allocated_def)
    have ext1: "em_undo_ext st st1 \<and> Suc (free_slots st1) = free_slots st" if "0 < free_slots st"
      using 2(4,5) em_make_room_idle [OF Cons.prems(1) that] created_free_slots [OF _ w(1)] by (simp add: em_lock_def)
    show ?case
    proof (cases "base \<noteq> None \<and> base \<noteq> Some (p, s)")
      case True
      then show ?thesis using 2(1) inv1 ext1 by (simp add: stripe_post_def)
    next
      case False
      from Cons.IH [OF inv1 w(3) Cons.prems(3), of "Some (p, s)" p s] obtain r st2 where
        r: "stripe_each cfg root (Some (p, s)) cs p s st1 = Some (r, st2)" "stripe_post cs root st1 r st2" by blast
      have u: "length (c # cs) \<le> free_slots st \<longrightarrow> em_undo_ext st st2" using ext1 r(2) by (auto simp: stripe_post_def intro: em_undo_ext_trans)
      have step: "stripe_each cfg root base (c # cs) part seg st = Some (case r of Inl x \<Rightarrow> Inl x
          | Inr (p', s', outs) \<Rightarrow> Inr (p', s', \<lparr>cs_startLbid = lbid, cs_allocSize = 1024 * cs_width c, cs_startBlkOffset = off\<rparr> # outs), st2)"
        using 2(1) r(1) False by (auto simp del: not_None_eq)
      show ?thesis
      proof (cases r)
        case (Inl x)
        then show ?thesis unfolding step using r u by (simp add: stripe_post_def)
      next
        case (Inr q)
        obtain p' s' outs where q: "q = (p', s', outs)" by (cases q)
        have ps: "p' = p" "s' = s" using stripe_each_place r(1) unfolding Inr q by blast+
        from r(2) obtain es where es: "stripe_added cs root p s outs es"
          "mset (filter em_used (fExtentMap st2)) = mset es + mset (filter em_used (fExtentMap st1))" unfolding Inr q ps stripe_post_def by auto
        have "mset (filter em_used (fExtentMap st2)) = mset (e # es) + mset (filter em_used (fExtentMap st))"
          using es(2) 2(6) by (simp add: allocated_def)
        then have "stripe_post (c # cs) root st (Inr (p, s, \<lparr>cs_startLbid = lbid, cs_allocSize = 1024 * cs_width c, cs_startBlkOffset = off\<rparr> # outs)) st2"
          using stripe_added_Cons [OF es(1) 2(3)] u r(2) unfolding stripe_post_def by (auto simp del: mset.simps)
        then show ?thesis unfolding step using Inr q ps by simp
      qed
    qed
  qed
qed

text \<open>
  C27. A stripe of column extents is complete or reported. On a consistent map
  \<open>createStripeColumnExtents\<close> returns and leaves a consistent map, also when it fails half way. On
  success it has added exactly one extent for each column, all in the partition and segment it
  answers, with the first blocks and offsets it answers. When the map has a free slot for each
  column and nothing was logged before, \<open>undoChanges\<close> gives back exactly the state before the
  call.
\<close>

theorem createStripeColumnExtents_complete:
  assumes "em_inv st" "widths_ok cols" "dbRootCount cfg \<noteq> 0" "em_undoRecords st = []"
  shows "\<exists>r st'. createStripeColumnExtents cfg cols root part seg st = Some (r, st') \<and> em_inv st' \<and>
    (case r of Inl x \<Rightarrow> x = runtime_error \<or> x = invalid_argument
     | Inr (p, s, outs) \<Rightarrow> \<exists>es. stripe_added cols root p s outs es \<and>
         mset (filter em_used (fExtentMap st')) = mset es + mset (filter em_used (fExtentMap st))) \<and>
    (length cols \<le> free_slots st \<longrightarrow> em_undoChanges st' = Some (em_finishChanges st))"
proof -
  let ?st = "em_lock True st"
  have "em_inv ?st" "free_slots ?st = free_slots st" using assms(1) by (simp_all add: free_slots_def)
  from stripe_each_ok [OF this(1) assms(2,3), of root None part seg] this(2) obtain r st' where
    r: "stripe_each cfg root None cols part seg ?st = Some (r, st')" "stripe_post cols root ?st r st'" by blast
  have "createStripeColumnExtents cfg cols root part seg st = Some (r, st')"
    using r(1) em_lock_eq [OF assms(1), of True] by (simp add: createStripeColumnExtents_def)
  moreover have "em_undoChanges st' = Some (em_finishChanges st)" if "length cols \<le> free_slots st"
  proof (rule em_undoChanges_ext [OF _ assms(4)])
    have "em_undo_ext st ?st" unfolding em_lock_def by (simp, rule em_undo_ext_trans [OF em_undo_ext_flags(1) em_undo_ext_flags(2)])
    moreover have "em_undo_ext ?st st'" using r(2) that by (simp add: stripe_post_def free_slots_def)
    ultimately show "em_undo_ext st st'" by (rule em_undo_ext_trans)
  qed
  ultimately show ?thesis using r(2) by (auto simp: stripe_post_def split: sum.splits)
qed

definition ex_cols :: "CreateStripeColumnExtentsArgIn list" where
  "ex_cols = [\<lparr>cs_oid = 3002, cs_width = 4, cs_colDataType = INT_t\<rparr>]"

theorem createStripeColumnExtents_complete_witness:
  "widths_ok ex_cols \<and> (\<exists>r st'. createStripeColumnExtents ex_cfg ex_cols 1 0 0 ex_em = Some (r, st') \<and> em_inv st' \<and>
     em_undoChanges st' = Some (em_finishChanges ex_em))"
proof -
  have "widths_ok ex_cols" "length ex_cols \<le> free_slots ex_em" by (simp_all add: widths_ok_def ex_cols_def free_slots_def ex_em_slots)
  then show ?thesis using createStripeColumnExtents_complete [OF ex_em_inv _ _ ex_em_log, of ex_cols ex_cfg 1 0 0] by (auto simp: ex_cfg_def)
qed

section \<open>Growth in the middle of a stripe\<close>

lemma getLBIDs_log:
  assumes "getLBIDsFromFreeList n st = Some (r, st')"
  shows "\<exists>ds. em_undoRecords st' = em_undoRecords st @ ds" "fEMShminfo st' = fEMShminfo st"
  using assms by (auto simp: getLBIDsFromFreeList_def bind_eq_Some_conv Let_def fl_put_def fl_resize_def em_makeUndoRecord_def split: option.splits if_splits)

lemma create_extent_log:
  assumes "create_extent sz mk st = Some (Inr a, st')"
  shows "\<exists>ds i e. em_undoRecords st' = em_undoRecords st @ ds \<and> ed_entry (tableShmkey (fEMShminfo st)) i e \<in> set ds"
    and "tableShmkey (fEMShminfo st') = tableShmkey (fEMShminfo st)"
proof -
  obtain r st1 where g: "getLBIDsFromFreeList sz st = Some (r, st1)"
    using assms by (cases "getLBIDsFromFreeList sz st") (auto simp: create_extent_def)
  then obtain lbid where lbid: "r = Inr lbid" using assms by (cases r) (auto simp: create_extent_def)
  then obtain i e where s: "getLBIDsFromFreeList sz st = Some (Inr lbid, st1)" "st' = em_resize sizeof_EMEntry (em_put i e st1)"
    using assms g by (auto simp: create_extent_def bind_eq_Some_conv split: option.splits)
  then show "\<exists>ds i e. em_undoRecords st' = em_undoRecords st @ ds \<and> ed_entry (tableShmkey (fEMShminfo st)) i e \<in> set ds"
  proof -
    obtain ds where "em_undoRecords st1 = em_undoRecords st @ ds" using getLBIDs_log(1) [OF s(1)] by blast
    then have "em_undoRecords st' = em_undoRecords st @ (ds @ [ed_entry (tableShmkey (fEMShminfo st)) i (fExtentMap st1 ! i), ed_emshm (fEMShminfo st)])"
      using s(2) getLBIDs_log(2) [OF s(1)] by (simp add: em_resize_def em_put_def em_makeUndoRecord_def)
    moreover have "ed_entry k i x \<in> set (ds @ [ed_entry k i x, y])" for k x y by simp
    ultimately show ?thesis by blast
  qed
  show "tableShmkey (fEMShminfo st') = tableShmkey (fEMShminfo st)" using s(2) getLBIDs_log(2) [OF s(1)] by simp
qed

lemma createColumnExtent_unlocked:
  assumes "createColumnExtent_DBroot cfg oid w root ty part False st = Some (Inr a, st')"
  obtains mk b where "create_extent (EXTENT_SIZE w div 1024) mk (em_make_room st) = Some (Inr b, st')"
proof -
  let ?mk = "\<lambda>lbid es. map_option (new_column_entry lbid (EXTENT_SIZE w div 1024) oid ty w root) (column_place cfg oid w root part es)"
  obtain r st1 where "create_extent (EXTENT_SIZE w div 1024) ?mk (em_make_room st) = Some (r, st1)"
    using assms by (cases "create_extent (EXTENT_SIZE w div 1024) ?mk (em_make_room st)")
      (auto simp: createColumnExtent_DBroot_def createColumnExtent_DBroot_impl_def Let_def)
  with assms that show thesis
    by (cases r) (auto simp: createColumnExtent_DBroot_def createColumnExtent_DBroot_impl_def Let_def)
qed

lemma em_make_room_grows:
  assumes inv: "em_inv st" and f: "free_slots st = 0"
  shows "tableShmkey (fEMShminfo (em_make_room st)) \<noteq> tableShmkey (fEMShminfo st)" "em_undoRecords (em_make_room st) = em_undoRecords st"
proof -
  have "length (filter em_used (fExtentMap st)) = length (fExtentMap st)"
    using f sum_length_filter_compl [of em_used "fExtentMap st"] unfolding free_slots_def by linarith
  then have "em_make_room st = growEMShmseg 0 st" using inv by (simp add: em_make_room_def em_inv_def em_geom_def size_em_abs)
  then show "tableShmkey (fEMShminfo (em_make_room st)) \<noteq> tableShmkey (fEMShminfo st)" "em_undoRecords (em_make_room st) = em_undoRecords st"
    by (simp_all add: growEMShmseg_def Let_def chooseEMShmkey_def choose_key_neq KEYRANGE_EXTENTMAP_BASE_def)
qed

lemma createColumnExtent_in_slot:
  assumes inv: "em_inv st" and w: "0 < w" "w < 512" and cfg: "dbRootCount cfg \<noteq> 0" and f: "0 < free_slots st"
    and r: "createColumnExtent_DBroot cfg oid w root ty part False st = Some (Inr a, st')"
  shows "em_inv st' \<and> Suc (free_slots st') = free_slots st"
proof (rule createColumnExtent_DBroot_cases [OF inv w cfg, of False oid root ty part])
  fix p s off lbid e st1
  assume c: "createColumnExtent_DBroot cfg oid w root ty part False st = Some (Inr (p, s, lbid, 1024 * w, off), st1)"
    "created w lbid e (em_make_room (em_lock False st)) st1" "allocated w lbid e st st1"
  have "created w lbid e st st1" using c(2) em_make_room_idle [OF inv f] by (simp add: em_lock_def)
  then show ?thesis using c(1,3) r created_free_slots [OF _ w(1)] by (simp add: allocated_def)
qed (use r in simp)

text \<open>
  C28. A stripe cannot be undone when the extent map has to grow for a later column. With two columns
  and one free slot, the second extent is created in a new segment while the log still holds
  the record of the slot of the first one in the old segment, which is not mapped any more;
  \<open>undoChanges\<close> would write to it.
\<close>

theorem stripe_growth_breaks_undo:
  assumes inv: "em_inv st" and w: "widths_ok [c, d]" and cfg: "dbRootCount cfg \<noteq> 0" and f: "free_slots st = 1"
    and r: "createStripeColumnExtents cfg [c, d] root part seg st = Some (Inr a, st')"
  shows "em_undoChanges st' = None"
proof -
  let ?st = "em_lock True st"
  have inv': "em_inv ?st" "free_slots ?st = 1" using inv f by (simp_all add: free_slots_def)
  have wc: "0 < cs_width c" "cs_width c < 512" using w by (simp_all add: widths_ok_def)
  have s: "stripe_each cfg root None [c, d] part seg ?st = Some (Inr a, st')"
    using r em_lock_eq [OF inv, of True] by (simp add: createStripeColumnExtents_def)
  from stripe_each_Inr [OF s] obtain p1 s1 a1 st1 b where
    c1: "createColumnExtent_DBroot cfg (cs_oid c) (cs_width c) root (cs_colDataType c) part False ?st = Some (Inr a1, st1)"
    and s2: "stripe_each cfg root (Some (p1, s1)) [d] p1 s1 st1 = Some (Inr b, st')" by metis
  have c2: "\<exists>b. createColumnExtent_DBroot cfg (cs_oid d) (cs_width d) root (cs_colDataType d) p1 False st1 = Some (Inr b, st')"
    by (rule stripe_each_Inr [OF s2]) auto
  have st1: "em_inv st1" "free_slots st1 = 0" using createColumnExtent_in_slot [OF inv'(1) wc cfg _ c1] inv'(2) by simp_all
  obtain mk b where "create_extent (EXTENT_SIZE (cs_width c) div 1024) mk (em_make_room ?st) = Some (Inr b, st1)" using c1 by (rule createColumnExtent_unlocked)
  moreover have "em_make_room ?st = ?st" using em_make_room_idle [OF inv'(1)] inv'(2) by simp
  ultimately have cr: "create_extent (EXTENT_SIZE (cs_width c) div 1024) mk ?st = Some (Inr b, st1)" by simp
  obtain ds i e where "em_undoRecords st1 = em_undoRecords ?st @ ds" "ed_entry (tableShmkey (fEMShminfo ?st)) i e \<in> set ds"
    using create_extent_log(1) [OF cr] by blast
  then have 1: "ed_entry (tableShmkey (fEMShminfo st1)) i e \<in> set (em_undoRecords st1)" using create_extent_log(2) [OF cr] by simp
  obtain mk2 b2 where c2': "create_extent (EXTENT_SIZE (cs_width d) div 1024) mk2 (em_make_room st1) = Some (Inr b2, st')"
    using c2 createColumnExtent_unlocked by blast
  note 2 = create_extent_log [OF c2'] and g = em_make_room_grows [OF st1]
  have "ed_entry (tableShmkey (fEMShminfo st1)) i e \<in> set (em_undoRecords st')" using 1 2(1) g(2) by auto
  moreover have "tableShmkey (fEMShminfo st') \<noteq> tableShmkey (fEMShminfo st1)" using 2(2) g(1) by simp
  ultimately have "\<not> em_log_ok st'" unfolding em_log_ok_def by (metis em_delta_ok.simps(1))
  then show ?thesis by (simp add: em_undoChanges_def)
qed

definition ex_cols2 :: "CreateStripeColumnExtentsArgIn list" where
  "ex_cols2 = [\<lparr>cs_oid = 3002, cs_width = 4, cs_colDataType = INT_t\<rparr>, \<lparr>cs_oid = 3003, cs_width = 8, cs_colDataType = INT_t\<rparr>]"

lemma ex_cols2_created:
  "case createStripeColumnExtents ex_cfg ex_cols2 1 0 0 ex_em of Some (Inr _, _) \<Rightarrow> True | _ \<Rightarrow> False"
  by code_simp

theorem stripe_growth_breaks_undo_witness:
  "em_inv ex_em \<and> (\<exists>a st'. createStripeColumnExtents ex_cfg ex_cols2 1 0 0 ex_em = Some (Inr a, st') \<and> em_undoChanges st' = None)"
proof -
  obtain a st' where r: "createStripeColumnExtents ex_cfg ex_cols2 1 0 0 ex_em = Some (Inr a, st')"
    using ex_cols2_created by (auto split: option.splits sum.splits)
  have "free_slots ex_em = 1" "dbRootCount ex_cfg \<noteq> 0" by (simp_all add: free_slots_def ex_em_slots ex_cfg_def)
  then have "em_undoChanges st' = None"
    using stripe_growth_breaks_undo [OF ex_em_inv _ _ _ r [unfolded ex_cols2_def]] by (simp add: widths_ok_def)
  then show ?thesis using r ex_em_inv by blast
qed

section \<open>Extents at the end of a segment file\<close>

lemma last_in_file_spec:
  assumes "\<forall>e \<in> set es. P e \<longrightarrow> 0 \<le> blockOffset e"
  shows "case last_in_file P es of None \<Rightarrow> \<forall>e \<in> set es. \<not> P e
    | Some i \<Rightarrow> i < length es \<and> P (es ! i) \<and> (\<forall>e \<in> set es. P e \<longrightarrow> blockOffset e \<le> blockOffset (es ! i))"
proof -
  have "case fold (last_in_file_step P es) [0..<k] (0, None) of
      (h, None) \<Rightarrow> h = 0 \<and> (\<forall>j < k. \<not> P (es ! j))
    | (h, Some i) \<Rightarrow> i < k \<and> P (es ! i) \<and> h = blockOffset (es ! i) \<and> (\<forall>j < k. P (es ! j) \<longrightarrow> blockOffset (es ! j) \<le> h)"
    if "k \<le> length es" for k using that
  proof (induction k)
    case (Suc k)
    obtain h idx where f: "fold (last_in_file_step P es) [0..<k] (0, None) = (h, idx)" by (cases "fold (last_in_file_step P es) [0..<k] (0, None)")
    have "P (es ! k) \<Longrightarrow> 0 \<le> blockOffset (es ! k)" using assms Suc.prems by simp
    moreover have st: "fold (last_in_file_step P es) [0..<Suc k] (0, None) = (if P (es ! k) \<and> blockOffset (es ! k) \<ge> h then (blockOffset (es ! k), Some k) else (h, idx))"
      using f by (simp add: last_in_file_step_def [of P es k])
    ultimately show ?case using Suc f unfolding st by (cases idx) (auto simp: less_Suc_eq)
  qed simp
  from this [of "length es"] show ?thesis
    by (auto simp: last_in_file_def in_set_conv_nth split: prod.splits option.splits)
qed

text \<open>The offset after the last extent of a file is fresh.\<close>

lemma next_offset_fresh:
  assumes lay: "col_layout oid n es" "col_bounds oid n es" and n: "0 < n" "n < 512" and ps: "0 \<le> part" "0 \<le> seg"
    and P: "\<And>e. e \<in> set es \<Longrightarrow> P e \<longleftrightarrow> of_column oid e \<and> partitionNum e = part \<and> segmentNum e = seg"
    and root: "\<And>e. e \<in> set es \<Longrightarrow> P e \<Longrightarrow> dbRoot e = root"
  shows "fresh_place oid n root es (part, seg, next_offset es (last_in_file P es))"
proof -
  have "\<forall>e \<in> set es. P e \<longrightarrow> 0 \<le> blockOffset e" using lay(1) P by (auto simp: col_layout_def em_entry_ok_def)
  note spec = last_in_file_spec [OF this]
  show ?thesis
  proof (cases "last_in_file P es")
    case None
    then show ?thesis using spec P ps n by (auto simp: fresh_place_def next_offset_def)
  next
    case (Some i)
    let ?l = "es ! i"
    have i: "?l \<in> set es" "P ?l" "\<forall>e \<in> set es. P e \<longrightarrow> blockOffset e \<le> blockOffset ?l" using spec Some by auto
    have l: "0 \<le> blockOffset ?l" "il_size (em_range ?l) = n" "n * 1024 dvd blockOffset ?l" "blockOffset ?l + 2 * (n * 1024) < 2 ^ 32"
      using lay i(1,2) P [OF i(1)] by (auto simp: col_layout_def col_bounds_def em_entry_ok_def)
    have u: "u32_of (n * 1024 + blockOffset ?l) = n * 1024 + blockOffset ?l" using l n by (intro u32_id) auto
    have "dbRoot e = root \<and> blockOffset e \<noteq> n * 1024 + blockOffset ?l"
      if "e \<in> set es" "of_column oid e" "partitionNum e = part" "segmentNum e = seg" for e
      using that i(3) P [OF that(1)] root [OF that(1)] n by fastforce
    then show ?thesis using Some l u ps n by (auto simp: next_offset_def intro!: fresh_placeI)
  qed
qed

lemma new_dict_entry_range [simp]: "em_range (new_dict_entry lbid sz oid root part seg es) = \<lparr>il_start = lbid, il_size = sz\<rparr>"
  by (simp add: new_dict_entry_def Let_def case_prod_beta)

text \<open>The new entry of a dictionary goes to the file the caller asks for, on the DBRoot that has the file.\<close>

lemma new_dict_entry_place:
  assumes lay: "col_layout oid n es" and e_def: "e = new_dict_entry lbid sz oid root part seg es"
  shows "fileID e = oid" "partitionNum e = part" "segmentNum e = seg" "blockOffset e = next_offset es (last_in_file (in_seg_file oid part seg) es)"
    and "x \<in> set es \<Longrightarrow> in_seg_file oid part seg x \<Longrightarrow> dbRoot x = dbRoot e"
proof -
  have "\<forall>x \<in> set es. in_seg_file oid part seg x \<longrightarrow> 0 \<le> blockOffset x" using lay by (auto simp: col_layout_def em_entry_ok_def of_column_def in_seg_file_def)
  note spec = last_in_file_spec [OF this]
  show "fileID e = oid" "partitionNum e = part" "segmentNum e = seg" "blockOffset e = next_offset es (last_in_file (in_seg_file oid part seg) es)"
  proof -
    have "partitionNum (es ! i) = part \<and> segmentNum (es ! i) = seg" if "last_in_file (in_seg_file oid part seg) es = Some i" for i
    proof -
      have "in_seg_file oid part seg (es ! i)" using spec that by simp
      then show ?thesis by (simp add: in_seg_file_def)
    qed
    then show "fileID e = oid" "partitionNum e = part" "segmentNum e = seg" "blockOffset e = next_offset es (last_in_file (in_seg_file oid part seg) es)"
      by (auto simp: e_def new_dict_entry_def Let_def split: option.split)
  qed
  assume x: "x \<in> set es" "in_seg_file oid part seg x"
  then obtain i where i: "last_in_file (in_seg_file oid part seg) es = Some i" using spec by (auto split: option.splits)
  then have l: "es ! i \<in> set es" "in_seg_file oid part seg (es ! i)" using spec by auto
  have "dbRoot x = dbRoot (es ! i)"
    using col_layout_same_root [OF lay x(1) l(1)] x(2) l(2) by (simp add: of_column_def in_seg_file_def same_file_def)
  then show "dbRoot x = dbRoot e" by (simp add: e_def new_dict_entry_def Let_def i)
qed

text \<open>What both functions do: the new extent follows the last one of its segment file.\<close>

definition appended :: "OID_t \<Rightarrow> int \<Rightarrow> int \<Rightarrow> int \<Rightarrow> LBID_t \<Rightarrow> int \<Rightarrow> ExtentMap \<Rightarrow> ExtentMap \<Rightarrow> bool" where
  "appended oid n part seg lbid off st st' \<longleftrightarrow> (\<exists>e. allocated n lbid e st st' \<and> in_seg_file oid part seg e \<and> blockOffset e = off \<and>
     (\<forall>x \<in> set (fExtentMap st). in_seg_file oid part seg x \<longrightarrow> blockOffset x + n * 1024 \<le> off \<and> dbRoot x = dbRoot e)) \<and>
     col_layout oid n (fExtentMap st')"

lemma fresh_after_last:
  assumes lay: "col_layout oid n es" and n: "0 < n" and x: "x \<in> set es" "P x" "\<And>e. e \<in> set es \<Longrightarrow> P e \<Longrightarrow> of_column oid e"
    and nw: "next_offset es (last_in_file P es) + n * 1024 < 2 ^ 32" and b: "col_bounds oid n es"
  shows "blockOffset x + n * 1024 \<le> next_offset es (last_in_file P es)"
proof -
  have "\<forall>e \<in> set es. P e \<longrightarrow> 0 \<le> blockOffset e" using lay x(3) by (auto simp: col_layout_def em_entry_ok_def)
  note spec = last_in_file_spec [OF this]
  then obtain i where i: "last_in_file P es = Some i" "es ! i \<in> set es" "P (es ! i)" "blockOffset x \<le> blockOffset (es ! i)"
    using x by (auto split: option.splits)
  have l: "0 \<le> blockOffset (es ! i)" "il_size (em_range (es ! i)) = n" "blockOffset (es ! i) + 2 * (n * 1024) < 2 ^ 32"
    using lay b x(3) [OF i(2,3)] i(2) by (auto simp: col_layout_def col_bounds_def em_entry_ok_def)
  then have "u32_of (n * 1024 + blockOffset (es ! i)) = n * 1024 + blockOffset (es ! i)" using n by (intro u32_id) auto
  then show ?thesis using i l by (simp add: next_offset_def)
qed

lemma append_to_file:
  assumes inv: "em_inv st" and n: "0 < n" "n < 512" and ps: "0 \<le> oid" "0 \<le> part" "0 \<le> seg"
    and lay: "col_layout oid n (fExtentMap st)" "col_bounds oid n (fExtentMap st)"
    and P: "\<And>e. P e \<Longrightarrow> in_seg_file oid part seg e" "\<And>e. e \<in> set (fExtentMap st) \<Longrightarrow> in_seg_file oid part seg e \<Longrightarrow> P e"
    and c: "created n lbid e (em_make_room st) st'" "allocated n lbid e st st'"
    and e: "fileID e = oid" "partitionNum e = part" "segmentNum e = seg"
      "blockOffset e = next_offset (fExtentMap (em_make_room st)) (last_in_file P (fExtentMap (em_make_room st)))"
    and root: "\<And>x. x \<in> set (fExtentMap st) \<Longrightarrow> in_seg_file oid part seg x \<Longrightarrow> dbRoot x = dbRoot e"
  shows "appended oid n part seg lbid (blockOffset e) st st'"
proof -
  let ?es = "fExtentMap (em_make_room st)"
  obtain k where es: "?es = fExtentMap st @ replicate k zero_EMEntry" using em_make_room_ok(4) [OF inv] by blast
  have lay': "col_layout oid n ?es" "col_bounds oid n ?es" using lay col_append_empty unfolding es by blast+
  have old: "x \<in> set (fExtentMap st)" if "x \<in> set ?es" "in_seg_file oid part seg x" for x
    using that unfolding es by (auto simp: in_seg_file_def split: if_splits)
  have P': "P x \<longleftrightarrow> of_column oid x \<and> partitionNum x = part \<and> segmentNum x = seg" if "x \<in> set ?es" for x
  proof -
    have "in_seg_file oid part seg x \<longleftrightarrow> of_column oid x \<and> partitionNum x = part \<and> segmentNum x = seg" by (auto simp: in_seg_file_def of_column_def)
    moreover have "P x \<longleftrightarrow> in_seg_file oid part seg x" using P old [OF that] by blast
    ultimately show ?thesis by simp
  qed
  have root': "dbRoot x = dbRoot e" if "x \<in> set ?es" "P x" for x using that root old P(1) by blast
  have f: "fresh_place oid n (dbRoot e) ?es (part, seg, blockOffset e)"
    unfolding e(4) by (rule next_offset_fresh [OF lay' n ps(2,3) P' root'])
  then have "col_layout oid n (fExtentMap st')" using created_layout [OF inv lay(1) n ps(1) c(1) e(1) refl] e by simp
  moreover have "em_used e" using c(2) n by (auto simp: allocated_def em_used_def)
  then have "in_seg_file oid part seg e" using e by (simp add: in_seg_file_def)
  moreover have "blockOffset x + n * 1024 \<le> blockOffset e" if "x \<in> set (fExtentMap st)" "in_seg_file oid part seg x" for x
    unfolding e(4) using f P(2) [OF that] that(1) P' by (intro fresh_after_last [OF lay'(1) n(1) _ _ _ _ lay'(2)]) (auto simp: es fresh_place_def e(4))
  ultimately show ?thesis using c(2) root by (auto simp: appended_def)
qed

lemma createDictStoreExtent_cases:
  assumes inv: "em_inv st" and ps: "0 \<le> oid" "0 \<le> part" "0 \<le> seg"
    and lay: "col_layout oid 8 (fExtentMap st)" "col_bounds oid 8 (fExtentMap st)"
  shows "(\<forall>r \<in># fl_abs (fFreeList st). il_size r < 8) \<and>
      (\<exists>st'. createDictStoreExtent oid root part seg st = Some (Inl runtime_error, st') \<and> em_unchanged st st') \<or>
    (\<exists>lbid off st'. createDictStoreExtent oid root part seg st = Some (Inr (lbid, 8192), st') \<and> appended oid 8 part seg lbid off st st')"
proof -
  let ?st = "em_lock True st" and ?mk = "\<lambda>lbid es. Some (new_dict_entry lbid 8 oid root part seg es)"
  have sz: "EXTENT_SIZE DICT_COL_WIDTH = 8192" "EXTENT_SIZE DICT_COL_WIDTH div 1024 = 8" by (simp_all add: EXTENT_SIZE_def ExtentRows_def BLOCK_SIZE_def DICT_COL_WIDTH_def u32_of_def)
  have eq: "grabFreeList (grabEMEntryTable st) = ?st" using em_lock_eq [OF inv, of True] by simp
  note def = createDictStoreExtent_def [of oid root part seg st, unfolded eq sz Let_def createDictStoreExtent_impl_def]
  have inv': "em_inv ?st" using inv by simp
  obtain k where es: "fExtentMap (em_make_room ?st) = fExtentMap st @ replicate k zero_EMEntry" using em_make_room_ok(4) [OF inv'] by auto
  have lay': "col_layout oid 8 (fExtentMap (em_make_room ?st))" unfolding es using lay(1) by (rule col_append_empty)
  have mk: "\<exists>e. ?mk lbid (fExtentMap (em_make_room ?st)) = Some e \<and> em_range e = \<lparr>il_start = lbid, il_size = 8\<rparr>" for lbid by simp
  show ?thesis
  proof (rule create_in_room [where mk = ?mk, OF inv' _ _ mk], goal_cases)
    case 3
    then show ?case using def by (simp add: em_unchanged_def)
  next
    case (4 lbid e st')
    have e: "e = new_dict_entry lbid 8 oid root part seg (fExtentMap (em_make_room ?st))" using 4(2) by simp
    note pl = new_dict_entry_place [OF lay' e]
    have "appended oid 8 part seg lbid (blockOffset e) ?st st'"
    proof (rule append_to_file [OF inv' _ _ ps _ _ _ _ 4(4,5) pl(1-4)])
      show "dbRoot x = dbRoot e" if "x \<in> set (fExtentMap ?st)" "in_seg_file oid part seg x" for x using pl(5) that by (simp add: es)
    qed (use lay in simp_all)
    then have "appended oid 8 part seg lbid (blockOffset e) st st'" by (simp add: appended_def allocated_def)
    then show ?case using 4(1) def by auto
  qed simp_all
qed

lemma createColumnExtentExactFile_cases:
  assumes inv: "em_inv st" and w: "0 < w" "w < 512" and ps: "0 \<le> oid" "0 \<le> part" "0 \<le> seg"
    and lay: "col_layout oid w (fExtentMap st)" "col_bounds oid w (fExtentMap st)"
    and root: "\<forall>x \<in> set (fExtentMap st). in_seg_file oid part seg x \<longrightarrow> dbRoot x = root"
  shows "(\<forall>r \<in># fl_abs (fFreeList st). il_size r < w) \<and>
      (\<exists>st'. createColumnExtentExactFile oid w root part seg ty st = Some (Inl runtime_error, st') \<and> em_unchanged st st') \<or>
    (\<exists>lbid off st'. createColumnExtentExactFile oid w root part seg ty st = Some (Inr (lbid, 1024 * w, off), st') \<and> appended oid w part seg lbid off st st')"
proof -
  let ?P = "\<lambda>e. in_seg_file oid part seg e \<and> dbRoot e = root"
  let ?st = "em_lock True st" and ?mk = "\<lambda>lbid es. Some (new_column_entry lbid w oid ty w root (part, seg, next_offset es (last_in_file ?P es)))"
  have eq: "grabFreeList (grabEMEntryTable st) = ?st" using em_lock_eq [OF inv, of True] by simp
  note def = createColumnExtentExactFile_def [of oid w root part seg ty st, unfolded eq EXTENT_SIZE_width [OF w] Let_def createColumnExtentExactFile_impl_def]
  have inv': "em_inv ?st" using inv by simp
  have mk: "\<exists>e. ?mk lbid (fExtentMap (em_make_room ?st)) = Some e \<and> em_range e = \<lparr>il_start = lbid, il_size = w\<rparr>" for lbid by simp
  show ?thesis
  proof (rule create_in_room [where mk = ?mk, OF inv' w mk], goal_cases)
    case 1
    then show ?case using def by (simp add: em_unchanged_def)
  next
    case (2 lbid e st')
    have e: "fileID e = oid" "partitionNum e = part" "segmentNum e = seg" "dbRoot e = root"
        "blockOffset e = next_offset (fExtentMap (em_make_room ?st)) (last_in_file ?P (fExtentMap (em_make_room ?st)))" using 2(2) by auto
    have "appended oid w part seg lbid (blockOffset e) ?st st'"
      by (rule append_to_file [OF inv' w ps _ _ _ _ 2(4,5) e(1-3,5)]) (use lay root e(4) in simp_all)
    then have "appended oid w part seg lbid (blockOffset e) st st'" by (simp add: appended_def allocated_def)
    then show ?case using 2(1) def by auto
  qed
qed

text \<open>
  C29. \<open>createDictStoreExtent\<close> and \<open>createColumnExtentExactFile\<close> append to a segment file. When the
  column is laid out as above (for an exact file also: the file, if it exists, is on the DBRoot
  the caller names), they either find no free range and change nothing, or add
  one extent, with blocks that were free, directly after all extents of that file and on the
  same DBRoot as they are; the map and the column's layout stay well formed.
\<close>

theorem file_extents_append:
  assumes "em_inv st" "0 < w" "w < 512" "0 \<le> oid" "0 \<le> part" "0 \<le> seg"
    and "col_layout oid w (fExtentMap st)" "col_bounds oid w (fExtentMap st)"
  shows "(w = DICT_COL_WIDTH \<longrightarrow>
       (\<forall>r \<in># fl_abs (fFreeList st). il_size r < 8) \<and>
         (\<exists>st'. createDictStoreExtent oid root part seg st = Some (Inl runtime_error, st') \<and> em_unchanged st st') \<or>
       (\<exists>lbid off st'. createDictStoreExtent oid root part seg st = Some (Inr (lbid, 8192), st') \<and> appended oid 8 part seg lbid off st st')) \<and>
    ((\<forall>x \<in> set (fExtentMap st). in_seg_file oid part seg x \<longrightarrow> dbRoot x = root) \<longrightarrow>
       (\<forall>r \<in># fl_abs (fFreeList st). il_size r < w) \<and>
         (\<exists>st'. createColumnExtentExactFile oid w root part seg ty st = Some (Inl runtime_error, st') \<and> em_unchanged st st') \<or>
       (\<exists>lbid off st'. createColumnExtentExactFile oid w root part seg ty st = Some (Inr (lbid, 1024 * w, off), st') \<and>
          appended oid w part seg lbid off st st'))"
proof (intro conjI impI)
  assume "w = DICT_COL_WIDTH"
  then show "(\<forall>r \<in># fl_abs (fFreeList st). il_size r < 8) \<and>
         (\<exists>st'. createDictStoreExtent oid root part seg st = Some (Inl runtime_error, st') \<and> em_unchanged st st') \<or>
       (\<exists>lbid off st'. createDictStoreExtent oid root part seg st = Some (Inr (lbid, 8192), st') \<and> appended oid 8 part seg lbid off st st')"
    using assms by (intro createDictStoreExtent_cases) (simp_all add: DICT_COL_WIDTH_def)
next
  assume "\<forall>x \<in> set (fExtentMap st). in_seg_file oid part seg x \<longrightarrow> dbRoot x = root"
  with assms show "(\<forall>r \<in># fl_abs (fFreeList st). il_size r < w) \<and>
         (\<exists>st'. createColumnExtentExactFile oid w root part seg ty st = Some (Inl runtime_error, st') \<and> em_unchanged st st') \<or>
       (\<exists>lbid off st'. createColumnExtentExactFile oid w root part seg ty st = Some (Inr (lbid, 1024 * w, off), st') \<and>
          appended oid w part seg lbid off st st')" by (rule createColumnExtentExactFile_cases)
qed

theorem file_extents_append_witness:
  "(\<exists>lbid off st'. createDictStoreExtent 3001 1 0 1 ex_em = Some (Inr (lbid, 8192), st') \<and> appended 3001 8 0 1 lbid off ex_em st') \<and>
   (\<exists>lbid off st'. createColumnExtentExactFile 3001 8 1 0 1 INT_t ex_em = Some (Inr (lbid, 8192, off), st') \<and> appended 3001 8 0 1 lbid off ex_em st')"
proof -
  have "\<not> (\<forall>r \<in># fl_abs (fFreeList ex_em). il_size r < 8)" using ex_em_free by (auto intro!: bexI [rotated])
  moreover have "\<forall>x \<in> set (fExtentMap ex_em). in_seg_file 3001 0 1 x \<longrightarrow> dbRoot x = 1" by (simp add: ex_em_slots in_seg_file_def)
  ultimately show ?thesis
    using file_extents_append [OF ex_em_inv _ _ _ _ _ ex_em_layout, of 0 1 1 INT_t] by (simp add: DICT_COL_WIDTH_def) blast
qed

end
