(* ===== verification/EM_Rollback.thy ===== *)
theory EM_Rollback
  imports EM_Create
begin

text \<open>
  Rolling back: \<open>rollbackColumnExtents_DBroot\<close>, \<open>rollbackDictStoreExtents_DBroot\<close>,
  \<open>deleteEmptyColExtents\<close> and \<open>deleteEmptyDictStoreExtents\<close> of \<open>extentmap.cpp\<close>. Each of them runs over
  the slots and deletes, updates or keeps the extent it finds; some variables are set at the
  first extent concerned.
\<close>

section \<open>Loops that act on the slots\<close>

datatype em_action = em_keep | em_delete | em_update EMEntry

fun em_act :: "nat \<Rightarrow> em_action \<Rightarrow> ExtentMap \<Rightarrow> ExtentMap option" where
  "em_act i em_keep st = Some st"
| "em_act i em_delete st = deleteExtent i st"
| "em_act i (em_update e) st = Some (em_put i e st)"

text \<open>The body of a loop answers the new values of its variables and what to do with the extent.\<close>

fun act_slots :: "(EMEntry \<Rightarrow> 's \<Rightarrow> ('s \<times> em_action) option) \<Rightarrow> nat list \<Rightarrow> 's \<Rightarrow> ExtentMap \<Rightarrow> ExtentMap option" where
  "act_slots body [] s st = Some st"
| "act_slots body (i # is) s st =
     Option.bind (body (fExtentMap st ! i) s) (\<lambda>(s', a). Option.bind (em_act i a st) (act_slots body is s'))"

definition act_all :: "(EMEntry \<Rightarrow> 's \<Rightarrow> ('s \<times> em_action) option) \<Rightarrow> 's \<Rightarrow> ExtentMap \<Rightarrow> unit em_out" where
  "act_all body s st0 =
     (let st = grabFreeList (grabEMEntryTable st0)
      in Option.bind (em_slots st) (\<lambda>es. Option.bind (act_slots body [0..<length es] s st) (\<lambda>st'. Some (Inr (), st'))))"

text \<open>\<open>if (HWM != h) { makeUndoRecord; HWM = h; status = EXTENTAVAILABLE; }\<close>\<close>

definition reset_hwm :: "int \<Rightarrow> EMEntry \<Rightarrow> em_action" where
  "reset_hwm h e = (if HWM e \<noteq> h then em_update (e\<lparr>HWM := h, em_status := EXTENTAVAILABLE\<rparr>) else em_keep)"

section \<open>Columns\<close>

text \<open>
  The block range of the stripe that holds the high water mark, and the first block of the
  stripe before; \<open>fboHi\<close> is 0 as long as they are not set. The remainder is undefined for an
  extent without blocks.
\<close>

type_synonym fbo_range = "int \<times> int \<times> int"

definition fbo_range_of :: "int \<Rightarrow> EMEntry \<Rightarrow> fbo_range \<Rightarrow> fbo_range option" where
  "fbo_range_of hwm e = (\<lambda>(fboLo, fboHi, fboPrev).
     if fboHi = 0
     then let range = u32_of (il_size (em_range e) * 1024)
          in if range = 0 then None
             else let lo = hwm - hwm mod range
                  in Some (lo, u32_of (lo + range - 1), if lo > 0 then u32_of (lo - range) else fboPrev)
     else Some (fboLo, fboHi, fboPrev))"

definition rollback_action :: "int \<Rightarrow> int \<Rightarrow> int \<Rightarrow> fbo_range \<Rightarrow> EMEntry \<Rightarrow> em_action" where
  "rollback_action part seg hwm = (\<lambda>(fboLo, fboHi, fboPrev) e.
     if partitionNum e > part then em_delete
     else if partitionNum e = part
     then if blockOffset e > fboHi then em_delete
          else if blockOffset e < fboLo
          then if blockOffset e \<ge> fboPrev \<and> segmentNum e > seg then reset_hwm (fboLo - 1) e else em_keep
          else if segmentNum e > seg then em_delete
          else if segmentNum e < seg then reset_hwm fboHi e
          else reset_hwm hwm e
     else em_keep)"

definition rollback_column_body ::
  "OID_t \<Rightarrow> bool \<Rightarrow> int \<Rightarrow> int \<Rightarrow> int \<Rightarrow> int \<Rightarrow> EMEntry \<Rightarrow> fbo_range \<Rightarrow> (fbo_range \<times> em_action) option"
where
  "rollback_column_body oid deleteAll root part seg hwm e fb =
     (if em_used e \<and> fileID e = oid \<and> dbRoot e = root \<and> em_status e \<noteq> EXTENTOUTOFSERVICE
      then if deleteAll then Some (fb, em_delete)
           else map_option (\<lambda>fb'. (fb', rollback_action part seg hwm fb' e)) (fbo_range_of hwm e fb)
      else Some (fb, em_keep))"

definition rollbackColumnExtents_DBroot :: "OID_t \<Rightarrow> bool \<Rightarrow> int \<Rightarrow> int \<Rightarrow> int \<Rightarrow> int \<Rightarrow> ExtentMap \<Rightarrow> unit em_out" where
  "rollbackColumnExtents_DBroot oid deleteAll root part seg hwm =
     act_all (rollback_column_body oid deleteAll root part seg hwm) (0, 0, 0)"

record ExtentInfo =
  ei_partitionNum :: int
  ei_segmentNum :: int
  ei_dbRoot :: int
  ei_hwm :: int
  ei_newFile :: bool

definition empty_col_body :: "(OID_t \<times> ExtentInfo) list \<Rightarrow> EMEntry \<Rightarrow> fbo_range \<Rightarrow> (fbo_range \<times> em_action) option" where
  "empty_col_body infos e fb =
     (case (if em_used e then map_of infos (fileID e) else None) of
        None \<Rightarrow> Some (fb, em_keep)
      | Some x \<Rightarrow>
          if em_status e = EXTENTOUTOFSERVICE then Some (fb, em_keep)
          else map_option (\<lambda>fb'. (fb', rollback_action (ei_partitionNum x) (ei_segmentNum x) (ei_hwm x) fb' e))
                 (fbo_range_of (ei_hwm x) e fb))"

definition deleteEmptyColExtents :: "(OID_t \<times> ExtentInfo) list \<Rightarrow> ExtentMap \<Rightarrow> unit em_out" where
  "deleteEmptyColExtents infos = act_all (empty_col_body infos) (0, 0, 0)"

section \<open>Dictionaries\<close>

text \<open>
  The map from segment numbers to marks and first blocks is built at the first extent concerned;
  a missing segment number is a read beyond the end of the vector.
\<close>

type_synonym seg_hwms = "(int \<times> (int \<times> int)) list"

definition seg_hwms_of :: "int list \<Rightarrow> int list \<Rightarrow> EMEntry \<Rightarrow> seg_hwms \<Rightarrow> seg_hwms option" where
  "seg_hwms_of segNums hwms e m =
     (if m = []
      then let range = u32_of (il_size (em_range e) * 1024)
           in if range = 0 \<or> length segNums < length hwms then None
              else Some (rev (map (\<lambda>(s, h). (s, (h, h - h mod range))) (zip segNums hwms)))
      else Some m)"

definition rollback_dict_action :: "int \<Rightarrow> seg_hwms \<Rightarrow> EMEntry \<Rightarrow> em_action" where
  "rollback_dict_action part m e =
     (if partitionNum e > part then em_delete
      else if partitionNum e = part
      then (case map_of m (segmentNum e) of
              None \<Rightarrow> em_delete
            | Some (hwm, fboLo) \<Rightarrow>
                if blockOffset e < fboLo then em_keep
                else if blockOffset e = fboLo then reset_hwm hwm e
                else em_delete)
      else em_keep)"

definition rollback_dict_body ::
  "OID_t \<Rightarrow> int \<Rightarrow> int \<Rightarrow> int list \<Rightarrow> int list \<Rightarrow> EMEntry \<Rightarrow> seg_hwms \<Rightarrow> (seg_hwms \<times> em_action) option"
where
  "rollback_dict_body oid root part segNums hwms e m =
     (if em_used e \<and> fileID e = oid \<and> dbRoot e = root \<and> em_status e \<noteq> EXTENTOUTOFSERVICE
      then if hwms = [] then Some (m, em_delete)
           else map_option (\<lambda>m'. (m', rollback_dict_action part m' e)) (seg_hwms_of segNums hwms e m)
      else Some (m, em_keep))"

definition rollbackDictStoreExtents_DBroot :: "OID_t \<Rightarrow> int \<Rightarrow> int \<Rightarrow> int list \<Rightarrow> int list \<Rightarrow> ExtentMap \<Rightarrow> unit em_out" where
  "rollbackDictStoreExtents_DBroot oid root part segNums hwms = act_all (rollback_dict_body oid root part segNums hwms) []"

text \<open>
  \<open>deleteEmptyDictStoreExtents\<close> looks at the flag of the first entry only; the list holds the
  entries in the order of the map. Without entries that is undefined.
\<close>

definition new_dict_file_body :: "(OID_t \<times> ExtentInfo) list \<Rightarrow> EMEntry \<Rightarrow> fbo_range \<Rightarrow> (fbo_range \<times> em_action) option" where
  "new_dict_file_body infos e fb =
     Some (fb, case (if em_used e then map_of infos (fileID e) else None) of
        None \<Rightarrow> em_keep
      | Some x \<Rightarrow>
          if partitionNum e = ei_partitionNum x \<and> segmentNum e = ei_segmentNum x \<and> dbRoot e = ei_dbRoot x then em_delete else em_keep)"

definition old_dict_action :: "ExtentInfo \<Rightarrow> fbo_range \<Rightarrow> EMEntry \<Rightarrow> em_action" where
  "old_dict_action x = (\<lambda>(fboLo, _, _) e.
     if partitionNum e > ei_partitionNum x then em_delete
     else if partitionNum e = ei_partitionNum x \<and> segmentNum e = ei_segmentNum x
     then if blockOffset e < fboLo then em_keep
          else if blockOffset e = fboLo then reset_hwm (ei_hwm x) e
          else em_delete
     else em_keep)"

definition old_dict_file_body :: "(OID_t \<times> ExtentInfo) list \<Rightarrow> EMEntry \<Rightarrow> fbo_range \<Rightarrow> (fbo_range \<times> em_action) option" where
  "old_dict_file_body infos e fb =
     (case (if em_used e then map_of infos (fileID e) else None) of
        None \<Rightarrow> Some (fb, em_keep)
      | Some x \<Rightarrow>
          if em_status e = EXTENTOUTOFSERVICE then Some (fb, em_keep)
          else map_option (\<lambda>fb'. (fb', old_dict_action x fb' e)) (fbo_range_of (ei_hwm x) e fb))"

definition deleteEmptyDictStoreExtents :: "(OID_t \<times> ExtentInfo) list \<Rightarrow> ExtentMap \<Rightarrow> unit em_out" where
  "deleteEmptyDictStoreExtents infos st =
     (case infos of
        [] \<Rightarrow> None
      | (_, x) # _ \<Rightarrow> act_all (if ei_newFile x then new_dict_file_body infos else old_dict_file_body infos) (0, 0, 0) st)"

section \<open>What a loop does\<close>

definition acted :: "(EMEntry \<Rightarrow> em_action) \<Rightarrow> EMEntry \<Rightarrow> EMEntry" where
  "acted act e = (case act e of em_keep \<Rightarrow> e | em_delete \<Rightarrow> cleared e | em_update e' \<Rightarrow> e')"

text \<open>Only used extents are deleted, and an update does not move an extent.\<close>

definition act_ok :: "(EMEntry \<Rightarrow> em_action) \<Rightarrow> bool" where
  "act_ok act \<longleftrightarrow> (\<forall>e. (act e = em_delete \<longrightarrow> em_used e) \<and> (\<forall>e'. act e = em_update e' \<longrightarrow> em_range e' = em_range e))"

lemma em_inv_put:
  assumes "em_inv st" "i < length (fExtentMap st)" "em_range e = em_range (fExtentMap st ! i)"
  shows "em_inv (em_put i e st)"
proof -
  have "map em_range ((fExtentMap st)[i := e]) = map em_range (fExtentMap st)" using assms(2,3) by (simp add: map_update list_update_same_conv)
  moreover have "\<forall>x \<in> set ((fExtentMap st)[i := e]). il_ok (em_range x)" using assms by (intro set_update_ok) (auto simp: em_inv_def)
  ultimately show ?thesis using assms(1) by (simp add: em_inv_def em_abs_def)
qed

lemma em_act_ok:
  assumes "em_inv st" "i < length (fExtentMap st)" "act_ok act"
  shows "\<exists>st'. em_act i (act (fExtentMap st ! i)) st = Some st' \<and> em_inv st' \<and> fExtentMap st' = (fExtentMap st)[i := acted act (fExtentMap st ! i)]"
proof (cases "act (fExtentMap st ! i)")
  case em_delete
  then show ?thesis using deleteExtent_ok [OF assms(1,2)] assms(3) by (auto simp: act_ok_def acted_def)
next
  case (em_update e)
  then show ?thesis using em_inv_put [OF assms(1,2)] assms(3) by (auto simp: act_ok_def acted_def)
qed (use assms in \<open>simp add: acted_def\<close>)

lemma act_slots_ok:
  assumes "em_inv st" "distinct is" "set is \<subseteq> {..<length (fExtentMap st)}" "S s" "act_ok act"
    and "\<forall>i \<in> set is. Q (fExtentMap st ! i)"
    and step: "\<And>e s. Q e \<Longrightarrow> S s \<Longrightarrow> \<exists>s'. S s' \<and> body e s = Some (s', act e)"
  shows "\<exists>st'. act_slots body is s st = Some st' \<and> em_inv st' \<and> length (fExtentMap st') = length (fExtentMap st) \<and>
    (\<forall>j < length (fExtentMap st). fExtentMap st' ! j = (if j \<in> set is then acted act (fExtentMap st ! j) else fExtentMap st ! j))"
  using assms(1-6)
proof (induction "is" arbitrary: s st)
  case (Cons i "is")
  let ?e = "fExtentMap st ! i"
  obtain s' where s': "S s'" "body ?e s = Some (s', act ?e)" using step [of ?e s] Cons.prems by auto
  have i: "i < length (fExtentMap st)" using Cons.prems by auto
  obtain st1 where st1: "em_act i (act ?e) st = Some st1" "em_inv st1" "fExtentMap st1 = (fExtentMap st)[i := acted act ?e]"
    using em_act_ok [OF Cons.prems(1) i Cons.prems(5)] by blast
  have "distinct is" "set is \<subseteq> {..<length (fExtentMap st1)}" "\<forall>k \<in> set is. Q (fExtentMap st1 ! k)"
    using Cons.prems st1(3) by (auto simp: nth_list_update)
  from Cons.IH [OF st1(2) this(1,2) s'(1) Cons.prems(5) this(3)] show ?case
    using st1(1,3) s'(2) Cons.prems(2,3) by (auto simp: nth_list_update)
qed simp

lemma act_all_ok:
  assumes inv: "em_inv st" and s: "S s" and act: "act_ok act" and Q: "\<forall>e \<in> set (fExtentMap st). Q e"
    and step: "\<And>e s. Q e \<Longrightarrow> S s \<Longrightarrow> \<exists>s'. S s' \<and> body e s = Some (s', act e)"
  shows "\<exists>st'. act_all body s st = Some (Inr (), st') \<and> em_inv st' \<and> fExtentMap st' = map (acted act) (fExtentMap st)"
proof -
  let ?st = "em_lock True st" and ?es = "fExtentMap st"
  have eq: "grabFreeList (grabEMEntryTable st) = ?st" using em_lock_eq [OF inv, of True] by simp
  have g: "em_slots ?st = Some ?es" using inv by (simp add: em_inv_def em_lock_def)
  have "set [0..<length ?es] \<subseteq> {..<length (fExtentMap ?st)}" "\<forall>i \<in> set [0..<length ?es]. Q (fExtentMap ?st ! i)" "em_inv ?st" using Q inv by auto
  from act_slots_ok [where S = S and Q = Q and body = body, OF this(3) distinct_upt this(1) s act this(2) step]
  obtain st' where st': "act_slots body [0..<length ?es] s ?st = Some st'" "em_inv st'" "length (fExtentMap st') = length ?es"
    "\<forall>j < length ?es. fExtentMap st' ! j = (if j \<in> set [0..<length ?es] then acted act (?es ! j) else ?es ! j)" by auto
  moreover have "fExtentMap st' = map (acted act) ?es" using st'(3,4) by (intro nth_equalityI) simp_all
  ultimately show ?thesis by (simp add: act_all_def eq g)
qed

section \<open>Columns: what is kept\<close>

definition concerned :: "OID_t \<Rightarrow> int \<Rightarrow> EMEntry \<Rightarrow> bool" where
  "concerned oid root e \<longleftrightarrow> of_column oid e \<and> dbRoot e = root \<and> em_status e \<noteq> EXTENTOUTOFSERVICE"

definition stripe_start :: "int \<Rightarrow> int \<Rightarrow> int" where
  "stripe_start n hwm = hwm - hwm mod (n * 1024)"

definition with_hwm :: "int \<Rightarrow> EMEntry \<Rightarrow> EMEntry" where
  "with_hwm h e = (if HWM e \<noteq> h then e\<lparr>HWM := h, em_status := EXTENTAVAILABLE\<rparr> else e)"

text \<open>
  The extents of a column in the order of \<open>ext_pos\<close> (partition, stripe, segment): those behind the
  given one go; in its stripe it gets the given mark and the earlier files are full; the later
  files end with the stripe before.
\<close>

definition rolled_back :: "OID_t \<Rightarrow> int \<Rightarrow> int \<Rightarrow> int \<Rightarrow> int \<Rightarrow> int \<Rightarrow> EMEntry \<Rightarrow> EMEntry" where
  "rolled_back oid root part seg hwm n e =
     (let lo = stripe_start n hwm
      in if \<not> concerned oid root e then e
         else if (part, lo, seg) < ext_pos e then cleared e
         else if partitionNum e = part \<and> blockOffset e = lo then with_hwm (if segmentNum e = seg then hwm else lo + n * 1024 - 1) e
         else if partitionNum e = part \<and> blockOffset e = lo - n * 1024 \<and> segmentNum e > seg then with_hwm (lo - 1) e
         else e)"

definition fbo_range_for :: "int \<Rightarrow> int \<Rightarrow> fbo_range" where
  "fbo_range_for n hwm = (let lo = stripe_start n hwm in (lo, lo + n * 1024 - 1, if lo > 0 then lo - n * 1024 else 0))"

lemma stripe_start_bounds:
  assumes "0 < n" "0 \<le> hwm"
  shows "0 \<le> stripe_start n hwm" "stripe_start n hwm \<le> hwm" "hwm < stripe_start n hwm + n * 1024" "n * 1024 dvd stripe_start n hwm"
proof -
  have m: "0 \<le> hwm mod (n * 1024)" "hwm mod (n * 1024) < n * 1024" "hwm mod (n * 1024) \<le> hwm" using assms by (auto intro: zmod_le_nonneg_dividend)
  then show "0 \<le> stripe_start n hwm" "stripe_start n hwm \<le> hwm" "hwm < stripe_start n hwm + n * 1024" unfolding stripe_start_def by linarith+
  show "n * 1024 dvd stripe_start n hwm" unfolding stripe_start_def by (simp add: minus_mod_eq_mult_div)
qed

lemma fbo_range_step:
  assumes n: "0 < n" "n < 512" and h: "0 \<le> hwm" "hwm + n * 1024 < 2 ^ 32" and e: "il_size (em_range e) = n"
    and fb: "fb = (0, 0, 0) \<or> fb = fbo_range_for n hwm"
  shows "fbo_range_of hwm e fb = Some (fbo_range_for n hwm)"
proof -
  note b = stripe_start_bounds [OF n(1) h(1)]
  have u: "u32_of (n * 1024) = n * 1024" "u32_of (stripe_start n hwm + n * 1024 - 1) = stripe_start n hwm + n * 1024 - 1"
    using n h b by (auto intro!: u32_id)
  have lo: "0 < stripe_start n hwm \<Longrightarrow> u32_of (stripe_start n hwm - n * 1024) = stripe_start n hwm - n * 1024"
    using b h n zdvd_imp_le [OF b(4)] by (intro u32_id) auto
  show ?thesis
  proof (cases "fb = (0, 0, 0)")
    case True
    then show ?thesis using u lo n by (simp add: fbo_range_of_def fbo_range_for_def Let_def e stripe_start_def [symmetric])
  next
    case False
    then obtain lo' hi' prev' where fb': "fb = (lo', hi', prev')" "fbo_range_for n hwm = (lo', hi', prev')" "hi' = stripe_start n hwm + n * 1024 - 1"
      using fb by (auto simp: fbo_range_for_def Let_def)
    then have "hi' \<noteq> 0" using n b(1) by linarith
    then show ?thesis using fb' by (simp add: fbo_range_of_def)
  qed
qed

lemma aligned_trichotomy:
  assumes "0 < (r :: int)" "r dvd a" "r dvd b"
  shows "a = b \<or> a + r \<le> b \<or> b + r \<le> a"
proof -
  have "r dvd b - a" using assms by simp
  then have "b - a = 0 \<or> r \<le> \<bar>b - a\<bar>" using assms(1) zdvd_imp_le [of r "\<bar>b - a\<bar>"] by auto
  then show ?thesis by linarith
qed

lemma rollback_action_spec:
  assumes n: "0 < n" and h: "0 \<le> hwm" and e: "concerned oid root e" "0 \<le> blockOffset e" "n * 1024 dvd blockOffset e"
  shows "acted (rollback_action part seg hwm (fbo_range_for n hwm)) e = rolled_back oid root part seg hwm n e"
proof -
  let ?lo = "stripe_start n hwm"
  note b = stripe_start_bounds [OF n h]
  have "0 < n * 1024" using n by simp
  note tri = aligned_trichotomy [OF this e(3) b(4)]
  consider "blockOffset e = ?lo" | "?lo + n * 1024 \<le> blockOffset e" | "blockOffset e + n * 1024 = ?lo" | "blockOffset e + n * 1024 < ?lo"
    using tri by linarith
  then show ?thesis
    using n e(1,2) b(1)
    by cases (auto simp: acted_def rollback_action_def fbo_range_for_def rolled_back_def reset_hwm_def with_hwm_def ext_pos_def less_prod_def Let_def)
qed

lemma reset_hwm_ok:
  "reset_hwm h e \<noteq> em_delete" "reset_hwm h e = em_update e' \<Longrightarrow> em_range e' = em_range e"
  by (auto simp: reset_hwm_def split: if_splits)

lemma rollback_action_range: "rollback_action part seg hwm fb e = em_update e' \<Longrightarrow> em_range e' = em_range e"
  by (auto simp: rollback_action_def reset_hwm_ok split: prod.splits if_splits)

text \<open>The part of a column's layout that rolling back relies on.\<close>

definition col_aligned :: "OID_t \<Rightarrow> int \<Rightarrow> EMEntry list \<Rightarrow> bool" where
  "col_aligned oid n es \<longleftrightarrow>
     (\<forall>e \<in> set es. of_column oid e \<longrightarrow> il_size (em_range e) = n \<and> 0 \<le> blockOffset e \<and> n * 1024 dvd blockOffset e)"

lemma col_layout_aligned: "col_layout oid n es \<Longrightarrow> col_aligned oid n es"
  by (auto simp: col_layout_def col_aligned_def em_entry_ok_def)

lemma delete_where_acted: "map (acted (\<lambda>e. if P e then em_delete else em_keep)) es = delete_where P es"
  by (simp add: delete_where_def acted_def)

lemma rollback_all_ok:
  assumes "em_inv st"
  shows "\<exists>st'. rollbackColumnExtents_DBroot oid True root part seg hwm st = Some (Inr (), st') \<and> em_inv st' \<and>
    fExtentMap st' = delete_where (concerned oid root) (fExtentMap st)"
proof -
  let ?act = "\<lambda>e. if concerned oid root e then em_delete else em_keep"
  have "act_ok ?act" by (auto simp: act_ok_def concerned_def of_column_def)
  moreover have "rollback_column_body oid True root part seg hwm e s = Some (s, ?act e)" for e s
    by (simp add: rollback_column_body_def concerned_def of_column_def)
  ultimately show ?thesis
    using act_all_ok [where S = "\<lambda>_. True" and Q = "\<lambda>_. True" and body = "rollback_column_body oid True root part seg hwm" and act = ?act, OF assms, of "(0, 0, 0)"]
    unfolding delete_where_acted rollbackColumnExtents_DBroot_def by blast
qed

text \<open>
  C30. Rolling a column back on a DBRoot. Let the extents of the column be aligned, and order them by
  partition, stripe and segment. After \<open>rollbackColumnExtents_DBroot\<close> with a partition, a
  segment and a high water mark, exactly the extents that follow the one holding that mark are
  gone (their blocks are free again: the map is still consistent); that one carries the mark;
  in its stripe the files before it are full; the files after it end with the stripe before.
  With \<open>bDeleteAll\<close> all extents go. Extents out of service, of other columns and on other
  DBRoots do not change. The function always returns.
\<close>

theorem rollbackColumnExtents_exact:
  assumes inv: "em_inv st" and n: "0 < n" "n < 512" and lay: "col_aligned oid n (fExtentMap st)" and h: "0 \<le> hwm" "hwm + n * 1024 < 2 ^ 32"
  shows "(\<exists>st'. rollbackColumnExtents_DBroot oid False root part seg hwm st = Some (Inr (), st') \<and> em_inv st' \<and>
      fExtentMap st' = map (rolled_back oid root part seg hwm n) (fExtentMap st)) \<and>
    (\<exists>st'. rollbackColumnExtents_DBroot oid True root part seg hwm st = Some (Inr (), st') \<and> em_inv st' \<and>
      fExtentMap st' = delete_where (concerned oid root) (fExtentMap st))"
proof (intro conjI)
  let ?F = "fbo_range_for n hwm" and ?act = "\<lambda>e. if concerned oid root e then rollback_action part seg hwm (fbo_range_for n hwm) e else em_keep"
  let ?Q = "\<lambda>e. of_column oid e \<longrightarrow> il_size (em_range e) = n"
  have "act_ok ?act" by (auto simp: act_ok_def concerned_def of_column_def rollback_action_range split: if_splits)
  moreover have "\<exists>s'. (s' = (0, 0, 0) \<or> s' = ?F) \<and> rollback_column_body oid False root part seg hwm e s = Some (s', ?act e)"
    if "?Q e" "s = (0, 0, 0) \<or> s = ?F" for e s
  proof (cases "concerned oid root e")
    case True
    then have "fbo_range_of hwm e s = Some ?F" using that by (intro fbo_range_step [OF n h]) (auto simp: concerned_def)
    then show ?thesis using True by (intro exI [of _ ?F]) (simp add: rollback_column_body_def concerned_def of_column_def)
  next
    case False
    then show ?thesis using that(2) by (intro exI [of _ s]) (auto simp: rollback_column_body_def concerned_def of_column_def)
  qed
  moreover have "\<forall>e \<in> set (fExtentMap st). ?Q e" using lay by (auto simp: col_aligned_def)
  ultimately obtain st' where st': "rollbackColumnExtents_DBroot oid False root part seg hwm st = Some (Inr (), st')" "em_inv st'" "fExtentMap st' = map (acted ?act) (fExtentMap st)"
    using act_all_ok [where S = "\<lambda>s. s = (0, 0, 0) \<or> s = ?F" and Q = ?Q and body = "rollback_column_body oid False root part seg hwm" and act = ?act, OF inv, of "(0, 0, 0)"]
    unfolding rollbackColumnExtents_DBroot_def by blast
  have "acted ?act e = rolled_back oid root part seg hwm n e" if "e \<in> set (fExtentMap st)" for e
  proof (cases "concerned oid root e")
    case True
    then show ?thesis using rollback_action_spec [OF n(1) h(1) True, of part seg] that lay by (auto simp: col_aligned_def concerned_def acted_def)
  qed (simp add: acted_def rolled_back_def Let_def)
  then show "\<exists>st'. rollbackColumnExtents_DBroot oid False root part seg hwm st = Some (Inr (), st') \<and> em_inv st' \<and>
      fExtentMap st' = map (rolled_back oid root part seg hwm n) (fExtentMap st)" using st' by auto
qed (rule rollback_all_ok [OF inv])

lemma ex_em_aligned: "col_aligned 3001 8 (fExtentMap ex_em)"
  by (rule col_layout_aligned [OF ex_em_layout(1)])

theorem rollbackColumnExtents_exact_witness:
  "\<exists>st'. rollbackColumnExtents_DBroot 3001 False 1 0 0 77 ex_em = Some (Inr (), st') \<and> em_inv st' \<and>
     fExtentMap st' = [(ex_extent 0 0 100)\<lparr>HWM := 77\<rparr>, zero_EMEntry, cleared (ex_extent 8192 1 20)]"
proof -
  have "map (rolled_back 3001 1 0 0 77 8) (fExtentMap ex_em) = [(ex_extent 0 0 100)\<lparr>HWM := 77\<rparr>, zero_EMEntry, cleared (ex_extent 8192 1 20)]"
    by (simp add: ex_em_slots rolled_back_def concerned_def of_column_def stripe_start_def ext_pos_def less_prod_def with_hwm_def Let_def status_defs)
  then show ?thesis using rollbackColumnExtents_exact [OF ex_em_inv _ _ ex_em_aligned, of 77 1 0 0] by auto
qed

section \<open>Dictionaries: what is kept\<close>

definition rolled_back_dict :: "OID_t \<Rightarrow> int \<Rightarrow> int \<Rightarrow> (int \<rightharpoonup> int) \<Rightarrow> int \<Rightarrow> EMEntry \<Rightarrow> EMEntry" where
  "rolled_back_dict oid root part marks n e =
     (if \<not> concerned oid root e \<or> partitionNum e < part then e
      else if partitionNum e > part then cleared e
      else case marks (segmentNum e) of
             None \<Rightarrow> cleared e
           | Some h \<Rightarrow>
               if blockOffset e > stripe_start n h then cleared e
               else if blockOffset e = stripe_start n h then with_hwm h e
               else e)"

lemma map_of_marks: "map_of (map (\<lambda>(s, h). (s, (h, f h))) xs) k = map_option (\<lambda>h. (h, f h)) (map_of xs k)"
  by (induction xs) auto

lemma rollback_dict_action_spec:
  assumes "concerned oid root e"
  shows "acted (rollback_dict_action part (rev (map (\<lambda>(s, h). (s, (h, h - h mod (n * 1024)))) xs))) e =
    rolled_back_dict oid root part (map_of (rev xs)) n e"
  using assms
  by (auto simp: acted_def rollback_dict_action_def rolled_back_dict_def rev_map map_of_marks reset_hwm_def with_hwm_def stripe_start_def split: option.split)

lemma rollback_dict_action_range: "rollback_dict_action part m e = em_update e' \<Longrightarrow> em_range e' = em_range e"
  by (auto simp: rollback_dict_action_def reset_hwm_ok split: option.splits if_splits)

text \<open>
  C31. Rolling a dictionary back on a DBRoot. The caller gives a partition and a high water mark for
  each of its segment files to keep. After \<open>rollbackDictStoreExtents_DBroot\<close> exactly these extents
  of the dictionary are gone: those in later partitions, those in segment files without a mark,
  and those behind the extent that holds the mark of their file; that extent carries the
  mark. When no marks are given, all extents go. Extents out of service, of other OIDs and on
  other DBRoots do not change, the map stays consistent, and the function always returns.
\<close>

theorem rollbackDictStoreExtents_exact:
  assumes inv: "em_inv st" and n: "0 < n" "n < 512" and lay: "col_aligned oid n (fExtentMap st)" and len: "length hwms \<le> length segNums"
  shows "\<exists>st'. rollbackDictStoreExtents_DBroot oid root part segNums hwms st = Some (Inr (), st') \<and> em_inv st' \<and>
    fExtentMap st' = (if hwms = [] then delete_where (concerned oid root) (fExtentMap st)
      else map (rolled_back_dict oid root part (map_of (rev (zip segNums hwms))) n) (fExtentMap st))"
proof -
  let ?body = "rollback_dict_body oid root part segNums hwms" and ?Q = "\<lambda>e. of_column oid e \<longrightarrow> il_size (em_range e) = n"
  define M where "M = rev (map (\<lambda>(s, h). (s, (h, h - h mod (n * 1024)))) (zip segNums hwms))"
  define act where "act = (\<lambda>e. if concerned oid root e then (if hwms = [] then em_delete else rollback_dict_action part M e) else em_keep)"
  have u: "u32_of (n * 1024) = n * 1024" using n by (intro u32_id) auto
  have Q: "\<forall>e \<in> set (fExtentMap st). ?Q e" using lay by (auto simp: col_aligned_def)
  have "act_ok act" by (auto simp: act_def act_ok_def concerned_def of_column_def rollback_dict_action_range split: if_splits)
  moreover have "\<exists>s'. (s' = [] \<or> s' = M) \<and> ?body e s = Some (s', act e)" if "?Q e" "s = [] \<or> s = M" for e s
  proof (cases "concerned oid root e \<and> hwms \<noteq> []")
    case True
    then have "seg_hwms_of segNums hwms e s = Some M" using that u n len by (auto simp: seg_hwms_of_def Let_def M_def concerned_def)
    then show ?thesis using True by (intro exI [of _ M]) (simp add: rollback_dict_body_def act_def concerned_def of_column_def)
  next
    case False
    then show ?thesis using that(2) by (intro exI [of _ s]) (auto simp: rollback_dict_body_def act_def concerned_def of_column_def)
  qed
  ultimately obtain st' where st': "rollbackDictStoreExtents_DBroot oid root part segNums hwms st = Some (Inr (), st')" "em_inv st'" "fExtentMap st' = map (acted act) (fExtentMap st)"
    using act_all_ok [where S = "\<lambda>s. s = [] \<or> s = M" and Q = ?Q and body = ?body and act = act, OF inv _ _ Q, of "[]"]
    unfolding rollbackDictStoreExtents_DBroot_def by blast
  moreover have "acted act e = (if concerned oid root e then if hwms = [] then cleared e else rolled_back_dict oid root part (map_of (rev (zip segNums hwms))) n e else e)" for e
    using rollback_dict_action_spec [of oid root e part n "zip segNums hwms"] by (auto simp: act_def acted_def M_def)
  moreover have "rolled_back_dict oid root part m n e = e" if "\<not> concerned oid root e" for m e using that by (simp add: rolled_back_dict_def)
  ultimately show ?thesis by (auto simp: delete_where_def)
qed

theorem rollbackDictStoreExtents_exact_witness:
  "\<exists>st'. rollbackDictStoreExtents_DBroot 3001 1 0 [1] [15] ex_em = Some (Inr (), st') \<and> em_inv st' \<and>
     fExtentMap st' = [cleared (ex_extent 0 0 100), zero_EMEntry, (ex_extent 8192 1 20)\<lparr>HWM := 15\<rparr>]"
proof -
  have "map (rolled_back_dict 3001 1 0 (map_of (rev (zip [1] [15]))) 8) (fExtentMap ex_em) =
      [cleared (ex_extent 0 0 100), zero_EMEntry, (ex_extent 8192 1 20)\<lparr>HWM := 15\<rparr>]"
    by (simp add: ex_em_slots rolled_back_dict_def concerned_def of_column_def stripe_start_def with_hwm_def status_defs)
  then show ?thesis using rollbackDictStoreExtents_exact [OF ex_em_inv _ _ ex_em_aligned, of "[15]" "[1]" 1 0] by auto
qed

section \<open>Several columns at once\<close>

definition ex_stripe :: "OID_t \<Rightarrow> int \<Rightarrow> int \<Rightarrow> int \<Rightarrow> EMEntry" where
  "ex_stripe oid start w off =
     \<lparr>em_range = \<lparr>il_start = start, il_size = w\<rparr>, fileID = oid, blockOffset = off, HWM = 0, partitionNum = 0, segmentNum = 0, dbRoot = 1,
      colWid = w, em_status = EXTENTAVAILABLE, cprange = \<lparr>hi_val = 0, lo_val = 0, sequenceNum = 0, isValid = CP_INVALID\<rparr>\<rparr>"

text \<open>A table with a column of width 4 and one of width 8, two stripes each.\<close>

definition ex_table :: ExtentMap where
  "ex_table = \<lparr>fExtentMap = [ex_stripe 3001 0 4 0, ex_stripe 3002 4096 8 0, ex_stripe 3001 12288 4 4096, ex_stripe 3002 16384 8 8192],
     fEMShminfo = \<lparr>tableShmkey = KEYRANGE_EXTENTMAP_BASE + 1, allocdSize = 256, mst_currentSize = 256\<rparr>,
     fFreeList = [\<lparr>il_start = 24576, il_size = 67108840\<rparr>, zero_range],
     fFLShminfo = \<lparr>tableShmkey = KEYRANGE_EMFREELIST_BASE + 1, allocdSize = 32, mst_currentSize = 16\<rparr>,
     em_undoRecords = [], emLocked = False, flLocked = False\<rparr>"

text \<open>The rows end in the second stripe of both columns.\<close>

definition ex_infos :: "(OID_t \<times> ExtentInfo) list" where
  "ex_infos = [(3001, \<lparr>ei_partitionNum = 0, ei_segmentNum = 0, ei_dbRoot = 1, ei_hwm = 4100, ei_newFile = False\<rparr>),
               (3002, \<lparr>ei_partitionNum = 0, ei_segmentNum = 0, ei_dbRoot = 1, ei_hwm = 8200, ei_newFile = False\<rparr>)]"


end
