(* ===== verification/EM_Partition.thy ===== *)
theory EM_Partition
  imports EM_Rollback
begin

text \<open>
  Logical partitions (\<open>logicalpartition.h\<close>) and the operations on them: \<open>deletePartition\<close>,
  \<open>markPartitionForDeletion\<close>, \<open>markAllPartitionForDeletion\<close>, \<open>restorePartition\<close> and
  \<open>getOutOfServicePartitions\<close> of \<open>extentmap.cpp\<close>. Their error codes are warnings: they are thrown
  after the work has been done, except for \<open>restorePartition\<close> on a partition that does not exist.
\<close>

section \<open>Logical partitions\<close>

datatype LogicalPartition = LogicalPartition (lp_dbroot: int) (lp_pp: int) (lp_seg: int)

text \<open>\<open>operator<\<close>, which \<open>std::set\<close> relies on.\<close>

definition lp_less :: "LogicalPartition \<Rightarrow> LogicalPartition \<Rightarrow> bool" where
  "lp_less m n \<longleftrightarrow>
     lp_pp m < lp_pp n \<or> lp_pp m = lp_pp n \<and> lp_seg m < lp_seg n \<or>
     lp_pp m = lp_pp n \<and> lp_seg m = lp_seg n \<and> lp_dbroot m < lp_dbroot n"

instantiation LogicalPartition :: linorder
begin

definition less_LogicalPartition :: "LogicalPartition \<Rightarrow> LogicalPartition \<Rightarrow> bool" where
  "m < n \<longleftrightarrow> lp_less m n"

definition less_eq_LogicalPartition :: "LogicalPartition \<Rightarrow> LogicalPartition \<Rightarrow> bool" where
  "m \<le> n \<longleftrightarrow> lp_less m n \<or> m = n"

instance
  by standard (auto simp: less_LogicalPartition_def less_eq_LogicalPartition_def lp_less_def intro: LogicalPartition.expand)

end

section \<open>The operations\<close>

definition WARN_NO_PARTITION_PERFORMED :: int where "WARN_NO_PARTITION_PERFORMED = 2042"
definition ERR_PARTITION_ALREADY_DISABLED :: int where "ERR_PARTITION_ALREADY_DISABLED = 4002"
definition ERR_PARTITION_NOT_EXIST :: int where "ERR_PARTITION_NOT_EXIST = 4003"
definition ERR_PARTITION_ALREADY_ENABLED :: int where "ERR_PARTITION_ALREADY_ENABLED = 4004"

lemmas partition_errors =
  WARN_NO_PARTITION_PERFORMED_def ERR_PARTITION_ALREADY_DISABLED_def ERR_PARTITION_NOT_EXIST_def ERR_PARTITION_ALREADY_ENABLED_def

definition lp_of :: "EMEntry \<Rightarrow> LogicalPartition" where
  "lp_of e = LogicalPartition (dbRoot e) (partitionNum e) (segmentNum e)"

definition in_partitions :: "OID_t set \<Rightarrow> LogicalPartition set \<Rightarrow> EMEntry \<Rightarrow> bool" where
  "in_partitions oids parts e \<longleftrightarrow> em_used e \<and> lp_of e \<in> parts \<and> fileID e \<in> oids"

text \<open>The first loop of the three functions: the slots concerned, and the partitions found.\<close>

definition partition_slots :: "OID_t set \<Rightarrow> LogicalPartition set \<Rightarrow> EMEntry list \<Rightarrow> nat list" where
  "partition_slots oids parts es = filter (\<lambda>i. in_partitions oids parts (es ! i)) [0..<length es]"

definition found_partitions :: "OID_t set \<Rightarrow> LogicalPartition set \<Rightarrow> EMEntry list \<Rightarrow> LogicalPartition set" where
  "found_partitions oids parts es = set (map lp_of (filter (in_partitions oids parts) es))"

definition throw_rc :: "int \<Rightarrow> exn + unit" where
  "throw_rc rc = (if rc = 0 then Inr () else Inl (IDBExcept rc))"

definition deletePartition :: "OID_t set \<Rightarrow> LogicalPartition set \<Rightarrow> ExtentMap \<Rightarrow> unit em_out" where
  "deletePartition oids parts st0 =
     (if oids = {} then Some (Inr (), st0)
      else let st = grabFreeList (grabEMEntryTable st0)
           in Option.bind (em_slots st) (\<lambda>es.
             let found = found_partitions oids parts es;
                 rc = (if found = {} then WARN_NO_PARTITION_PERFORMED
                       else if card found \<noteq> card parts then ERR_PARTITION_NOT_EXIST else 0)
             in Option.bind (delete_slots (\<lambda>_. True) (partition_slots oids parts es) st) (\<lambda>st'. Some (throw_rc rc, st'))))"

text \<open>The loop that sets the status of the slots collected before.\<close>

fun set_status :: "int \<Rightarrow> nat list \<Rightarrow> ExtentMap \<Rightarrow> ExtentMap" where
  "set_status s [] st = st"
| "set_status s (i # is) st = set_status s is (em_put i ((fExtentMap st ! i)\<lparr>em_status := s\<rparr>) st)"

definition markPartitionForDeletion :: "OID_t set \<Rightarrow> LogicalPartition set \<Rightarrow> ExtentMap \<Rightarrow> unit em_out" where
  "markPartitionForDeletion oids parts st0 =
     (if oids = {} then Some (Inr (), st0)
      else let st = grabEMEntryTable st0
           in Option.bind (em_slots st) (\<lambda>es.
             let found = found_partitions oids parts es;
                 alreadyDisabled = (\<exists>e \<in> set es. in_partitions oids parts e \<and> em_status e = EXTENTOUTOFSERVICE);
                 rc = (if found = {} then WARN_NO_PARTITION_PERFORMED
                       else if alreadyDisabled then ERR_PARTITION_ALREADY_DISABLED
                       else if card found \<noteq> card parts then ERR_PARTITION_NOT_EXIST else 0)
             in Some (throw_rc rc, set_status EXTENTOUTOFSERVICE (partition_slots oids parts es) st)))"

definition markAllPartitionForDeletion :: "OID_t set \<Rightarrow> ExtentMap \<Rightarrow> unit em_out" where
  "markAllPartitionForDeletion oids st0 =
     (if oids = {} then Some (Inr (), st0)
      else let st = grabEMEntryTable st0
           in Option.bind (em_slots st) (\<lambda>es.
             Some (Inr (), set_status EXTENTOUTOFSERVICE (filter (\<lambda>i. em_used (es ! i) \<and> fileID (es ! i) \<in> oids) [0..<length es]) st)))"

definition restorePartition :: "OID_t set \<Rightarrow> LogicalPartition set \<Rightarrow> ExtentMap \<Rightarrow> unit em_out" where
  "restorePartition oids parts st0 =
     (if oids = {} then Some (Inr (), st0)
      else let st = grabEMEntryTable st0
           in Option.bind (em_slots st) (\<lambda>es.
             let alreadyEnabled = (\<exists>e \<in> set es. in_partitions oids parts e \<and> em_status e = EXTENTAVAILABLE)
             in if card (found_partitions oids parts es) \<noteq> card parts then Some (Inl (IDBExcept ERR_PARTITION_NOT_EXIST), st)
                else Some (throw_rc (if alreadyEnabled then ERR_PARTITION_ALREADY_ENABLED else 0),
                           set_status EXTENTAVAILABLE (partition_slots oids parts es) st)))"

definition getOutOfServicePartitions :: "OID_t \<Rightarrow> ExtentMap \<Rightarrow> LogicalPartition set cpp" where
  "getOutOfServicePartitions oid st =
     (if oid < 0 then throw invalid_argument
      else bind_cpp (defined (em_slots st)) (\<lambda>es.
        ret (set (map lp_of (filter (\<lambda>e. em_used e \<and> fileID e = oid \<and> em_status e = EXTENTOUTOFSERVICE) es)))))"

section \<open>What they do\<close>

lemma lp_less_lexicographic: "(m :: LogicalPartition) < n \<longleftrightarrow> (lp_pp m, lp_seg m, lp_dbroot m) < (lp_pp n, lp_seg n, lp_dbroot n)"
  by (auto simp: less_LogicalPartition_def lp_less_def less_prod_def)

lemma delete_filtered:
  "delete_slots (\<lambda>_. True) (filter (\<lambda>i. P (fExtentMap st ! i)) is) st = delete_slots P is st"
  if "em_inv st" "distinct is" "set is \<subseteq> {..<length (fExtentMap st)}" "\<And>e. P e \<Longrightarrow> em_used e" for st
  using that
proof (induction "is" arbitrary: st)
  case (Cons i "is")
  show ?case
  proof (cases "P (fExtentMap st ! i)")
    case True
    obtain st1 where st1: "deleteExtent i st = Some st1" "em_inv st1" "fExtentMap st1 = (fExtentMap st)[i := cleared (fExtentMap st ! i)]"
      using deleteExtent_ok [OF Cons.prems(1), of i] Cons.prems(3,4) True by auto
    have "k \<noteq> i" if "k \<in> set is" for k using Cons.prems(2) that by auto
    then have "(fExtentMap st1) ! k = fExtentMap st ! k" if "k \<in> set is" for k using that by (metis st1(3) nth_list_update_neq)
    then have "filter (\<lambda>k. P (fExtentMap st ! k)) is = filter (\<lambda>k. P (fExtentMap st1 ! k)) is"
      by (intro filter_cong) auto
    moreover have "delete_slots (\<lambda>_. True) (filter (\<lambda>k. P (fExtentMap st1 ! k)) is) st1 = delete_slots P is st1"
      using Cons.prems st1 by (intro Cons.IH) auto
    ultimately show ?thesis using True st1(1) by simp
  next
    case False
    then show ?thesis using Cons by simp
  qed
qed simp

lemma set_status_ok:
  assumes "em_inv st" "distinct is" "set is \<subseteq> {..<length (fExtentMap st)}"
  shows "em_inv (set_status s is st) \<and> length (fExtentMap (set_status s is st)) = length (fExtentMap st) \<and>
    (\<forall>j < length (fExtentMap st). fExtentMap (set_status s is st) ! j =
       (if j \<in> set is then (fExtentMap st ! j)\<lparr>em_status := s\<rparr> else fExtentMap st ! j))"
  using assms
proof (induction "is" arbitrary: st)
  case (Cons i "is")
  let ?st = "em_put i ((fExtentMap st ! i)\<lparr>em_status := s\<rparr>) st"
  have "em_inv ?st" using Cons.prems by (intro em_inv_put) auto
  then show ?case using Cons.IH [of ?st] Cons.prems by (auto simp: nth_list_update)
qed simp

definition status_where :: "int \<Rightarrow> (EMEntry \<Rightarrow> bool) \<Rightarrow> EMEntry list \<Rightarrow> EMEntry list" where
  "status_where s P es = map (\<lambda>e. if P e then e\<lparr>em_status := s\<rparr> else e) es"

lemma set_status_filter:
  assumes "em_inv st"
  shows "em_inv (set_status s (filter (\<lambda>i. P (fExtentMap st ! i)) [0..<length (fExtentMap st)]) st)"
    and "fExtentMap (set_status s (filter (\<lambda>i. P (fExtentMap st ! i)) [0..<length (fExtentMap st)]) st) = status_where s P (fExtentMap st)"
proof -
  have "set (filter (\<lambda>i. P (fExtentMap st ! i)) [0..<length (fExtentMap st)]) \<subseteq> {..<length (fExtentMap st)}" by auto
  note ok = set_status_ok [OF assms distinct_filter [OF distinct_upt] this, of s]
  show "em_inv (set_status s (filter (\<lambda>i. P (fExtentMap st ! i)) [0..<length (fExtentMap st)]) st)" using ok by blast
  show "fExtentMap (set_status s (filter (\<lambda>i. P (fExtentMap st ! i)) [0..<length (fExtentMap st)]) st) = status_where s P (fExtentMap st)"
    using ok by (intro nth_equalityI) (auto simp: status_where_def)
qed

lemma found_subset: "found_partitions oids parts es \<subseteq> parts"
  by (auto simp: found_partitions_def in_partitions_def)

lemma card_found:
  assumes "finite parts"
  shows "card (found_partitions oids parts es) = card parts \<longleftrightarrow> (\<forall>p \<in> parts. \<exists>e \<in> set es. in_partitions oids {p} e)"
proof -
  have "card (found_partitions oids parts es) = card parts \<longleftrightarrow> parts \<subseteq> found_partitions oids parts es"
    using found_subset card_subset_eq [OF assms found_subset] by (metis subset_antisym subset_refl)
  also have "\<dots> \<longleftrightarrow> (\<forall>p \<in> parts. \<exists>e \<in> set es. in_partitions oids {p} e)"
    by (fastforce simp: found_partitions_def in_partitions_def)
  finally show ?thesis .
qed

lemma found_empty: "found_partitions oids parts es = {} \<longleftrightarrow> (\<forall>e \<in> set es. \<not> in_partitions oids parts e)"
  by (auto simp: found_partitions_def filter_empty_conv)

lemma in_partitions_status [simp]: "in_partitions oids parts (e\<lparr>em_status := s\<rparr>) = in_partitions oids parts e"
  by (simp add: in_partitions_def lp_of_def em_used_def)

lemma found_status [simp]: "found_partitions oids parts (status_where s P es) = found_partitions oids parts es"
  by (induction es) (auto simp: status_where_def found_partitions_def lp_of_def)

definition partition_rc :: "OID_t set \<Rightarrow> LogicalPartition set \<Rightarrow> bool \<Rightarrow> EMEntry list \<Rightarrow> exn + unit" where
  "partition_rc oids parts disabled es =
     (if \<forall>e \<in> set es. \<not> in_partitions oids parts e then Inl (IDBExcept 2042)
      else if disabled then Inl (IDBExcept 4002)
      else if \<forall>p \<in> parts. \<exists>e \<in> set es. in_partitions oids {p} e then Inr () else Inl (IDBExcept 4003))"

lemma deletePartition_eq:
  assumes "em_inv st" "finite parts" "oids \<noteq> {}"
  obtains st' where "deletePartition oids parts st = Some (partition_rc oids parts False (fExtentMap st), st')" "deletes (in_partitions oids parts) st st'"
proof -
  have u: "in_partitions oids parts e \<Longrightarrow> em_used e" for e by (simp add: in_partitions_def)
  let ?st = "st\<lparr>emLocked := True, flLocked := True\<rparr>"
  obtain st' where st': "delete_slots (in_partitions oids parts) [0..<length (fExtentMap st)] ?st = Some st'" "deletes (in_partitions oids parts) st st'"
    using delete_all_locked [OF assms(1) u] by blast
  have "delete_slots (\<lambda>_. True) (partition_slots oids parts (fExtentMap st)) ?st = Some st'"
    using delete_filtered [of ?st "[0..<length (fExtentMap st)]" "in_partitions oids parts", OF _ distinct_upt _ u] assms(1) st'(1)
    by (simp add: partition_slots_def atLeast0LessThan)
  moreover have "em_geom st" using assms(1) by (simp add: em_inv_def)
  ultimately have "deletePartition oids parts st = Some (partition_rc oids parts False (fExtentMap st), st')"
    using assms(3) by (simp add: deletePartition_def partition_rc_def throw_rc_def partition_errors found_empty card_found [OF assms(2)] del: ball_simps bex_simps)
  then show ?thesis using that st'(2) by blast
qed

lemma markPartition_eq:
  assumes "em_inv st" "finite parts" "oids \<noteq> {}"
  obtains st' where "markPartitionForDeletion oids parts st =
      Some (partition_rc oids parts (\<exists>e \<in> set (fExtentMap st). in_partitions oids parts e \<and> em_status e = EXTENTOUTOFSERVICE) (fExtentMap st), st')"
    "em_inv st'" "fExtentMap st' = status_where EXTENTOUTOFSERVICE (in_partitions oids parts) (fExtentMap st)"
proof -
  let ?st = "st\<lparr>emLocked := True\<rparr>"
  have g: "em_geom st" using assms(1) by (simp add: em_inv_def)
  let ?st' = "set_status EXTENTOUTOFSERVICE (partition_slots oids parts (fExtentMap st)) ?st"
  have "em_inv ?st" using assms(1) by simp
  from set_status_filter [OF this, of EXTENTOUTOFSERVICE "in_partitions oids parts"]
  have "em_inv ?st'" "fExtentMap ?st' = status_where EXTENTOUTOFSERVICE (in_partitions oids parts) (fExtentMap st)"
    by (simp_all add: partition_slots_def)
  then show ?thesis
    using g assms(3) by (intro that [of ?st']) (simp_all add: markPartitionForDeletion_def partition_rc_def throw_rc_def partition_errors found_empty card_found [OF assms(2)] del: ball_simps bex_simps)
qed

lemma restorePartition_eq:
  assumes "em_inv st" "finite parts" "oids \<noteq> {}" "\<forall>p \<in> parts. \<exists>e \<in> set (fExtentMap st). in_partitions oids {p} e"
  obtains st' where "restorePartition oids parts st =
      Some (if \<exists>e \<in> set (fExtentMap st). in_partitions oids parts e \<and> em_status e = EXTENTAVAILABLE then Inl (IDBExcept 4004) else Inr (), st')"
    "em_inv st'" "fExtentMap st' = status_where EXTENTAVAILABLE (in_partitions oids parts) (fExtentMap st)"
proof -
  let ?st = "st\<lparr>emLocked := True\<rparr>"
  have g: "em_geom st" using assms(1) by (simp add: em_inv_def)
  have c: "card (found_partitions oids parts (fExtentMap st)) = card parts" using assms(4) card_found [OF assms(2)] by simp
  let ?st' = "set_status EXTENTAVAILABLE (partition_slots oids parts (fExtentMap st)) ?st"
  have "em_inv ?st" using assms(1) by simp
  from set_status_filter [OF this, of EXTENTAVAILABLE "in_partitions oids parts"]
  have "em_inv ?st'" "fExtentMap ?st' = status_where EXTENTAVAILABLE (in_partitions oids parts) (fExtentMap st)"
    by (simp_all add: partition_slots_def)
  then show ?thesis
    using g assms(3) c by (intro that [of ?st']) (simp_all add: restorePartition_def throw_rc_def partition_errors)
qed

lemma status_back: "em_status e = s \<Longrightarrow> (e :: EMEntry)\<lparr>em_status := s\<rparr> = e"
  by (cases e) simp

lemma status_twice:
  assumes "\<And>e. e \<in> set es \<Longrightarrow> in_partitions oids parts e \<Longrightarrow> em_status e = s"
  shows "status_where s (in_partitions oids parts) (status_where s' (in_partitions oids parts) es) = es"
proof -
  have "e\<lparr>em_status := s\<rparr> = e" if "e \<in> set es" "in_partitions oids parts e" for e
    using status_back [OF assms [OF that]] .
  then show ?thesis unfolding status_where_def map_map by (intro map_idI) simp
qed

lemma out_of_service_marked:
  "map lp_of (filter (\<lambda>e. em_used e \<and> fileID e = oid \<and> em_status e = EXTENTOUTOFSERVICE) (status_where EXTENTOUTOFSERVICE P es)) =
   map lp_of (filter (\<lambda>e. em_used e \<and> fileID e = oid \<and> (em_status e = EXTENTOUTOFSERVICE \<or> P e)) es)"
  by (induction es) (auto simp: status_where_def lp_of_def em_used_def)

lemma out_of_service_after:
  assumes "em_geom st" "0 \<le> oid" "fExtentMap st = status_where EXTENTOUTOFSERVICE P es"
  shows "getOutOfServicePartitions oid st = ret (lp_of ` {e \<in> set es. em_used e \<and> fileID e = oid \<and> (em_status e = EXTENTOUTOFSERVICE \<or> P e)})"
  unfolding getOutOfServicePartitions_def using assms by (simp add: out_of_service_marked del: set_map) simp

lemma bex_status_where:
  "(\<exists>e \<in> set (status_where s P es). Q e) \<longleftrightarrow> (\<exists>e \<in> set es. Q (if P e then e\<lparr>em_status := s\<rparr> else e))"
  by (induction es) (auto simp: status_where_def)

lemma in_partitions_status_if: "in_partitions oids parts (if b then e\<lparr>em_status := s\<rparr> else e) = in_partitions oids parts e"
  by simp

lemma found_all_status:
  "(\<forall>p \<in> parts. \<exists>e \<in> set (status_where s P es). in_partitions oids {p} e) \<longleftrightarrow> (\<forall>p \<in> parts. \<exists>e \<in> set es. in_partitions oids {p} e)"
  by (simp add: bex_status_where in_partitions_status_if)

lemma any_status:
  "(\<exists>e \<in> set (status_where s (in_partitions oids parts) es). in_partitions oids parts e \<and> em_status e = r) \<longleftrightarrow>
    s = r \<and> (\<exists>e \<in> set es. in_partitions oids parts e)"
  by (auto simp: bex_status_where)

lemma status_idem:
  "status_where s (in_partitions oids parts) (status_where s (in_partitions oids parts) es) = status_where s (in_partitions oids parts) es"
  by (induction es) (auto simp: status_where_def)

text \<open>
  C33. \<open>deletePartition\<close> removes exactly the extents of the given columns that lie in the given
  partitions, and gives their blocks back to the free list. It does so in every case; the
  exception only reports what was found: none of them (2042), or not every partition (4003).
\<close>

theorem deletePartition_exact:
  assumes "em_inv st" "finite parts" "oids \<noteq> {}"
  shows "\<exists>st'. deletePartition oids parts st =
      Some (if \<forall>e \<in> set (fExtentMap st). \<not> in_partitions oids parts e then Inl (IDBExcept 2042)
            else if \<forall>p \<in> parts. \<exists>e \<in> set (fExtentMap st). in_partitions oids {p} e then Inr ()
            else Inl (IDBExcept 4003), st') \<and>
    deletes (in_partitions oids parts) st st'"
  by (rule deletePartition_eq [OF assms]) (simp add: partition_rc_def del: ball_simps bex_simps)

theorem deletePartition_exact_witness:
  "em_inv ex_em \<and> (\<exists>st'. deletePartition {3001} {LogicalPartition 1 0 0, LogicalPartition 9 9 9} ex_em = Some (Inl (IDBExcept 4003), st') \<and>
     em_inv st' \<and> fExtentMap st' \<noteq> fExtentMap ex_em)"
proof -
  have "\<exists>st'. deletePartition {3001} {LogicalPartition 1 0 0, LogicalPartition 9 9 9} ex_em = Some (Inl (IDBExcept 4003), st') \<and>
      deletes (in_partitions {3001} {LogicalPartition 1 0 0, LogicalPartition 9 9 9}) ex_em st'"
    using deletePartition_exact [OF ex_em_inv, of "{LogicalPartition 1 0 0, LogicalPartition 9 9 9}" "{3001}"]
    by (simp add: ex_em_slots in_partitions_def lp_of_def)
  moreover have "delete_where (in_partitions {3001} {LogicalPartition 1 0 0, LogicalPartition 9 9 9}) (fExtentMap ex_em) \<noteq> fExtentMap ex_em"
    by (simp add: ex_em_slots delete_where_def in_partitions_def lp_of_def)
      (metis cleared_dead(1) ex_extent_simps(1))
  ultimately show ?thesis by (auto simp: deletes_def)
qed

text \<open>
  C34. Disabling partitions and enabling them again is a round trip. When every partition named
  exists for the given columns and all its extents are available, \<open>markPartitionForDeletion\<close>
  succeeds; \<open>getOutOfServicePartitions\<close> then reports, for every column of the request, the
  partitions of the request next to those out of service before; a second request throws
  ``already disabled''; and \<open>restorePartition\<close> gives back the extent map of the beginning, after
  which a second one throws ``already enabled''.
\<close>

theorem mark_restore_roundtrip:
  assumes "em_inv st" "finite parts" "parts \<noteq> {}" "oids \<noteq> {}"
    and "\<forall>p \<in> parts. \<exists>e \<in> set (fExtentMap st). in_partitions oids {p} e"
    and "\<forall>e \<in> set (fExtentMap st). in_partitions oids parts e \<longrightarrow> em_status e = EXTENTAVAILABLE"
  shows "\<exists>st1 st2 st3 st4. markPartitionForDeletion oids parts st = Some (Inr (), st1) \<and>
    (\<forall>oid \<in> oids. 0 \<le> oid \<longrightarrow> getOutOfServicePartitions oid st1 =
       ret (lp_of ` {e \<in> set (fExtentMap st). em_used e \<and> fileID e = oid \<and> (em_status e = EXTENTOUTOFSERVICE \<or> lp_of e \<in> parts)})) \<and>
    markPartitionForDeletion oids parts st1 = Some (Inl (IDBExcept 4002), st2) \<and> fExtentMap st2 = fExtentMap st1 \<and>
    restorePartition oids parts st2 = Some (Inr (), st3) \<and> fExtentMap st3 = fExtentMap st \<and>
    restorePartition oids parts st3 = Some (Inl (IDBExcept 4004), st4) \<and> fExtentMap st4 = fExtentMap st"
proof -
  have g: "em_inv s \<Longrightarrow> em_geom s" for s by (simp add: em_inv_def)
  have some: "\<exists>e \<in> set (fExtentMap st). in_partitions oids parts e"
    using assms(3,5) by (fastforce simp: in_partitions_def)
  let ?P = "in_partitions oids parts" and ?es = "fExtentMap st"
  have no: "\<not> (\<exists>e \<in> set ?es. ?P e \<and> em_status e = EXTENTOUTOFSERVICE)" using assms(6) by (auto simp: status_defs)
  let ?dis = "\<lambda>es. \<exists>e \<in> set es. ?P e \<and> em_status e = EXTENTOUTOFSERVICE"
  have rc: "partition_rc oids parts (?dis ?es) ?es = Inr ()"
    unfolding partition_rc_def using no some assms(5) by (simp only: if_False if_True ball_simps simp_thms bex_simps) auto
  obtain st1 where st1: "markPartitionForDeletion oids parts st = Some (Inr (), st1)" "em_inv st1" "fExtentMap st1 = status_where EXTENTOUTOFSERVICE ?P ?es"
    using markPartition_eq [OF assms(1,2,4)] unfolding rc by blast
  have some1: "\<exists>e \<in> set (fExtentMap st1). ?P e \<and> em_status e = EXTENTOUTOFSERVICE" using some by (simp add: st1(3) any_status)
  then have rc1: "partition_rc oids parts (?dis (fExtentMap st1)) (fExtentMap st1) = Inl (IDBExcept 4002)"
    unfolding partition_rc_def by auto
  obtain st2 where st2: "markPartitionForDeletion oids parts st1 = Some (Inl (IDBExcept 4002), st2)" "em_inv st2" "fExtentMap st2 = fExtentMap st1"
    using markPartition_eq [OF st1(2) assms(2,4)] unfolding rc1 by (auto simp: st1(3) status_idem)
  have all2: "\<forall>p \<in> parts. \<exists>e \<in> set (fExtentMap st2). in_partitions oids {p} e"
    using assms(5) by (simp add: st2(3) st1(3) found_all_status)
  have no2: "\<not> (\<exists>e \<in> set (fExtentMap st2). ?P e \<and> em_status e = EXTENTAVAILABLE)"
    by (simp add: st2(3) st1(3) any_status) (simp add: status_defs)
  have id: "status_where EXTENTAVAILABLE ?P (status_where r ?P ?es) = ?es" for r using assms(6) by (intro status_twice) auto
  obtain st3 where st3: "restorePartition oids parts st2 = Some (Inr (), st3)" "em_inv st3" "fExtentMap st3 = ?es"
    using restorePartition_eq [OF st2(2) assms(2,4) all2] unfolding if_not_P [OF no2] by (auto simp: st2(3) st1(3) id)
  have id': "status_where EXTENTAVAILABLE ?P ?es = ?es" using assms(6) by (auto simp: status_where_def intro!: map_idI)
  have all3: "\<forall>p \<in> parts. \<exists>e \<in> set (fExtentMap st3). in_partitions oids {p} e" using assms(5) st3(3) by simp
  have some3: "\<exists>e \<in> set (fExtentMap st3). ?P e \<and> em_status e = EXTENTAVAILABLE" using some assms(6) st3(3) by auto
  obtain st4 where "restorePartition oids parts st3 = Some (Inl (IDBExcept 4004), st4)" "fExtentMap st4 = ?es"
    using restorePartition_eq [OF st3(2) assms(2,4) all3] unfolding if_P [OF some3] by (auto simp: st3(3) id')
  moreover have "getOutOfServicePartitions oid st1 =
       ret (lp_of ` {e \<in> set ?es. em_used e \<and> fileID e = oid \<and> (em_status e = EXTENTOUTOFSERVICE \<or> lp_of e \<in> parts)})"
    if "oid \<in> oids" "0 \<le> oid" for oid
    using out_of_service_after [OF g [OF st1(2)] that(2) st1(3)] that(1) by (simp add: in_partitions_def cong: conj_cong)
  ultimately show ?thesis using st1(1) st2(1,3) st3(1,3) by blast
qed

theorem mark_restore_roundtrip_witness:
  "\<exists>st1 st2 st3. markPartitionForDeletion {3001} {LogicalPartition 1 0 1} ex_em = Some (Inr (), st1) \<and>
     getOutOfServicePartitions 3001 st1 = ret {LogicalPartition 1 0 1} \<and>
     markPartitionForDeletion {3001} {LogicalPartition 1 0 1} st1 = Some (Inl (IDBExcept 4002), st2) \<and>
     restorePartition {3001} {LogicalPartition 1 0 1} st2 = Some (Inr (), st3) \<and> fExtentMap st3 = fExtentMap ex_em"
proof -
  have "{e \<in> set (fExtentMap ex_em). em_used e \<and> fileID e = 3001 \<and> (em_status e = EXTENTOUTOFSERVICE \<or> lp_of e \<in> {LogicalPartition 1 0 1})} = {ex_extent 8192 1 20}"
    by (auto simp: ex_em_slots lp_of_def status_defs)
  then show ?thesis
    using mark_restore_roundtrip [OF ex_em_inv, of "{LogicalPartition 1 0 1}" "{3001}"]
    by (simp add: ex_em_slots in_partitions_def lp_of_def) blast
qed

end
