(* ===== verification/EM_Image.thy ===== *)
theory EM_Image
  imports EM_Partition
begin

text \<open>
  The image of the extent map and its check: \<open>save\<close>, \<open>load\<close>, \<open>loadVersion4\<close>, \<open>reserveLBIDRange\<close> and
  \<open>checkConsistency\<close> of \<open>extentmap.cpp\<close>. A file is a record of whole integers, extents and ranges;
  the two ways of reading it (\<open>ifstream\<close>, \<open>IDBDataFile\<close>) differ in how a short file is detected,
  not in what is done then. The free list in a file is written but not read: \<open>load\<close> computes it
  from the extents.
\<close>

section \<open>Definitions\<close>

definition EM_MAGIC_V4 :: int where "EM_MAGIC_V4 = 0x76f78b1f"

record EMFile =
  emf_magic :: int
  emf_numEM :: int
  emf_numFL :: int
  emf_entries :: "EMEntry list"
  emf_free :: "InlineLBIDRange list"

text \<open>The argument \<open>size\<close> of \<open>reserveLBIDRange\<close> is a \<open>uint8_t\<close>.\<close>

definition u8_of :: "int \<Rightarrow> int" where
  "u8_of x = x mod 2 ^ 8"

definition reserve_hit :: "LBID_t \<Rightarrow> LBID_t \<Rightarrow> InlineLBIDRange \<Rightarrow> bool" where
  "reserve_hit start lastLBID r \<longleftrightarrow> il_size r \<noteq> 0 \<and>
     (start = il_start r \<or> il_end r - 1 = lastLBID \<or> il_start r < start \<and> il_end r - 1 > lastLBID)"

definition fl_shrink :: "nat \<Rightarrow> InlineLBIDRange \<Rightarrow> ExtentMap \<Rightarrow> ExtentMap" where
  "fl_shrink i r st = (let st1 = fl_put i r st in if il_size r = 0 then fl_resize (- sizeof_InlineLBIDRange) st1 else st1)"

text \<open>
  The slot for the second half of a free range: the first empty slot seen by the scan, a slot
  of the grown list, or an empty slot further on; without one the code writes beyond the list.
\<close>

definition split_slot :: "nat \<Rightarrow> InlineLBIDRange list \<Rightarrow> ExtentMap \<Rightarrow> (nat \<times> ExtentMap) option" where
  "split_slot i fl st =
     (case find_slot (\<lambda>r. il_size r = 0) (take i fl) of
        Some f \<Rightarrow> Some (f, st)
      | None \<Rightarrow>
          if mst_currentSize (fFLShminfo st) = allocdSize (fFLShminfo st) then Some (length fl, growFLShmseg st)
          else map_option (\<lambda>k. (i + 1 + k, st)) (find_slot (\<lambda>r. il_size r = 0) (drop (i + 1) fl)))"

definition reserveLBIDRange :: "LBID_t \<Rightarrow> int \<Rightarrow> ExtentMap \<Rightarrow> ExtentMap option" where
  "reserveLBIDRange start size0 st =
     Option.bind (fl_slots st) (\<lambda>fl.
       let size = u8_of size0; lastLBID = start + size * 1024 - 1
       in case find_slot (reserve_hit start lastLBID) fl of
            None \<Rightarrow> Some st
          | Some i \<Rightarrow>
              let r = fl ! i
              in if start = il_start r
                 then Some (fl_shrink i \<lparr>il_start = il_start r + size * 1024, il_size = u32_of (il_size r - size)\<rparr> st)
                 else if il_end r - 1 = lastLBID
                 then Some (fl_shrink i \<lparr>il_start = il_start r, il_size = u32_of (il_size r - size)\<rparr> st)
                 else map_option (\<lambda>(f, st1).
                        fl_resize sizeof_InlineLBIDRange
                          (fl_put f \<lparr>il_start = start + size * 1024, il_size = u32_of ((il_end r - 1 - lastLBID) div 1024)\<rparr>
                            (fl_put i \<lparr>il_start = il_start r, il_size = u32_of ((start - il_start r) div 1024)\<rparr> st1)))
                      (split_slot i fl st))"

definition fix_status :: "EMEntry \<Rightarrow> EMEntry" where
  "fix_status e = (if em_status e < 0 \<or> em_status e > 2 then e\<lparr>em_status := EXTENTAVAILABLE\<rparr> else e)"

text \<open>The loop of \<open>loadVersion4\<close>, from slot \<open>i\<close> on, with \<open>n\<close> entries still to read.\<close>

fun load_entries :: "nat \<Rightarrow> nat \<Rightarrow> EMEntry list \<Rightarrow> ExtentMap \<Rightarrow> unit em_out" where
  "load_entries 0 i es st = Some (Inr (), st)"
| "load_entries (Suc n) i [] st = Some (Inl runtime_error, st)"
| "load_entries (Suc n) i (e # es) st =
     (if i < length (fExtentMap st)
      then Option.bind (reserveLBIDRange (il_start (em_range e)) (il_size (em_range e)) (st\<lparr>fExtentMap := (fExtentMap st)[i := e]\<rparr>))
             (\<lambda>st1. load_entries n (Suc i) es (st1\<lparr>fExtentMap := (fExtentMap st1)[i := fix_status e]\<rparr>))
      else None)"

text \<open>Both tables zeroed, the free list one range of \<open>2 ^ 36\<close> blocks.\<close>

definition em_blank :: "ExtentMap \<Rightarrow> ExtentMap" where
  "em_blank st =
     st\<lparr>fExtentMap := replicate (length (fExtentMap st)) zero_EMEntry,
        fEMShminfo := (fEMShminfo st)\<lparr>mst_currentSize := 0\<rparr>,
        fFreeList := (replicate (length (fFreeList st)) zero_range)[0 := \<lparr>il_start = 0, il_size = 2 ^ 26\<rparr>],
        fFLShminfo := (fFLShminfo st)\<lparr>mst_currentSize := sizeof_InlineLBIDRange\<rparr>\<rparr>"

definition round_rows :: "int \<Rightarrow> int" where
  "round_rows nrows = (if nrows mod EM_INCREMENT_ROWS \<noteq> 0 then (nrows div EM_INCREMENT_ROWS + 1) * EM_INCREMENT_ROWS else nrows)"

definition loadVersion4 :: "EMFile \<Rightarrow> ExtentMap \<Rightarrow> unit em_out" where
  "loadVersion4 f st =
     (if emf_numEM f \<le> 0 then Some (Inl (IDBExcept ERR_ASSERTION_FAILURE), st)
      else let st1 = em_blank st;
               st2 = (if allocdSize (fEMShminfo st1) div sizeof_EMEntry < emf_numEM f
                      then growEMShmseg (round_rows (emf_numEM f)) st1 else st1)
           in Option.bind (load_entries (nat (emf_numEM f)) 0 (emf_entries f) st2) (\<lambda>(r, st3).
                Some (r, if r = Inr () then st3\<lparr>fEMShminfo := (fEMShminfo st3)\<lparr>mst_currentSize := emf_numEM f * sizeof_EMEntry\<rparr>\<rparr> else st3)))"

definition em_load :: "EMFile \<Rightarrow> ExtentMap \<Rightarrow> unit em_out" where
  "em_load f st0 =
     (let st = grabFreeList (grabEMEntryTable st0)
      in Option.bind (if emf_magic f = EM_MAGIC_V4 then loadVersion4 f st else Some (Inl runtime_error, st))
           (\<lambda>(r, st'). Some (r, releaseEMEntryTable (releaseFreeList st'))))"

definition em_save :: "ExtentMap \<Rightarrow> EMFile cpp" where
  "em_save st =
     (if mst_currentSize (fEMShminfo st) = 0 then throw runtime_error
      else bind_cpp (defined (em_slots st)) (\<lambda>es.
           bind_cpp (defined (fl_slots st)) (\<lambda>fl.
             ret \<lparr>emf_magic = EM_MAGIC_V4, emf_numEM = mst_currentSize (fEMShminfo st) div sizeof_EMEntry,
                  emf_numFL = allocdSize (fFLShminfo st) div sizeof_InlineLBIDRange,
                  emf_entries = filter (\<lambda>e. 0 < il_size (em_range e)) es, emf_free = fl\<rparr>)))"

section \<open>The consistency check\<close>

text \<open>
  The products \<open>size*1024\<close> of \<open>checkConsistency\<close> are products of 32 bits, unlike those of the other
  functions.
\<close>

definition il_last32 :: "InlineLBIDRange \<Rightarrow> LBID_t" where
  "il_last32 r = il_start r + u32_of (il_size r * 1024) - 1"

definition overlap_1a :: "InlineLBIDRange \<Rightarrow> InlineLBIDRange \<Rightarrow> bool" where
  "overlap_1a e r \<longleftrightarrow>
     (let emBegin = il_start e; emEnd = il_last32 e; flBegin = il_start r; flEnd = il_last32 r
      in emBegin \<le> flBegin \<and> emEnd \<ge> flBegin \<or> emBegin \<ge> flBegin \<and> emEnd \<le> flEnd \<or> emBegin \<le> flEnd \<and> emEnd \<ge> flEnd)"

definition test_1a :: "EMEntry list \<Rightarrow> InlineLBIDRange list \<Rightarrow> bool" where
  "test_1a es fl \<longleftrightarrow> \<not> (\<exists>e \<in> set es. em_used e \<and> (\<exists>r \<in> set fl. il_size r \<noteq> 0 \<and> overlap_1a (em_range e) r))"

text \<open>One run of test 1b over the free list and the extents; None when a range is not aligned.\<close>

fun pass_1b :: "InlineLBIDRange list \<Rightarrow> int \<Rightarrow> int option" where
  "pass_1b [] lbid = Some lbid"
| "pass_1b (r # rs) lbid =
     (if il_start r mod 1024 \<noteq> 0 then None
      else pass_1b rs (if il_start r div 1024 = lbid then s32_of (u32_of (lbid + il_size r)) else lbid))"

text \<open>The outer loop need not end on a table that is not consistent.\<close>

partial_function (option) test_1b :: "InlineLBIDRange list \<Rightarrow> int \<Rightarrow> bool option" where
  "test_1b rs lbid =
     (if lbid < 67108864
      then case pass_1b rs lbid of
             None \<Rightarrow> Some False
           | Some lbid' \<Rightarrow> if lbid' = lbid then Some False else test_1b rs lbid'
      else Some True)"

definition test_1c :: "EMEntry list \<Rightarrow> bool" where
  "test_1c es \<longleftrightarrow> \<not> (\<exists>e \<in> set es. em_used e \<and> dbRoot e = 0)"

fun test_2 :: "InlineLBIDRange list \<Rightarrow> bool" where
  "test_2 [] \<longleftrightarrow> True"
| "test_2 (r # rs) \<longleftrightarrow> (il_size r \<noteq> 0 \<longrightarrow> \<not> (\<exists>s \<in> set rs. il_size s \<noteq> 0 \<and> il_start s = il_last32 r + 1)) \<and> test_2 rs"

definition test_5a :: "EMEntry list \<Rightarrow> InlineLBIDRange list \<Rightarrow> ExtentMap \<Rightarrow> bool" where
  "test_5a es fl st \<longleftrightarrow>
     int (length (filter em_used es)) = mst_currentSize (fEMShminfo st) div sizeof_EMEntry \<and>
     int (length (filter (\<lambda>r. il_size r \<noteq> 0) fl)) = mst_currentSize (fFLShminfo st) div sizeof_InlineLBIDRange"

definition em_checkConsistency :: "ExtentMap \<Rightarrow> int cpp" where
  "em_checkConsistency st =
     bind_cpp (defined (em_slots st)) (\<lambda>es.
     bind_cpp (defined (fl_slots st)) (\<lambda>fl.
       if \<not> test_1a es fl then throw logic_error
       else bind_cpp (defined (test_1b (fl @ map em_range es) 0)) (\<lambda>ok.
         if ok \<and> test_1c es \<and> test_2 fl \<and> test_5a es fl st then ret 0 else throw logic_error)))"

section \<open>Taking a range out of the middle\<close>

lemma units_of_mem: "u \<in># units_of m \<longleftrightarrow> (\<exists>x \<in># m. u \<in># range_units x)"
  by (induction m) auto

lemma fl_abs_split:
  assumes "i < length fl" "fl_live (fl ! i)"
  shows "fl_abs fl = add_mset (fl ! i) (fl_abs (fl[i := zero_range]))"
proof -
  have "fl ! i \<in># fl_abs fl" using assms by (auto simp: fl_abs_mem)
  moreover have "\<not> fl_live zero_range" by (simp add: fl_live_def zero_range_def)
  ultimately show ?thesis using assms by (simp add: fl_abs_update)
qed

lemma range_units_live: "u \<in># range_units r \<Longrightarrow> fl_live r"
  by (auto simp: range_units_mem fl_live_def)

text \<open>A unit of the space is in at most one slot of the free list.\<close>

lemma unit_index:
  assumes "units_of (fl_abs fl) \<subseteq># all_units" "i < length fl" "j < length fl"
    and "u \<in># range_units (fl ! i)" "u \<in># range_units (fl ! j)"
  shows "i = j"
proof (rule ccontr)
  assume "i \<noteq> j"
  let ?M = "fl_abs (fl[i := zero_range])"
  have l: "fl_live (fl ! i)" "fl_live (fl ! j)" using assms(4,5) by (auto intro: range_units_live)
  have "fl ! j \<in># ?M" using \<open>i \<noteq> j\<close> assms(3) l(2) by (auto simp: fl_abs_mem intro!: exI [of _ j])
  moreover have "range_units (fl ! i) + units_of ?M \<subseteq># all_units" using assms(1) fl_abs_split [OF assms(2) l(1)] by simp
  ultimately show False using unit_once assms(4,5) by blast
qed

lemma il_ok_units:
  assumes "il_ok r"
  shows "il_start r = 1024 * (il_start r div 1024)" "il_end r = 1024 * (il_start r div 1024 + il_size r)" "0 \<le> il_start r div 1024"
  using assms by (auto simp: il_ok_def il_end_def pos_imp_zdiv_nonneg_iff)

lemma fl_liveD: "il_ok r \<Longrightarrow> fl_live r \<Longrightarrow> 0 < il_size r"
  by (simp add: il_ok_def fl_live_def)

definition fl_good :: "ExtentMap \<Rightarrow> bool" where
  "fl_good st \<longleftrightarrow> em_geom st \<and> (\<forall>x \<in> set (fFreeList st). il_ok x) \<and> units_of (fl_abs (fFreeList st)) \<subseteq># all_units \<and>
     fl_consolidated (fl_abs (fFreeList st)) \<and>
     mst_currentSize (fFLShminfo st) = sizeof_InlineLBIDRange * int (size (fl_abs (fFreeList st)))"

definition covers :: "InlineLBIDRange \<Rightarrow> InlineLBIDRange \<Rightarrow> bool" where
  "covers x r \<longleftrightarrow> il_start x \<le> il_start r \<and> il_end r \<le> il_end x"

text \<open>A range all of whose units are free lies in one free range, as adjacent ones have been joined.\<close>

lemma free_range_covers:
  assumes g: "fl_good st" and r: "il_ok r" "fl_live r" "range_units r \<subseteq># units_of (fl_abs (fFreeList st))"
  shows "\<exists>i < length (fFreeList st). fl_live (fFreeList st ! i) \<and> covers (fFreeList st ! i) r"
proof -
  let ?fl = "fFreeList st" and ?a = "\<lambda>x. il_start x div 1024"
  have ok: "il_ok (?fl ! i)" if "i < length ?fl" for i using g that by (simp add: fl_good_def)
  have slot: "\<exists>i < length ?fl. u \<in># range_units (?fl ! i)" if u: "u \<in># range_units r" for u
  proof -
    have "u \<in># units_of (fl_abs ?fl)" using r(3) u by (rule mset_subset_eqD)
    then show ?thesis by (auto simp: units_of_mem fl_abs_mem)
  qed
  have "?a r \<in># range_units r" using fl_liveD [OF r(1,2)] by (simp add: range_units_mem)
  then obtain i where i: "i < length ?fl" "?a r \<in># range_units (?fl ! i)" using slot by blast
  let ?x = "?fl ! i"
  have x: "?a ?x \<le> ?a r" "?a r < ?a ?x + il_size ?x" using i(2) by (auto simp: range_units_mem)
  have "?a r + il_size r \<le> ?a ?x + il_size ?x"
  proof (rule ccontr)
    assume n: "\<not> ?thesis"
    let ?u = "?a ?x + il_size ?x"
    have "?u \<in># range_units r" using n x by (simp add: range_units_mem)
    then obtain j where j: "j < length ?fl" "?u \<in># range_units (?fl ! j)" using slot by blast
    have "?a (?fl ! j) = ?u"
    proof (rule ccontr)
      assume "?a (?fl ! j) \<noteq> ?u"
      then have "?u - 1 \<in># range_units (?fl ! j)" using j(2) by (auto simp: range_units_mem)
      moreover have "?u - 1 \<in># range_units ?x" using x by (simp add: range_units_mem)
      ultimately have "j = i" using unit_index [OF _ j(1) i(1)] g by (auto simp: fl_good_def)
      then show False using j(2) by (simp add: range_units_mem)
    qed
    then have "il_end ?x = il_start (?fl ! j)" using il_ok_units [OF ok [OF i(1)]] il_ok_units [OF ok [OF j(1)]] by simp
    moreover have "?x \<in># fl_abs ?fl" "?fl ! j \<in># fl_abs ?fl"
      using i j range_units_live [OF i(2)] range_units_live [OF j(2)] by (auto simp: fl_abs_mem)
    ultimately show False using g by (auto simp: fl_good_def fl_consolidated_def)
  qed
  then have "covers ?x r" using x il_ok_units [OF ok [OF i(1)]] il_ok_units [OF r(1)] by (simp add: covers_def)
  then show ?thesis using i(1) range_units_live [OF i(2)] by blast
qed

text \<open>Every slot that the scan of \<open>reserveLBIDRange\<close> stops at covers the range: there is one only.\<close>

lemma reserve_hit_covers:
  assumes g: "fl_good st" and r: "il_ok r" "fl_live r" "range_units r \<subseteq># units_of (fl_abs (fFreeList st))"
  shows "\<exists>i. find_slot (reserve_hit (il_start r) (il_end r - 1)) (fFreeList st) = Some i \<and> i < length (fFreeList st) \<and>
    fl_live (fFreeList st ! i) \<and> covers (fFreeList st ! i) r"
proof -
  let ?fl = "fFreeList st" and ?a = "\<lambda>x. il_start x div 1024" and ?hit = "reserve_hit (il_start r) (il_end r - 1)"
  have ok: "il_ok (?fl ! i)" if "i < length ?fl" for i using g that by (simp add: fl_good_def)
  obtain i where i: "i < length ?fl" "fl_live (?fl ! i)" "covers (?fl ! i) r" using free_range_covers [OF assms] by blast
  have pos: "0 < il_size r" using r by (rule_tac fl_liveD)
  have in_i: "?a r \<in># range_units (?fl ! i)" "?a r + il_size r - 1 \<in># range_units (?fl ! i)"
    using i(3) pos il_ok_units [OF r(1)] il_ok_units [OF ok [OF i(1)]] by (auto simp: covers_def range_units_mem)
  have "?hit (?fl ! i)" using i(2,3) by (auto simp: reserve_hit_def covers_def fl_live_def)
  moreover have "j = i" if j: "j < length ?fl" "?hit (?fl ! j)" for j
  proof -
    have l: "0 < il_size (?fl ! j)" using j ok fl_liveD by (auto simp: reserve_hit_def fl_live_def)
    have "?a r \<in># range_units (?fl ! j) \<or> ?a r + il_size r - 1 \<in># range_units (?fl ! j)"
      using j(2) l pos il_ok_units [OF r(1)] il_ok_units [OF ok [OF j(1)]] by (auto simp: reserve_hit_def range_units_mem)
    then show ?thesis using in_i unit_index [OF _ j(1) i(1)] g by (auto simp: fl_good_def)
  qed
  ultimately have "find_slot ?hit ?fl = Some i" using i(1) by (intro find_slot_unique)
  then show ?thesis using i by blast
qed

text \<open>What is left of a free range \<open>x\<close> when \<open>r\<close> is cut out of it.\<close>

definition left_over :: "InlineLBIDRange \<Rightarrow> InlineLBIDRange \<Rightarrow> InlineLBIDRange \<Rightarrow> bool" where
  "left_over x r p \<longleftrightarrow> il_ok p \<and> fl_live p \<and> (il_start p = il_start x \<or> il_start p = il_end r) \<and> (il_end p = il_end x \<or> il_end p = il_start r)"

lemma left_over_apart:
  assumes once: "range_units x + units_of M \<subseteq># all_units" and x: "il_ok x" "covers x r" "il_ok r" "fl_live r"
    and cons: "fl_consolidated (add_mset x M)" and M: "\<forall>y \<in># M. il_ok y \<and> fl_live y" and P: "\<forall>p \<in># P. left_over x r p"
  shows "fl_consolidated (P + M)"
proof -
  let ?a = "\<lambda>x. il_start x div 1024"
  have ux: "il_start x = 1024 * ?a x" "il_end x = 1024 * (?a x + il_size x)" using il_ok_units [OF x(1)] by auto
  have ur: "il_start r = 1024 * ?a r" "il_end r = 1024 * (?a r + il_size r)" "0 < il_size r" using il_ok_units [OF x(3)] fl_liveD [OF x(3,4)] by auto
  have in_x: "?a x \<le> ?a r" "?a r + il_size r \<le> ?a x + il_size x" using x(2) ux ur by (auto simp: covers_def)
  have c: "il_end a \<noteq> il_start b" if "a \<in># add_mset x M" "b \<in># add_mset x M" for a b using cons that by (auto simp: fl_consolidated_def)
  have MP: "il_end y \<noteq> il_start p \<and> il_end p \<noteq> il_start y" if y: "y \<in># M" and p: "p \<in># P" for y p
  proof -
    have uy: "il_start y = 1024 * ?a y" "il_end y = 1024 * (?a y + il_size y)" "0 < il_size y" using il_ok_units [of y] fl_liveD [of y] M y by auto
    have no: "u \<notin># range_units x" if "u \<in># range_units y" for u using unit_once [OF once y that] .
    have "il_end y \<noteq> il_end r" "il_start r \<noteq> il_start y"
      using no [of "?a y + il_size y - 1"] no [of "?a y"] uy ur in_x by (auto simp: range_units_mem)
    then show ?thesis using P p c [of y x] c [of x y] y by (auto simp: left_over_def)
  qed
  have PP: "il_end a \<noteq> il_start b" if "a \<in># P" "b \<in># P" for a b
  proof -
    have "il_start a < il_end a" "il_start b < il_end b" using P that fl_liveD by (auto simp: left_over_def il_end_def)
    moreover have "left_over x r a" "left_over x r b" using P that by auto
    moreover have "il_start x \<le> il_start r" "il_start r < il_end r" "il_end r \<le> il_end x" using x(2) ur(3) by (auto simp: covers_def il_end_def)
    ultimately show ?thesis unfolding left_over_def by linarith
  qed
  show ?thesis using MP PP c by (auto simp: fl_consolidated_def)
qed

definition reserved :: "InlineLBIDRange \<Rightarrow> ExtentMap \<Rightarrow> ExtentMap \<Rightarrow> bool" where
  "reserved r st st' \<longleftrightarrow> fl_good st' \<and> fl_frame st st' \<and> emLocked st' = emLocked st \<and> flLocked st' = flLocked st \<and>
     units_of (fl_abs (fFreeList st)) = units_of (fl_abs (fFreeList st')) + range_units r"

lemma reservedI:
  assumes g: "fl_good st" and i: "i < length (fFreeList st)" "fl_live (fFreeList st ! i)"
    and r: "il_ok r" "fl_live r" "covers (fFreeList st ! i) r"
    and P: "\<forall>p \<in># P. left_over (fFreeList st ! i) r p" "units_of P + range_units r = range_units (fFreeList st ! i)"
    and st': "fl_abs (fFreeList st') = P + fl_abs ((fFreeList st)[i := zero_range])" "\<forall>x \<in> set (fFreeList st'). il_ok x"
      "fl_frame st st'" "emLocked st' = emLocked st" "flLocked st' = flLocked st" "em_geom st'"
      "mst_currentSize (fFLShminfo st') = mst_currentSize (fFLShminfo st) + sizeof_InlineLBIDRange * (int (size P) - 1)"
  shows "reserved r st st'"
proof -
  let ?x = "fFreeList st ! i" and ?M = "fl_abs ((fFreeList st)[i := zero_range])"
  note m = fl_abs_split [OF i]
  have gs: "units_of (fl_abs (fFreeList st)) \<subseteq># all_units" "fl_consolidated (add_mset ?x ?M)"
      "mst_currentSize (fFLShminfo st) = sizeof_InlineLBIDRange * int (size (add_mset ?x ?M))" "\<forall>x \<in> set (fFreeList st). il_ok x"
    using g m by (auto simp: fl_good_def)
  have once: "range_units ?x + units_of ?M \<subseteq># all_units" using gs(1) m by simp
  have "\<forall>y \<in># ?M. y \<in># fl_abs (fFreeList st)" using m by simp
  then have "\<forall>y \<in># ?M. il_ok y \<and> fl_live y" using gs(4) by (auto simp: fl_abs_mem)
  then have "fl_consolidated (P + ?M)" using left_over_apart [OF once _ r(3,1,2) gs(2) _ P(1)] gs(4) i(1) by simp
  moreover have un: "units_of (fl_abs (fFreeList st)) = units_of (P + ?M) + range_units r"
    unfolding m units_of_simps P(2) [symmetric] by (simp only: ac_simps)
  moreover have "units_of (P + ?M) \<subseteq># all_units" using gs(1) unfolding un by (metis mset_subset_eq_add_left subset_mset.order_trans)
  moreover have "mst_currentSize (fFLShminfo st') = sizeof_InlineLBIDRange * int (size (P + ?M))"
    using st'(7) gs(3) by (simp add: algebra_simps)
  ultimately show ?thesis using st' by (simp add: reserved_def fl_good_def)
qed

definition cut_front :: "InlineLBIDRange \<Rightarrow> InlineLBIDRange \<Rightarrow> InlineLBIDRange" where
  "cut_front x r = \<lparr>il_start = il_start x, il_size = (il_start r - il_start x) div 1024\<rparr>"

definition cut_back :: "InlineLBIDRange \<Rightarrow> InlineLBIDRange \<Rightarrow> InlineLBIDRange" where
  "cut_back x r = \<lparr>il_start = il_end r, il_size = (il_end x - il_end r) div 1024\<rparr>"

definition live_part :: "InlineLBIDRange \<Rightarrow> InlineLBIDRange multiset" where
  "live_part p = (if fl_live p then {#p#} else {#})"

lemma units_of_live_part [simp]: "units_of (live_part p) = range_units p"
  by (auto simp: live_part_def range_units_def fl_live_def)

lemma cut_pieces:
  assumes "il_ok x" "il_ok r" "fl_live r" "covers x r"
  shows "range_units (cut_front x r) + range_units (cut_back x r) + range_units r = range_units x"
    and "\<forall>p \<in># live_part (cut_front x r) + live_part (cut_back x r). left_over x r p" "il_ok (cut_front x r)" "il_ok (cut_back x r)"
    and "il_size (cut_front x r) = il_start r div 1024 - il_start x div 1024"
    and "il_size (cut_back x r) = il_start x div 1024 + il_size x - (il_start r div 1024 + il_size r)"
proof -
  let ?a = "\<lambda>x. il_start x div 1024"
  have x: "il_start x = 1024 * ?a x" "il_end x = 1024 * (?a x + il_size x)" "0 \<le> ?a x" using il_ok_units [OF assms(1)] by auto
  have r: "il_start r = 1024 * ?a r" "il_end r = 1024 * (?a r + il_size r)" "0 < il_size r" "0 \<le> ?a r" using il_ok_units [OF assms(2)] fl_liveD [OF assms(2,3)] by auto
  have le: "?a x \<le> ?a r" "?a r + il_size r \<le> ?a x + il_size x" using assms(4) x r by (auto simp: covers_def)
  have "il_start r - il_start x = 1024 * (?a r - ?a x)" "il_end x - il_end r = 1024 * (?a x + il_size x - (?a r + il_size r))"
    using x r by (auto simp: algebra_simps)
  then show f: "il_size (cut_front x r) = ?a r - ?a x" and b: "il_size (cut_back x r) = ?a x + il_size x - (?a r + il_size r)"
    by (simp_all add: cut_front_def cut_back_def)
  have fs: "il_start (cut_front x r) = il_start x" "il_start (cut_back x r) = il_end r" by (simp_all add: cut_front_def cut_back_def)
  have "?a (cut_back x r) = ?a r + il_size r" using fs(2) r(2) by simp
  moreover have "mset_set {?a x..<?a r} + (mset_set {?a r..<?a r + il_size r} + mset_set {?a r + il_size r..<?a x + il_size x}) = mset_set {?a x..<?a x + il_size x}"
    using le r(3) by (simp add: mset_set_upto_join)
  ultimately show "range_units (cut_front x r) + range_units (cut_back x r) + range_units r = range_units x"
    by (simp add: range_units_def f b fs(1) ac_simps)
  show ok: "il_ok (cut_front x r)" "il_ok (cut_back x r)" using assms(1,2) f b fs le r x by (auto simp: il_ok_def)
  have "il_end (cut_front x r) = il_start r" "il_end (cut_back x r) = il_end x" unfolding il_end_def [of "cut_front x r"] il_end_def [of "cut_back x r"] fs f b
    using x r by simp_all
  then show "\<forall>p \<in># live_part (cut_front x r) + live_part (cut_back x r). left_over x r p" using ok fs by (auto simp: live_part_def left_over_def)
qed

lemma fl_abs_put: "i < length fl \<Longrightarrow> fl_abs (fl[i := p]) = live_part p + fl_abs (fl[i := zero_range])"
  by (simp add: fl_abs_update live_part_def) (simp add: fl_live_def zero_range_def)

lemma fl_shrink_simps [simp]:
  "fFreeList (fl_shrink i p st) = (fFreeList st)[i := p]" "fl_frame st (fl_shrink i p st)" "em_geom (fl_shrink i p st) = em_geom st"
  "emLocked (fl_shrink i p st) = emLocked st" "flLocked (fl_shrink i p st) = flLocked st"
  "mst_currentSize (fFLShminfo (fl_shrink i p st)) = mst_currentSize (fFLShminfo st) - (if il_size p = 0 then sizeof_InlineLBIDRange else 0)"
  by (simp_all add: fl_shrink_def Let_def fl_frame_def fl_resize_def fl_put_def em_makeUndoRecord_def em_geom_def)

lemma reserved_shrink:
  assumes g: "fl_good st" and i: "i < length (fFreeList st)" "fl_live (fFreeList st ! i)"
    and r: "il_ok r" "fl_live r" "covers (fFreeList st ! i) r"
    and p: "il_ok p" "live_part (cut_front (fFreeList st ! i) r) + live_part (cut_back (fFreeList st ! i) r) = live_part p"
  shows "reserved r st (fl_shrink i p st)"
proof -
  let ?x = "fFreeList st ! i"
  have x: "il_ok ?x" "\<forall>x \<in> set (fFreeList st). il_ok x" "em_geom st" using g i by (auto simp: fl_good_def)
  note cut = cut_pieces [OF x(1) r]
  have "units_of (live_part p) + range_units r = range_units ?x" using cut(1) unfolding p(2) [symmetric] by simp
  moreover have "\<forall>q \<in># live_part p. left_over ?x r q" using cut(2) p(2) by simp
  ultimately show ?thesis
    using x p(1) set_update_ok [OF x(2) p(1)] i(1)
    by (intro reservedI [OF g i r, where P = "live_part p"])
      (simp_all add: fl_abs_put [OF i(1), of p], auto simp: live_part_def fl_live_def)
qed

text \<open>The slot for the second half.\<close>

lemma split_slot_ok:
  assumes g: "fl_good st" and i: "i < length (fFreeList st)" "fl_live (fFreeList st ! i)"
  shows "\<exists>f st1 k. split_slot i (fFreeList st) st = Some (f, st1) \<and> f \<noteq> i \<and> fFreeList st1 = fFreeList st @ replicate k zero_range \<and>
    f < length (fFreeList st1) \<and> \<not> fl_live (fFreeList st1 ! f) \<and> em_geom st1 \<and> fl_frame st st1 \<and>
    mst_currentSize (fFLShminfo st1) = mst_currentSize (fFLShminfo st) \<and> emLocked st1 = emLocked st \<and> flLocked st1 = flLocked st"
proof (cases "find_slot (\<lambda>r. il_size r = 0) (take i (fFreeList st))")
  case (Some f)
  then have "f < i" "il_size (fFreeList st ! f) = 0" using i(1) by (auto simp: find_slot_Some)
  then show ?thesis using Some g i(1) by (auto simp: split_slot_def fl_live_def fl_frame_def fl_good_def intro!: exI [of _ st] exI [of _ 0])
next
  case None
  let ?fl = "fFreeList st"
  have before: "fl_live (?fl ! j)" if "j < i" for j using None that i(1) nth_mem [of j "take i ?fl"] by (auto simp: find_slot_None fl_live_def)
  show ?thesis
  proof (cases "mst_currentSize (fFLShminfo st) = allocdSize (fFLShminfo st)")
    case True
    have g': "em_geom st" using g by (simp add: fl_good_def)
    then have "fFreeList (growFLShmseg st) = ?fl @ replicate 50 zero_range"
      by (simp add: growFLShmseg_def em_geom_def em_size_defs)
    then show ?thesis using None True g' i(1)
      by (auto simp: split_slot_def growFLShmseg_def Let_def em_geom_def fl_frame_def em_size_defs fl_live_def zero_range_def nth_append intro!: exI [of _ "50 :: nat"])
  next
    case False
    have "size (fl_abs ?fl) \<noteq> length ?fl" using False g by (auto simp: fl_good_def em_geom_def)
    then obtain j where j: "j < length ?fl" "\<not> fl_live (?fl ! j)"
      unfolding size_fl_abs by (metis filter_True in_set_conv_nth)
    then have "i < j" using before i(2) by (metis linorder_neqE_nat)
    then have "find_slot (\<lambda>r. il_size r = 0) (drop (i + 1) ?fl) \<noteq> None"
      using j by (auto simp: find_slot_None fl_live_def set_conv_nth intro!: exI [of _ "j - Suc i"])
    then obtain k where k: "find_slot (\<lambda>r. il_size r = 0) (drop (i + 1) ?fl) = Some k" by blast
    then have "i + 1 + k < length ?fl" "il_size (?fl ! (i + 1 + k)) = 0" by (auto simp: find_slot_Some)
    then show ?thesis using None False k g by (auto simp: split_slot_def fl_live_def fl_frame_def fl_good_def intro!: exI [of _ st] exI [of _ 0])
  qed
qed


lemma reserved_split:
  assumes g: "fl_good st" and i: "i < length (fFreeList st)" "fl_live (fFreeList st ! i)"
    and r: "il_ok r" "fl_live r" "covers (fFreeList st ! i) r"
    and live: "fl_live (cut_front (fFreeList st ! i) r)" "fl_live (cut_back (fFreeList st ! i) r)"
    and s: "split_slot i (fFreeList st) st = Some (f, st1)"
  shows "reserved r st (fl_resize sizeof_InlineLBIDRange (fl_put f (cut_back (fFreeList st ! i) r) (fl_put i (cut_front (fFreeList st ! i) r) st1)))"
    (is "reserved r st ?st'")
proof -
  let ?x = "fFreeList st ! i" and ?fl = "fFreeList st"
  have x: "il_ok ?x" "\<forall>x \<in> set ?fl. il_ok x" using g i by (auto simp: fl_good_def)
  note cut = cut_pieces [OF x(1) r]
  obtain k where st1: "f \<noteq> i" "fFreeList st1 = ?fl @ replicate k zero_range" "f < length (fFreeList st1)" "\<not> fl_live (fFreeList st1 ! f)"
      "em_geom st1" "fl_frame st st1" "mst_currentSize (fFLShminfo st1) = mst_currentSize (fFLShminfo st)" "emLocked st1 = emLocked st" "flLocked st1 = flLocked st"
    using split_slot_ok [OF g i] s by auto
  have i1: "i < length (fFreeList st1)" using i(1) st1(2) by simp
  have fl': "fFreeList ?st' = (fFreeList st1)[i := cut_front ?x r, f := cut_back ?x r]" by simp
  have "fl_abs (fFreeList ?st') = add_mset (cut_back ?x r) (fl_abs ((fFreeList st1)[i := cut_front ?x r]))"
    unfolding fl' using st1(1,3,4) live(2) by (intro fl_abs_update_dead) auto
  also have "fl_abs ((fFreeList st1)[i := cut_front ?x r]) = add_mset (cut_front ?x r) (fl_abs ((fFreeList st1)[i := zero_range]))"
    using fl_abs_put [OF i1, of "cut_front ?x r"] live(1) by (simp add: live_part_def)
  also have "(fFreeList st1)[i := zero_range] = ?fl[i := zero_range] @ replicate k zero_range" using i(1) by (simp add: st1(2) list_update_append1)
  finally have "fl_abs (fFreeList ?st') = {#cut_front ?x r, cut_back ?x r#} + fl_abs (?fl[i := zero_range])" by (simp add: fl_abs_append fl_abs_zero)
  moreover have "\<forall>y \<in> set (fFreeList st1). il_ok y" using x(2) by (auto simp: st1(2) il_ok_def zero_range_def)
  then have "\<forall>y \<in> set (fFreeList ?st'). il_ok y" unfolding fl' using cut(3,4) by (intro set_update_ok)
  moreover have "\<forall>p \<in># {#cut_front ?x r, cut_back ?x r#}. left_over ?x r p" using cut(2) live by (simp add: live_part_def)
  moreover have "units_of {#cut_front ?x r, cut_back ?x r#} + range_units r = range_units ?x" using cut(1) by (simp add: ac_simps)
  moreover have "emLocked ?st' = emLocked st1" "flLocked ?st' = flLocked st1" by (simp_all add: fl_put_def fl_resize_def em_makeUndoRecord_def)
  ultimately show ?thesis
    using st1(5-9) by (intro reservedI [OF g i r, where P = "{#cut_front ?x r, cut_back ?x r#}"]) (simp_all add: fl_frame_def)
qed

lemma reserveLBIDRange_ok:
  assumes g: "fl_good st" and r: "il_ok r" "fl_live r" "range_units r \<subseteq># units_of (fl_abs (fFreeList st))" and small: "il_size r < 2 ^ 8"
  shows "\<exists>st'. reserveLBIDRange (il_start r) (il_size r) st = Some st' \<and> reserved r st st'"
proof -
  let ?fl = "fFreeList st" and ?a = "\<lambda>x. il_start x div 1024"
  have pos: "0 < il_size r" using fl_liveD r by blast
  then have u8: "u8_of (il_size r) = il_size r" "il_start r + u8_of (il_size r) * 1024 = il_end r" using small by (simp_all add: u8_of_def il_end_def)
  obtain i where i: "find_slot (reserve_hit (il_start r) (il_end r - 1)) ?fl = Some i" "i < length ?fl" "fl_live (?fl ! i)" "covers (?fl ! i) r"
    using reserve_hit_covers [OF g r] by blast
  let ?x = "?fl ! i"
  have gs: "em_geom st" "il_ok ?x" "?x \<in># fl_abs ?fl" using g i by (auto simp: fl_good_def fl_abs_mem)
  have "range_units ?x \<subseteq># all_units" using g units_of_member [OF gs(3)] subset_mset.order_trans by (auto simp: fl_good_def)
  from range_bounds(3) [OF this i(3) gs(2)] have big: "il_size ?x \<le> 2 ^ 26" .
  note cut = cut_pieces [OF gs(2) r(1,2) i(4)]
  have x: "il_start ?x = 1024 * ?a ?x" "il_end ?x = 1024 * (?a ?x + il_size ?x)" using il_ok_units [OF gs(2)] by auto
  have rr: "il_start r = 1024 * ?a r" "il_end r = 1024 * (?a r + il_size r)" using il_ok_units [OF r(1)] by auto
  have le: "?a ?x \<le> ?a r" "?a r + il_size r \<le> ?a ?x + il_size ?x" using i(4) x rr by (auto simp: covers_def)
  have div: "(il_end ?x - 1 - (il_end r - 1)) div 1024 = il_size (cut_back ?x r)" "(il_start r - il_start ?x) div 1024 = il_size (cut_front ?x r)"
    by (simp_all add: cut_back_def cut_front_def)
  have cf: "\<lparr>il_start = il_start ?x, il_size = u32_of ((il_start r - il_start ?x) div 1024)\<rparr> = cut_front ?x r"
    using u32_id [of "il_size (cut_front ?x r)"] cut(5) le big pos unfolding div by (simp add: cut_front_def)
  have cb: "\<lparr>il_start = il_end r, il_size = u32_of ((il_end ?x - 1 - (il_end r - 1)) div 1024)\<rparr> = cut_back ?x r"
    using u32_id [of "il_size (cut_back ?x r)"] cut(6) le big pos unfolding div by (simp add: cut_back_def)
  have u32: "u32_of (il_size ?x - il_size r) = il_size ?x - il_size r" using le big pos by (intro u32_id) auto
  have res: "reserveLBIDRange (il_start r) (il_size r) st =
      (if il_start r = il_start ?x then Some (fl_shrink i \<lparr>il_start = il_start ?x + il_size r * 1024, il_size = il_size ?x - il_size r\<rparr> st)
       else if il_end ?x - 1 = il_end r - 1 then Some (fl_shrink i \<lparr>il_start = il_start ?x, il_size = il_size ?x - il_size r\<rparr> st)
       else map_option (\<lambda>(f, st1). fl_resize sizeof_InlineLBIDRange (fl_put f (cut_back ?x r) (fl_put i (cut_front ?x r) st1))) (split_slot i ?fl st))"
    unfolding reserveLBIDRange_def fl_slots_geom [OF gs(1)] Option.bind.simps Let_def u8(2) i(1) option.case unfolding u8(1) u32 cf cb by (rule refl)
  consider (f) "il_start r = il_start ?x" | (b) "il_start r \<noteq> il_start ?x" "il_end ?x - 1 = il_end r - 1" | (m) "il_start r \<noteq> il_start ?x" "il_end ?x - 1 \<noteq> il_end r - 1" by blast
  then show ?thesis
  proof cases
    case f
    have "\<lparr>il_start = il_start ?x + il_size r * 1024, il_size = il_size ?x - il_size r\<rparr> = cut_back ?x r" "\<not> fl_live (cut_front ?x r)"
      using f cut(5,6) by (simp_all add: cut_back_def il_end_def fl_live_def)
    then show ?thesis using f reserved_shrink [OF g i(2,3) r(1,2) i(4) cut(4)] unfolding res by (simp add: live_part_def)
  next
    case b
    have "il_size ?x - il_size r = il_size (cut_front ?x r)" using b(2) x(2) rr(2) cut(5) by simp
    then have "\<lparr>il_start = il_start ?x, il_size = il_size ?x - il_size r\<rparr> = cut_front ?x r" by (simp add: cut_front_def)
    moreover have "\<not> fl_live (cut_back ?x r)" using b(2) x(2) rr(2) cut(6) by (simp add: fl_live_def)
    ultimately show ?thesis using b reserved_shrink [OF g i(2,3) r(1,2) i(4) cut(3)] unfolding res by (simp add: live_part_def)
  next
    case m
    obtain f st1 where s: "split_slot i ?fl st = Some (f, st1)" using split_slot_ok [OF g i(2,3)] by blast
    have "fl_live (cut_front ?x r)" "fl_live (cut_back ?x r)" using m x rr cut(5,6) by (simp_all add: fl_live_def)
    from reserved_split [OF g i(2,3) r(1,2) i(4) this s] show ?thesis using m s unfolding res by simp
  qed
qed

section \<open>Loading an image\<close>

definition em_loadable :: "EMEntry \<Rightarrow> bool" where
  "em_loadable e \<longleftrightarrow> il_ok (em_range e) \<and> em_used e \<and> il_size (em_range e) < 2 ^ 8"

lemma fl_good_em [simp]: "fl_good (st\<lparr>fExtentMap := (fExtentMap st)[i := e]\<rparr>) = fl_good st"
  by (simp add: fl_good_def em_geom_def)

lemma load_entries_ok:
  assumes "fl_good st" "i + length es \<le> length (fExtentMap st)" "\<forall>e \<in> set es. em_loadable e"
    and "units_of (mset (map em_range es)) \<subseteq># units_of (fl_abs (fFreeList st))"
  shows "\<exists>st'. load_entries (length es) i es st = Some (Inr (), st') \<and> fl_good st' \<and>
    units_of (fl_abs (fFreeList st)) = units_of (fl_abs (fFreeList st')) + units_of (mset (map em_range es)) \<and>
    fExtentMap st' = take i (fExtentMap st) @ map fix_status es @ drop (i + length es) (fExtentMap st) \<and>
    fEMShminfo st' = fEMShminfo st"
  using assms
proof (induction es arbitrary: i st)
  case Nil
  then show ?case by simp
next
  case (Cons e es)
  let ?r = "em_range e" and ?st0 = "st\<lparr>fExtentMap := (fExtentMap st)[i := e]\<rparr>"
  have i: "i < length (fExtentMap st)" and e: "il_ok ?r" "fl_live ?r" "il_size ?r < 2 ^ 8"
    using Cons.prems(2,3) by (auto simp: em_loadable_def em_used_live)
  have sel: "fFreeList ?st0 = fFreeList st" by simp
  have "range_units ?r \<subseteq># units_of (fl_abs (fFreeList ?st0))"
    by (rule subset_mset.order_trans [OF _ Cons.prems(4) [folded sel]]) simp
  then obtain st1 where st1: "reserveLBIDRange (il_start ?r) (il_size ?r) ?st0 = Some st1" "reserved ?r ?st0 st1"
    using reserveLBIDRange_ok [of ?st0 ?r, OF _ e(1,2) _ e(3)] Cons.prems(1) by (auto simp only: fl_good_em)
  let ?st1 = "st1\<lparr>fExtentMap := (fExtentMap st1)[i := fix_status e]\<rparr>"
  have em: "fExtentMap ?st1 = (fExtentMap st)[i := fix_status e]" "fEMShminfo ?st1 = fEMShminfo st"
    using st1(2) by (simp_all add: reserved_def fl_frame_def)
  have un: "units_of (fl_abs (fFreeList st)) = units_of (fl_abs (fFreeList ?st1)) + range_units ?r" using st1(2) by (simp add: reserved_def)
  have "units_of (mset (map em_range es)) \<subseteq># units_of (fl_abs (fFreeList ?st1))" using Cons.prems(4) unfolding un by (simp add: add.commute)
  moreover have "fl_good ?st1" using st1(2) unfolding fl_good_em by (simp add: reserved_def)
  moreover have "Suc i + length es \<le> length (fExtentMap ?st1)" "\<forall>e \<in> set es. em_loadable e"
    using Cons.prems(2,3) unfolding em by simp_all
  ultimately obtain st' where st': "load_entries (length es) (Suc i) es ?st1 = Some (Inr (), st')" "fl_good st'"
      "units_of (fl_abs (fFreeList ?st1)) = units_of (fl_abs (fFreeList st')) + units_of (mset (map em_range es))"
      "fExtentMap st' = take (Suc i) (fExtentMap ?st1) @ map fix_status es @ drop (Suc i + length es) (fExtentMap ?st1)" "fEMShminfo st' = fEMShminfo ?st1"
    using Cons.IH [of ?st1 "Suc i"] by blast
  have "fExtentMap st' = take i (fExtentMap st) @ map fix_status (e # es) @ drop (i + length (e # es)) (fExtentMap st)"
    using i unfolding st'(4) em by (simp add: take_Suc_conv_app_nth)
  moreover have "units_of (fl_abs (fFreeList st)) = units_of (fl_abs (fFreeList st')) + units_of (mset (map em_range (e # es)))"
    unfolding un st'(3) by (simp only: mset.simps list.map units_of_simps ac_simps)
  ultimately show ?case using i st1(1) st'(1,2,5) em(2) by simp
qed

lemma em_blank_simps [simp]:
  "length (fExtentMap (em_blank st)) = length (fExtentMap st)" "allocdSize (fEMShminfo (em_blank st)) = allocdSize (fEMShminfo st)"
  "fExtentMap (em_blank st) = replicate (length (fExtentMap st)) zero_EMEntry"
  by (simp_all add: em_blank_def)

lemma em_blank_good:
  assumes "em_geom st"
  shows "fl_good (em_blank st)" "units_of (fl_abs (fFreeList (em_blank st))) = all_units"
proof -
  have n: "0 < length (fFreeList st)" using assms by (simp add: em_geom_def)
  have "(replicate (length (fFreeList st)) zero_range)[0 := zero_range] = replicate (length (fFreeList st)) zero_range"
    using n by (simp add: list_update_same_conv)
  then have "fl_abs (fFreeList (em_blank st)) = live_part \<lparr>il_start = 0, il_size = 2 ^ 26\<rparr> + fl_abs (replicate (length (fFreeList st)) zero_range)"
    using fl_abs_put [of 0 "replicate (length (fFreeList st)) zero_range" "\<lparr>il_start = 0, il_size = 2 ^ 26\<rparr>"] n by (simp add: em_blank_def)
  then have m: "fl_abs (fFreeList (em_blank st)) = {#\<lparr>il_start = 0, il_size = 2 ^ 26\<rparr>#}" by (simp add: fl_abs_zero live_part_def fl_live_def)
  then show u: "units_of (fl_abs (fFreeList (em_blank st))) = all_units" by (simp add: range_units_def all_units_def)
  have "\<forall>x \<in> set (replicate (length (fFreeList st)) zero_range). il_ok x" "il_ok \<lparr>il_start = 0, il_size = 2 ^ 26\<rparr>"
    by (simp_all add: il_ok_def zero_range_def)
  from set_update_ok [OF this, of 0] have "\<forall>x \<in> set (fFreeList (em_blank st)). il_ok x" by (simp add: em_blank_def)
  moreover have "em_geom (em_blank st)" using assms by (auto simp: em_blank_def em_geom_def)
  moreover have "fl_consolidated (fl_abs (fFreeList (em_blank st)))" unfolding m by (simp add: fl_consolidated_def il_end_def)
  moreover have "mst_currentSize (fFLShminfo (em_blank st)) = sizeof_InlineLBIDRange" by (simp add: em_blank_def)
  ultimately show "fl_good (em_blank st)" unfolding fl_good_def u by (simp add: m)
qed

lemma growEMShmseg_rows:
  assumes "em_geom st" "0 \<le> n"
  shows "\<exists>k. fExtentMap (growEMShmseg n st) = fExtentMap st @ replicate k zero_EMEntry \<and> nat n \<le> length (fExtentMap st) + k"
    and "em_geom (growEMShmseg n st)" "fFreeList (growEMShmseg n st) = fFreeList st" "fFLShminfo (growEMShmseg n st) = fFLShminfo st"
proof -
  let ?a = "max (allocdSize (fEMShminfo st) + EM_INCREMENT) (n * sizeof_EMEntry)" and ?l = "length (fExtentMap st)"
  have g: "allocdSize (fEMShminfo st) = 64 * int ?l" "allocdSize (fEMShminfo st) \<noteq> 0" using assms(1) by (auto simp: em_geom_def em_size_defs)
  have "?a = 64 * max (int ?l + 100) n" using g by (auto simp: em_size_defs max_def)
  then have a: "?a div sizeof_EMEntry = max (int ?l + 100) n" "?a = sizeof_EMEntry * max (int ?l + 100) n" by (simp_all add: sizeof_EMEntry_def)
  have em: "fExtentMap (growEMShmseg n st) = fExtentMap st @ replicate (nat (max (int ?l + 100) n) - ?l) zero_EMEntry"
    using g(2) a(1) by (simp add: growEMShmseg_def Let_def)
  then show "\<exists>k. fExtentMap (growEMShmseg n st) = fExtentMap st @ replicate k zero_EMEntry \<and> nat n \<le> ?l + k"
    by (intro exI [of _ "nat (max (int ?l + 100) n) - ?l"]) auto
  show fl: "fFreeList (growEMShmseg n st) = fFreeList st" "fFLShminfo (growEMShmseg n st) = fFLShminfo st" by (simp_all add: growEMShmseg_def Let_def)
  have "allocdSize (fEMShminfo (growEMShmseg n st)) = ?a" using g(2) by (simp add: growEMShmseg_def Let_def)
  moreover have "sizeof_EMEntry * max (int ?l + 100) n = sizeof_EMEntry * int (length (fExtentMap (growEMShmseg n st)))" using em by (simp add: max_def)
  ultimately show "em_geom (growEMShmseg n st)" using assms(1) em fl a(2) unfolding em_geom_def by auto
qed

lemma round_rows_ge: "n \<le> round_rows n"
  by (simp add: round_rows_def EM_INCREMENT_ROWS_def) presburger

lemma loadVersion4_ok:
  assumes "em_geom st" "es \<noteq> []" "\<forall>e \<in> set es. em_loadable e" "units_of (mset (map em_range es)) \<subseteq># all_units"
    and f: "emf_numEM f = int (length es)" "emf_entries f = es"
  shows "\<exists>st' k. loadVersion4 f st = Some (Inr (), st') \<and> fExtentMap st' = map fix_status es @ replicate k zero_EMEntry \<and> fl_good st' \<and>
    mst_currentSize (fEMShminfo st') = sizeof_EMEntry * int (length es) \<and>
    all_units = units_of (fl_abs (fFreeList st')) + units_of (mset (map em_range es))"
proof -
  let ?b = "em_blank st" and ?n = "int (length es)"
  define st2 where "st2 = (if allocdSize (fEMShminfo ?b) div sizeof_EMEntry < ?n then growEMShmseg (round_rows ?n) ?b else ?b)"
  note b = em_blank_good [OF assms(1)]
  have g: "em_geom ?b" using b(1) by (simp add: fl_good_def)
  have "\<exists>k. fExtentMap st2 = replicate k zero_EMEntry \<and> length es \<le> k"
  proof (cases "allocdSize (fEMShminfo ?b) div sizeof_EMEntry < ?n")
    case True
    have r: "?n \<le> round_rows ?n" by (rule round_rows_ge)
    then obtain k where "fExtentMap st2 = replicate (length (fExtentMap st)) zero_EMEntry @ replicate k zero_EMEntry" "nat (round_rows ?n) \<le> length (fExtentMap st) + k"
      using growEMShmseg_rows(1) [OF g, of "round_rows ?n"] True by (auto simp: st2_def)
    then show ?thesis using r by (auto simp: replicate_add [symmetric])
  next
    case False
    then have "length es \<le> length (fExtentMap st)" using assms(1) by (simp add: em_geom_def sizeof_EMEntry_def)
    then show ?thesis using False by (auto simp: st2_def)
  qed
  then obtain k where k: "fExtentMap st2 = replicate k zero_EMEntry" "length es \<le> k" by blast
  have fl: "fFreeList st2 = fFreeList ?b" "fFLShminfo st2 = fFLShminfo ?b" "em_geom st2"
    using growEMShmseg_rows(2-4) [OF g, of "round_rows ?n"] round_rows_ge [of ?n] g by (auto simp: st2_def)
  then have "fl_good st2" "units_of (fl_abs (fFreeList st2)) = all_units" using b by (simp_all add: fl_good_def)
  then obtain st3 where st3: "load_entries (length es) 0 es st2 = Some (Inr (), st3)" "fl_good st3"
      "all_units = units_of (fl_abs (fFreeList st3)) + units_of (mset (map em_range es))"
      "fExtentMap st3 = map fix_status es @ drop (length es) (fExtentMap st2)"
    using load_entries_ok [of st2 0 es] assms(3,4) k by auto
  let ?st' = "st3\<lparr>fEMShminfo := (fEMShminfo st3)\<lparr>mst_currentSize := ?n * sizeof_EMEntry\<rparr>\<rparr>"
  have "loadVersion4 f st = Some (Inr (), ?st')"
    unfolding loadVersion4_def Let_def f st2_def [symmetric] using assms(2) st3(1) by simp
  moreover have "fl_good ?st'" using st3(2) by (simp add: fl_good_def em_geom_def)
  ultimately show ?thesis using st3(3,4) k by (intro exI [of _ ?st']) (auto simp: mult.commute)
qed

lemma fix_status_range [simp]: "em_range (fix_status e) = em_range e" "em_used (fix_status e) = em_used e"
  by (simp_all add: fix_status_def em_used_def)

lemma em_abs_used: "em_abs es = mset (map em_range (filter em_used es))"
  by (induction es) (auto simp: em_abs_def fl_abs_def em_used_live)

lemma em_save_eq:
  assumes "em_inv st" "filter em_used (fExtentMap st) \<noteq> []"
  shows "em_save st = ret \<lparr>emf_magic = EM_MAGIC_V4, emf_numEM = int (length (filter em_used (fExtentMap st))), emf_numFL = int (length (fFreeList st)),
    emf_entries = filter em_used (fExtentMap st), emf_free = fFreeList st\<rparr>"
proof -
  have g: "em_geom st" "mst_currentSize (fEMShminfo st) = sizeof_EMEntry * int (size (em_abs (fExtentMap st)))" "\<forall>e \<in> set (fExtentMap st). il_ok (em_range e)"
    using assms(1) by (auto simp: em_inv_def)
  have n: "size (em_abs (fExtentMap st)) = length (filter em_used (fExtentMap st))"
    unfolding em_abs_used size_mset length_map by (rule refl)
  have "filter (\<lambda>e. 0 < il_size (em_range e)) (fExtentMap st) = filter em_used (fExtentMap st)"
    using g(3) by (intro filter_cong) (auto simp: em_used_def il_ok_def)
  moreover have "allocdSize (fFLShminfo st) = sizeof_InlineLBIDRange * int (length (fFreeList st))" using g(1) by (simp add: em_geom_def)
  ultimately show ?thesis using g(1,2) n assms(2) by (simp add: em_save_def) (simp add: em_size_defs)
qed

lemma em_abs_loaded: "\<forall>e \<in> set es. em_used e \<Longrightarrow> em_abs (map fix_status es @ replicate k zero_EMEntry) = mset (map em_range es)"
  by (simp add: em_abs_used filter_map comp_def)

text \<open>
  C35. What \<open>save\<close> writes, \<open>load\<close> reads back, whether the loading process finds the shared segments or
  creates them, and however large they are. The extents are the same, packed into the first
  slots, with a status out of range replaced by ``available''; the free list, which is not read from
  the file, holds exactly the units that were free, with the invariant of the two tables; and
  the locks are released. Every extent must have less than 256 units, because
  \<open>reserveLBIDRange\<close> takes the size as a byte.
\<close>

theorem em_save_load_roundtrip:
  assumes "em_inv st" "filter em_used (fExtentMap st) \<noteq> []" "\<forall>e \<in> set (fExtentMap st). il_size (em_range e) < 256"
    and "em_geom (grabFreeList (grabEMEntryTable st0))"
  shows "\<exists>f st'. em_save st = ret f \<and> em_load f st0 = Some (Inr (), st') \<and> em_inv st' \<and>
    filter em_used (fExtentMap st') = map fix_status (filter em_used (fExtentMap st)) \<and>
    units_of (fl_abs (fFreeList st')) = units_of (fl_abs (fFreeList st)) \<and> \<not> emLocked st' \<and> \<not> flLocked st'"
proof -
  let ?es = "filter em_used (fExtentMap st)" and ?st = "grabFreeList (grabEMEntryTable st0)"
  obtain f where f: "em_save st = ret f" "emf_magic f = EM_MAGIC_V4" "emf_numEM f = int (length ?es)" "emf_entries f = ?es"
    using em_save_eq [OF assms(1,2)] by simp
  have ok: "\<forall>e \<in> set ?es. em_loadable e" using assms(1,3) by (auto simp: em_loadable_def em_inv_def)
  have all: "units_of (mset (map em_range ?es)) + units_of (fl_abs (fFreeList st)) = all_units" using assms(1) by (simp add: em_inv_def em_abs_used)
  then have "units_of (mset (map em_range ?es)) \<subseteq># all_units" by (metis mset_subset_eq_add_left)
  from loadVersion4_ok [OF assms(4,2) ok this f(3,4)] obtain st3 k where
    st3: "loadVersion4 f ?st = Some (Inr (), st3)" "fExtentMap st3 = map fix_status ?es @ replicate k zero_EMEntry" "fl_good st3"
      "mst_currentSize (fEMShminfo st3) = sizeof_EMEntry * int (length ?es)"
      "all_units = units_of (fl_abs (fFreeList st3)) + units_of (mset (map em_range ?es))" by blast
  let ?st' = "releaseEMEntryTable (releaseFreeList st3)"
  have sel: "fExtentMap ?st' = fExtentMap st3" "fFreeList ?st' = fFreeList st3" "em_inv ?st' = em_inv st3" "\<not> emLocked ?st'" "\<not> flLocked ?st'"
    by (simp_all add: releaseEMEntryTable_def releaseFreeList_def)
  have used: "\<forall>e \<in> set ?es. em_used e" by simp
  have abs: "em_abs (fExtentMap st3) = mset (map em_range ?es)" unfolding st3(2) using em_abs_loaded [OF used] .
  have "\<forall>e \<in> set (fExtentMap st3). il_ok (em_range e)"
    using ok unfolding st3(2) by (auto simp: em_loadable_def zero_EMEntry_def zero_range_def il_ok_def)
  then have "em_inv st3" using st3(3-5) unfolding em_inv_def abs size_mset length_map by (simp add: fl_good_def add.commute)
  moreover have "units_of (fl_abs (fFreeList st3)) = units_of (fl_abs (fFreeList st))" using all unfolding st3(5) by (simp add: add.commute)
  moreover have "filter em_used (fExtentMap st3) = map fix_status ?es" unfolding st3(2) by (simp add: filter_map comp_def)
  moreover have "em_load f st0 = Some (Inr (), ?st')" using st3(1) f(2) by (simp add: em_load_def Let_def)
  ultimately show ?thesis using f(1) sel by metis
qed

text \<open>A process that creates the segments.\<close>

definition fresh_em :: ExtentMap where
  "fresh_em = \<lparr>fExtentMap = [], fEMShminfo = \<lparr>tableShmkey = 0, allocdSize = 0, mst_currentSize = 0\<rparr>,
     fFreeList = [], fFLShminfo = \<lparr>tableShmkey = 0, allocdSize = 0, mst_currentSize = 0\<rparr>,
     em_undoRecords = [], emLocked = False, flLocked = False\<rparr>"

lemma fresh_em_geom: "em_geom (grabFreeList (grabEMEntryTable fresh_em))"
  by (simp add: fresh_em_def grabFreeList_def grabEMEntryTable_def growFLShmseg_def growEMShmseg_def Let_def em_geom_def em_size_defs)

theorem em_save_load_roundtrip_witness:
  "\<exists>f st'. em_save ex_em = ret f \<and> em_load f fresh_em = Some (Inr (), st') \<and> em_inv st' \<and>
     filter em_used (fExtentMap st') = [ex_extent 0 0 100, ex_extent 8192 1 20]"
proof -
  have "filter em_used (fExtentMap ex_em) = [ex_extent 0 0 100, ex_extent 8192 1 20]" by (simp add: ex_em_slots)
  moreover have "\<forall>e \<in> set (fExtentMap ex_em). il_size (em_range e) < 256" by (simp add: ex_em_slots zero_EMEntry_def zero_range_def)
  moreover have "fix_status (ex_extent a b c) = ex_extent a b c" for a b c by (simp add: fix_status_def status_defs)
  ultimately show ?thesis using em_save_load_roundtrip [OF ex_em_inv _ _ fresh_em_geom] by auto
qed

section \<open>What the consistency check decides\<close>

definition in_space :: "InlineLBIDRange \<Rightarrow> bool" where
  "in_space r \<longleftrightarrow> il_ok r \<and> (il_size r = 0 \<or> il_start r div 1024 + il_size r \<le> 2 ^ 26)"

definition covered :: "InlineLBIDRange list \<Rightarrow> int \<Rightarrow> int \<Rightarrow> bool" where
  "covered rs a b \<longleftrightarrow> (\<forall>u. a \<le> u \<and> u < b \<longrightarrow> (\<exists>r \<in> set rs. u \<in># range_units r))"

lemma pass_step:
  assumes "in_space r" "il_start r div 1024 = l" "0 \<le> l" "l \<le> 2 ^ 26"
  shows "il_start r mod 1024 = 0" "s32_of (u32_of (l + il_size r)) = l + il_size r"
  using assms by (auto simp: in_space_def il_ok_def u32_of_def s32_of_def)

lemma pass_1b_ok:
  assumes "\<forall>r \<in> set rs. in_space r" "0 \<le> l" "l \<le> 2 ^ 26"
  shows "\<exists>l'. pass_1b rs l = Some l' \<and> l \<le> l' \<and> l' \<le> 2 ^ 26 \<and> covered rs l l'"
  using assms
proof (induction rs arbitrary: l)
  case Nil
  then show ?case by (simp add: covered_def)
next
  case (Cons r rs)
  have r: "in_space r" "il_start r mod 1024 = 0" "0 \<le> il_size r" using Cons.prems(1) by (auto simp: in_space_def il_ok_def)
  show ?case
  proof (cases "il_start r div 1024 = l")
    case True
    have le: "l + il_size r \<le> 2 ^ 26" using r(1) True Cons.prems(3) by (auto simp: in_space_def)
    from Cons.IH [of "l + il_size r"] obtain l' where
      l': "pass_1b rs (l + il_size r) = Some l'" "l + il_size r \<le> l'" "l' \<le> 2 ^ 26" "covered rs (l + il_size r) l'"
      using Cons.prems r(3) le by auto
    have "pass_1b (r # rs) l = Some l'" using r(2) True l'(1) pass_step(2) [OF r(1) True Cons.prems(2,3)] by simp
    moreover have "covered (r # rs) l l'"
      unfolding covered_def
    proof (intro allI impI)
      fix u assume u: "l \<le> u \<and> u < l'"
      show "\<exists>x \<in> set (r # rs). u \<in># range_units x"
        using u True l'(4) by (cases "u < l + il_size r") (auto simp: range_units_mem covered_def)
    qed
    ultimately show ?thesis using l'(2,3) r(3) by auto
  next
    case False
    then show ?thesis using Cons.IH [of l] Cons.prems r(2) by (auto simp: covered_def)
  qed
qed

lemma test_1b_total:
  assumes "\<forall>r \<in> set rs. in_space r" "0 \<le> l" "l \<le> 2 ^ 26"
  shows "\<exists>b. test_1b rs l = Some b \<and> (b \<longrightarrow> covered rs l (2 ^ 26))"
  using assms(2,3)
proof (induction "nat (2 ^ 26 - l)" arbitrary: l rule: less_induct)
  case less
  show ?case
  proof (cases "l < 2 ^ 26")
    case False
    then have "test_1b rs l = Some True" by (subst test_1b.simps) simp
    moreover have "covered rs l (2 ^ 26)" using False by (auto simp: covered_def)
    ultimately show ?thesis by blast
  next
    case True
    obtain l' where l': "pass_1b rs l = Some l'" "l \<le> l'" "l' \<le> 2 ^ 26" "covered rs l l'"
      using pass_1b_ok [OF assms(1) less.prems] by blast
    show ?thesis
    proof (cases "l' = l")
      case True
      then have "test_1b rs l = Some False" using \<open>l < 2 ^ 26\<close> l'(1) by (subst test_1b.simps) simp
      then show ?thesis by blast
    next
      case False
      then obtain b where b: "test_1b rs l' = Some b" "b \<longrightarrow> covered rs l' (2 ^ 26)" using less.hyps [of l'] l' less.prems by auto
      moreover have "test_1b rs l = test_1b rs l'" using True l'(1) False by (subst test_1b.simps) simp
      moreover have "covered rs l (2 ^ 26)" if "covered rs l' (2 ^ 26)" using that l'(4) unfolding covered_def by (meson not_le)
      ultimately show ?thesis by auto
    qed
  qed
qed

text \<open>On ranges that hold every unit once, the walk of test 1b steps from the end of one range to the start of the next.\<close>

definition no_straddle :: "InlineLBIDRange list \<Rightarrow> int \<Rightarrow> bool" where
  "no_straddle rs l \<longleftrightarrow> (\<forall>r \<in> set rs. il_start r div 1024 + il_size r \<le> l \<or> l \<le> il_start r div 1024)"

lemma same_unit_same_range:
  assumes "units_of (fl_abs rs) \<subseteq># all_units" "r \<in> set rs" "s \<in> set rs" "u \<in># range_units r" "u \<in># range_units s"
  shows "r = s"
  using assms unit_index [OF assms(1), of _ _ u] by (metis in_set_conv_nth)

lemma no_straddle_step:
  assumes "units_of (fl_abs rs) \<subseteq># all_units" "r \<in> set rs" "il_start r div 1024 = l" "no_straddle rs l" "0 \<le> il_size r"
  shows "no_straddle rs (l + il_size r)"
  unfolding no_straddle_def
proof (rule ballI, rule ccontr)
  fix s assume s: "s \<in> set rs" "\<not> (il_start s div 1024 + il_size s \<le> l + il_size r \<or> l + il_size r \<le> il_start s div 1024)"
  then have "l \<le> il_start s div 1024" using assms(4,5) by (force simp: no_straddle_def)
  then have "il_start s div 1024 \<in># range_units r" "il_start s div 1024 \<in># range_units s" using s(2) assms(3,5) by (auto simp: range_units_mem)
  then have "r = s" using same_unit_same_range [OF assms(1,2) s(1)] by blast
  then show False using s(2) assms(3) by simp
qed

lemma pass_1b_walk:
  assumes part: "units_of (fl_abs rs) \<subseteq># all_units" "\<forall>r \<in> set rs. in_space r"
    and "set xs \<subseteq> set rs" "0 \<le> l" "l \<le> 2 ^ 26" "no_straddle rs l" "pass_1b xs l = Some l'"
  shows "no_straddle rs l' \<and> ((\<exists>r \<in> set xs. il_start r div 1024 = l \<and> il_size r \<noteq> 0) \<longrightarrow> l < l')"
  using assms(3-7)
proof (induction xs arbitrary: l)
  case Nil
  then show ?case by simp
next
  case (Cons x xs)
  have x: "in_space x" "x \<in> set rs" "il_start x mod 1024 = 0" "0 \<le> il_size x" using Cons.prems(1) part(2) by (auto simp: in_space_def il_ok_def)
  have sub: "\<forall>r \<in> set xs. in_space r" using Cons.prems(1) part(2) by auto
  show ?case
  proof (cases "il_start x div 1024 = l")
    case True
    have le: "0 \<le> l + il_size x" "l + il_size x \<le> 2 ^ 26" using x True Cons.prems(2,3) by (auto simp: in_space_def)
    have p: "pass_1b xs (l + il_size x) = Some l'" using Cons.prems(5) x(3) True pass_step(2) [OF x(1) True Cons.prems(2,3)] by simp
    have "no_straddle rs (l + il_size x)" using no_straddle_step [OF part(1) x(2) True Cons.prems(4) x(4)] .
    from Cons.IH [OF _ le this p] Cons.prems(1)
    have IH: "no_straddle rs l'" "(\<exists>r \<in> set xs. il_start r div 1024 = l + il_size x \<and> il_size r \<noteq> 0) \<longrightarrow> l + il_size x < l'" by auto
    have "l + il_size x \<le> l'" using pass_1b_ok [OF sub le] p by auto
    then show ?thesis using IH x(4) by (cases "il_size x = 0") auto
  next
    case False
    then show ?thesis using Cons.IH [of l] Cons.prems x(3) by auto
  qed
qed

lemma test_1b_passes:
  assumes part: "units_of (fl_abs rs) = all_units" "\<forall>r \<in> set rs. in_space r" and "0 \<le> l" "l \<le> 2 ^ 26" "no_straddle rs l"
  shows "test_1b rs l = Some True"
  using assms(3-5)
proof (induction "nat (2 ^ 26 - l)" arbitrary: l rule: less_induct)
  case less
  show ?case
  proof (cases "l < 2 ^ 26")
    case False
    then show ?thesis by (subst test_1b.simps) simp
  next
    case True
    have "l \<in># units_of (fl_abs rs)" using part(1) True less.prems(1) by (simp add: all_units_def)
    then obtain r where r: "r \<in> set rs" "l \<in># range_units r" by (auto simp: units_of_mem fl_abs_def)
    then have "il_start r div 1024 = l" "il_size r \<noteq> 0" using less.prems(3) by (fastforce simp: no_straddle_def range_units_mem)+
    moreover obtain l' where l': "pass_1b rs l = Some l'" "l' \<le> 2 ^ 26" using pass_1b_ok [OF part(2) less.prems(1,2)] by blast
    ultimately have "no_straddle rs l'" "l < l'" using pass_1b_walk [OF _ part(2) subset_refl less.prems l'(1)] part(1) r(1) by auto
    then have "test_1b rs l' = Some True" using less.hyps [of l'] less.prems(1) l'(2) by simp
    then show ?thesis using l'(1) \<open>l < l'\<close> True by (subst test_1b.simps) simp
  qed
qed

lemma il_unit:
  assumes "il_ok x" "il_start x \<le> l" "l < il_end x"
  shows "l div 1024 \<in># range_units x"
  using assms il_ok_units [OF assms(1)] by (auto simp: range_units_mem)

lemma il_last32_bounds:
  assumes "il_ok r" "u32_of (il_size r * 1024) \<noteq> 0"
  shows "il_start r \<le> il_last32 r" "il_last32 r < il_end r"
proof -
  have "0 \<le> il_size r * 1024" using assms(1) by (simp add: il_ok_def)
  then have "u32_of (il_size r * 1024) \<le> il_size r * 1024" "0 \<le> u32_of (il_size r * 1024)" by (simp_all add: u32_of_def zmod_le_nonneg_dividend)
  then show "il_start r \<le> il_last32 r" "il_last32 r < il_end r" using assms(2) by (simp_all add: il_last32_def il_end_def)
qed

text \<open>
  Tables on which the 32 bit products of the check do no harm: no range in use has a multiple of
  \<open>2 ^ 22\<close> units.
\<close>

definition size32 :: "InlineLBIDRange \<Rightarrow> bool" where
  "size32 r \<longleftrightarrow> il_size r = 0 \<or> u32_of (il_size r * 1024) \<noteq> 0"

lemma test_1a_passes:
  assumes "em_inv st" "\<forall>e \<in> set (fExtentMap st). size32 (em_range e)" "\<forall>r \<in> set (fFreeList st). size32 r"
  shows "test_1a (fExtentMap st) (fFreeList st)"
  unfolding test_1a_def
proof (intro notI, elim bexE conjE)
  fix e r assume e: "e \<in> set (fExtentMap st)" "em_used e" and r: "r \<in> set (fFreeList st)" "il_size r \<noteq> 0" and o: "overlap_1a (em_range e) r"
  let ?e = "em_range e"
  have ok: "il_ok ?e" "il_ok r" "u32_of (il_size ?e * 1024) \<noteq> 0" "u32_of (il_size r * 1024) \<noteq> 0"
    using assms e r by (auto simp: em_inv_def size32_def em_used_def)
  have mem: "?e \<in># em_abs (fExtentMap st)" "r \<in># fl_abs (fFreeList st)" using e r by (auto simp: em_abs_mem em_used_live fl_abs_def fl_live_def)
  have "units_of (em_abs (fExtentMap st)) + units_of (fl_abs (fFreeList st)) \<subseteq># all_units" using assms(1) by (simp add: em_inv_def)
  then have "range_units ?e + units_of (fl_abs (fFreeList st)) \<subseteq># all_units"
    using units_of_member [OF mem(1)] by (metis subset_mset.add_right_mono subset_mset.order_trans)
  from unit_once [OF this mem(2)] have no: "u \<notin># range_units ?e" if "u \<in># range_units r" for u using that .
  note be = il_last32_bounds [OF ok(1,3)] and br = il_last32_bounds [OF ok(2,4)]
  have "\<exists>l. il_start ?e \<le> l \<and> l < il_end ?e \<and> il_start r \<le> l \<and> l < il_end r"
    using o unfolding overlap_1a_def Let_def
  proof (elim disjE conjE)
    assume "il_start ?e \<le> il_start r" "il_start r \<le> il_last32 ?e"
    then show ?thesis using be br by (intro exI [of _ "il_start r"]) auto
  next
    assume "il_start r \<le> il_start ?e" "il_last32 ?e \<le> il_last32 r"
    then show ?thesis using be br by (intro exI [of _ "il_start ?e"]) auto
  next
    assume "il_start ?e \<le> il_last32 r" "il_last32 r \<le> il_last32 ?e"
    then show ?thesis using be br by (intro exI [of _ "il_last32 r"]) auto
  qed
  then show False using no il_unit [OF ok(1)] il_unit [OF ok(2)] by blast
qed

lemma test_2_passes:
  assumes "units_of (fl_abs fl) \<subseteq># all_units" "fl_consolidated (fl_abs fl)" "\<forall>r \<in> set fl. il_ok r \<and> size32 r"
  shows "test_2 fl"
  using assms
proof (induction fl)
  case (Cons r fl)
  have tail: "test_2 fl"
  proof (rule Cons.IH)
    have "fl_abs (r # fl) = live_part r + fl_abs fl" by (auto simp: fl_abs_def live_part_def)
    then have m: "fl_abs fl \<subseteq># fl_abs (r # fl)" "units_of (fl_abs (r # fl)) = range_units r + units_of (fl_abs fl)" by simp_all
    show "units_of (fl_abs fl) \<subseteq># all_units" by (rule subset_mset.order_trans [OF _ Cons.prems(1)]) (simp add: m(2))
    show "fl_consolidated (fl_abs fl)" using Cons.prems(2) mset_subset_eqD [OF m(1)] unfolding fl_consolidated_def by blast
    show "\<forall>r \<in> set fl. il_ok r \<and> size32 r" using Cons.prems(3) by simp
  qed
  have "False" if r: "il_size r \<noteq> 0" and s: "s \<in> set fl" "il_size s \<noteq> 0" "il_start s = il_last32 r + 1" for s
  proof -
    have live: "fl_abs (r # fl) = add_mset r (fl_abs fl)" "s \<in># fl_abs fl" using r s by (auto simp: fl_abs_def fl_live_def)
    have ok: "il_ok r" "u32_of (il_size r * 1024) \<noteq> 0" "il_ok s" using Cons.prems(3) r s(1) by (auto simp: size32_def)
    note b = il_last32_bounds [OF ok(1,2)]
    have "il_start s \<noteq> il_end r" using Cons.prems(2) live by (auto simp: fl_consolidated_def)
    then have "il_start s div 1024 \<in># range_units r" using b s(3) by (intro il_unit [OF ok(1)]) auto
    moreover have "il_start s div 1024 \<in># range_units s" using s(2) ok(3) by (auto simp: range_units_mem il_ok_def)
    ultimately show False using unit_once [of r "fl_abs fl" s "il_start s div 1024"] Cons.prems(1) live by simp
  qed
  then show ?case using tail by auto
qed simp

lemma em_inv_space:
  assumes "em_inv st"
  shows "\<forall>r \<in> set (fFreeList st @ map em_range (fExtentMap st)). in_space r" "units_of (fl_abs (fFreeList st @ map em_range (fExtentMap st))) = all_units"
proof -
  show "units_of (fl_abs (fFreeList st @ map em_range (fExtentMap st))) = all_units"
    using assms by (simp add: em_inv_def fl_abs_append em_abs_def add.commute)
  show "\<forall>r \<in> set (fFreeList st @ map em_range (fExtentMap st)). in_space r"
  proof
    fix r assume r: "r \<in> set (fFreeList st @ map em_range (fExtentMap st))"
    have ok: "il_ok r" using assms r by (auto simp: em_inv_def)
    show "in_space r"
    proof (cases "fl_live r")
      case True
      then have "r \<in># em_abs (fExtentMap st) \<or> r \<in># fl_abs (fFreeList st)" using r by (auto simp: em_abs_mem fl_abs_def)
      from em_inv_range(3) [OF assms this] show ?thesis using range_bounds(1) True ok by (simp add: in_space_def)
    next
      case False
      then show ?thesis using ok by (simp add: in_space_def fl_live_def)
    qed
  qed
qed

lemma test_5a_passes: "em_inv st \<Longrightarrow> test_5a (fExtentMap st) (fFreeList st) st"
proof -
  assume inv: "em_inv st"
  have "length (filter em_used (fExtentMap st)) = size (em_abs (fExtentMap st))" unfolding em_abs_used size_mset length_map by (rule refl)
  moreover have "length (filter (\<lambda>r. il_size r \<noteq> 0) (fFreeList st)) = size (fl_abs (fFreeList st))"
    unfolding size_fl_abs by (simp add: fl_live_def [abs_def])
  ultimately show ?thesis using inv by (simp add: test_5a_def em_inv_def em_size_defs)
qed

text \<open>
  C36. \<open>checkConsistency\<close> returns on every table whose ranges in use are aligned and lie in the
  block space, also when they overlap, leave gaps or are miscounted: the walk of test 1b advances in
  every run or stops. And when it answers 0, every unit of the space belongs to
  an extent or to the free list, no extent in use is on DBRoot 0, and the descriptors
  count the slots in use.
\<close>

theorem em_checkConsistency_returns:
  assumes "em_geom st" "\<forall>e \<in> set (fExtentMap st). in_space (em_range e)" "\<forall>r \<in> set (fFreeList st). in_space r"
  shows "(em_checkConsistency st = ret 0 \<or> em_checkConsistency st = throw logic_error) \<and>
    (em_checkConsistency st = ret 0 \<longrightarrow>
      (\<forall>u. 0 \<le> u \<and> u < 2 ^ 26 \<longrightarrow> u \<in># units_of (em_abs (fExtentMap st)) + units_of (fl_abs (fFreeList st))) \<and>
      (\<forall>e \<in> set (fExtentMap st). em_used e \<longrightarrow> dbRoot e \<noteq> 0) \<and> test_5a (fExtentMap st) (fFreeList st) st)"
proof (intro conjI impI)
  let ?rs = "fFreeList st @ map em_range (fExtentMap st)"
  have "\<forall>r \<in> set ?rs. in_space r" using assms(2,3) by auto
  from test_1b_total [OF this, of 0] obtain b where b: "test_1b ?rs 0 = Some b" "b \<longrightarrow> covered ?rs 0 (2 ^ 26)" by auto
  note eq = em_checkConsistency_def em_slots_geom [OF assms(1)] fl_slots_geom [OF assms(1)] b(1)
  show "em_checkConsistency st = ret 0 \<or> em_checkConsistency st = throw logic_error" by (simp add: eq)
  assume "em_checkConsistency st = ret 0"
  then have p: "b" "test_1c (fExtentMap st)" "test_5a (fExtentMap st) (fFreeList st) st" by (simp_all add: eq ret_def throw_def split: if_splits)
  have "u \<in># units_of (em_abs (fExtentMap st)) + units_of (fl_abs (fFreeList st))" if "0 \<le> u" "u < 2 ^ 26" for u
  proof -
    from b(2) p(1) that obtain r where "r \<in> set ?rs" "u \<in># range_units r" unfolding covered_def by blast
    then have "r \<in># fl_abs ?rs" using range_units_live [of u r] by (auto simp: fl_abs_def)
    then have "u \<in># units_of (fl_abs ?rs)" using \<open>u \<in># range_units r\<close> by (auto simp: units_of_mem)
    then show ?thesis by (auto simp: fl_abs_append em_abs_def)
  qed
  then show "\<forall>u. 0 \<le> u \<and> u < 2 ^ 26 \<longrightarrow> u \<in># units_of (em_abs (fExtentMap st)) + units_of (fl_abs (fFreeList st))" by blast
  show "\<forall>e \<in> set (fExtentMap st). em_used e \<longrightarrow> dbRoot e \<noteq> 0" using p(2) by (auto simp: test_1c_def)
  show "test_5a (fExtentMap st) (fFreeList st) st" by (rule p(3))
qed

theorem em_checkConsistency_returns_witness:
  "let st = ex_em\<lparr>fFreeList := [\<lparr>il_start = 16384, il_size = 67108847\<rparr>, zero_range]\<rparr>
   in em_checkConsistency st = throw logic_error"
proof -
  let ?st = "ex_em\<lparr>fFreeList := [\<lparr>il_start = 16384, il_size = 67108847\<rparr>, zero_range]\<rparr>"
  have em: "fExtentMap ?st = fExtentMap ex_em" by simp
  have "em_geom ?st" by (simp add: em_geom_def ex_em_def em_size_defs)
  moreover have "\<forall>e \<in> set (fExtentMap ?st). in_space (em_range e)"
    unfolding em by (simp add: ex_em_slots in_space_def il_ok_def zero_EMEntry_def zero_range_def)
  moreover have "\<forall>r \<in> set (fFreeList ?st). in_space r" by (simp add: in_space_def il_ok_def zero_range_def)
  moreover have "67108863 \<notin># units_of (em_abs (fExtentMap ?st)) + units_of (fl_abs (fFreeList ?st))"
    unfolding em by (simp add: units_of_mem em_abs_used ex_em_slots fl_abs_def fl_live_def zero_range_def range_units_mem)
  moreover have "0 \<le> (67108863 :: int)" "(67108863 :: int) < 2 ^ 26" by simp_all
  ultimately show ?thesis using em_checkConsistency_returns [of ?st] unfolding Let_def by blast
qed

lemma em_checkConsistency_zero:
  assumes inv: "em_inv st" and "\<forall>e \<in> set (fExtentMap st). em_used e \<longrightarrow> dbRoot e \<noteq> 0"
    and "\<forall>e \<in> set (fExtentMap st). size32 (em_range e)" "\<forall>r \<in> set (fFreeList st). size32 r"
  shows "em_checkConsistency st = ret 0"
proof -
  let ?rs = "fFreeList st @ map em_range (fExtentMap st)"
  have g: "em_geom st" "\<forall>r \<in> set (fFreeList st). il_ok r" "fl_consolidated (fl_abs (fFreeList st))" using inv by (auto simp: em_inv_def)
  note sp = em_inv_space [OF inv]
  have "no_straddle ?rs 0" using sp(1) by (auto simp: no_straddle_def in_space_def il_ok_def pos_imp_zdiv_nonneg_iff)
  then have "test_1b ?rs 0 = Some True" using test_1b_passes [OF sp(2,1)] by simp
  moreover have "units_of (fl_abs (fFreeList st)) \<subseteq># all_units" using inv unfolding em_inv_def by (metis mset_subset_eq_add_right)
  then have "test_2 (fFreeList st)" using g assms(4) by (intro test_2_passes) auto
  moreover have "test_1c (fExtentMap st)" using assms(2) by (auto simp: test_1c_def)
  ultimately show ?thesis using g(1) test_1a_passes [OF inv assms(3,4)] test_5a_passes [OF inv] by (simp add: em_checkConsistency_def)
qed

text \<open>
  The check of test 1a on a free range whose length wraps to 0: it ends before it begins, and
  an extent that ends there overlaps it.
\<close>

lemma em_checkConsistency_wrapped:
  assumes "em_inv st" "e \<in> set (fExtentMap st)" "em_used e" "il_size (em_range e) < 2 ^ 22"
    and "r \<in> set (fFreeList st)" "il_size r \<noteq> 0" "u32_of (il_size r * 1024) = 0" "il_end (em_range e) = il_start r"
  shows "em_checkConsistency st = throw logic_error"
proof -
  have g: "em_geom st" "il_ok (em_range e)" using assms(1,2) by (auto simp: em_inv_def)
  have "0 < il_size (em_range e)" using assms(3) g(2) by (simp add: em_used_def il_ok_def)
  then have "u32_of (il_size (em_range e) * 1024) = il_size (em_range e) * 1024" using assms(4) by (intro u32_id) auto
  then have "overlap_1a (em_range e) r" using \<open>0 < il_size (em_range e)\<close> assms(7,8) by (simp add: overlap_1a_def il_last32_def il_end_def)
  then have "\<not> test_1a (fExtentMap st) (fFreeList st)" using assms(2,3,5,6) by (auto simp: test_1a_def)
  then show ?thesis using g(1) by (simp add: em_checkConsistency_def)
qed

text \<open>
  C37. \<open>checkConsistency\<close> accepts a map that satisfies the invariant (and has no extent on DBRoot 0),
  unless a range has a multiple of \<open>2 ^ 22\<close> units, when the length in blocks wraps to 0 in 32 bits:
  on such a map, when an extent ends where such a free range begins, the check throws although the map is consistent.
\<close>

theorem em_checkConsistency_accepts:
  assumes "em_inv st" "\<forall>e \<in> set (fExtentMap st). em_used e \<longrightarrow> dbRoot e \<noteq> 0"
  shows "((\<forall>e \<in> set (fExtentMap st). size32 (em_range e)) \<and> (\<forall>r \<in> set (fFreeList st). size32 r) \<longrightarrow> em_checkConsistency st = ret 0) \<and>
    (\<forall>e \<in> set (fExtentMap st). \<forall>r \<in> set (fFreeList st).
       em_used e \<and> il_size (em_range e) < 2 ^ 22 \<and> \<not> size32 r \<and> il_end (em_range e) = il_start r \<longrightarrow>
       em_checkConsistency st = throw logic_error)"
  using em_checkConsistency_zero [OF assms] em_checkConsistency_wrapped [OF assms(1)] by (auto simp: size32_def)

text \<open>Two extents of \<open>2 ^ 22\<close> units together, and the free rest of the space.\<close>

definition ex_wrapped :: ExtentMap where
  "ex_wrapped = ex_em\<lparr>fExtentMap := [ex_extent 0 0 100, zero_EMEntry, (ex_extent 8192 1 20)\<lparr>em_range := \<lparr>il_start = 8192, il_size = 4194296\<rparr>\<rparr>],
     fFreeList := [\<lparr>il_start = 4294967296, il_size = 62914560\<rparr>, zero_range]\<rparr>"

lemma ex_wrapped_inv: "em_inv ex_wrapped"
proof -
  have "mset_set {0..<8} + mset_set {8..<4194304} + mset_set {4194304..<67108864} = mset_set {0..<67108864::int}"
    by (simp add: mset_set_upto_join)
  then show ?thesis
    by (simp add: em_inv_def ex_wrapped_def em_abs_def fl_abs_def fl_live_def zero_EMEntry_def zero_range_def all_units_def)
      (simp add: ex_em_def em_geom_def il_ok_def range_units_def em_size_defs fl_consolidated_def il_end_def)
qed

theorem em_checkConsistency_accepts_witness:
  "em_checkConsistency ex_em = ret 0 \<and> em_inv ex_wrapped \<and> em_checkConsistency ex_wrapped = throw logic_error"
proof -
  let ?e = "(ex_extent 8192 1 20)\<lparr>em_range := \<lparr>il_start = 8192, il_size = 4194296\<rparr>\<rparr>"
  have "\<forall>e \<in> set (fExtentMap ex_em). em_used e \<longrightarrow> dbRoot e \<noteq> 0" by (simp add: ex_em_slots)
  moreover have "\<forall>e \<in> set (fExtentMap ex_em). size32 (em_range e)"
    by (simp add: ex_em_slots size32_def u32_of_def zero_EMEntry_def zero_range_def)
  moreover have "\<forall>r \<in> set (fFreeList ex_em). size32 r" by (simp add: ex_em_def size32_def u32_of_def zero_range_def)
  ultimately have "em_checkConsistency ex_em = ret 0" using em_checkConsistency_accepts [OF ex_em_inv] by blast
  moreover have d: "\<forall>e \<in> set (fExtentMap ex_wrapped). em_used e \<longrightarrow> dbRoot e \<noteq> 0" by (simp add: ex_wrapped_def)
  have "?e \<in> set (fExtentMap ex_wrapped)" "\<lparr>il_start = 4294967296, il_size = 62914560\<rparr> \<in> set (fFreeList ex_wrapped)" by (simp_all add: ex_wrapped_def)
  then have "em_checkConsistency ex_wrapped = throw logic_error"
    using conjunct2 [OF em_checkConsistency_accepts [OF ex_wrapped_inv d], rule_format, of ?e "\<lparr>il_start = 4294967296, il_size = 62914560\<rparr>"]
    by (simp add: em_used_def size32_def u32_of_def il_end_def)
  ultimately show ?thesis using ex_wrapped_inv by blast
qed

end
