(* ===== verification/ResourceGraph.thy ===== *)
theory ResourceGraph
  imports BRM_Prelude "HOL-Library.Word"
begin

text \<open>
  The resource graph (\<open>lbidresourcegraph.cpp\<close>, \<open>rgnode.cpp\<close>, \<open>resourcenode.cpp\<close>, \<open>transactionnode.cpp\<close>): which
  transaction has reserved which block and which one waits for which, with the search for a
  deadlock. An edge from a block to a transaction says that the transaction owns the block,
  an edge from a transaction to a block that it waits for it. A node is identified by its
  transaction or by its block. The sets of edges are sets of pointers, so that the order in which a
  loop visits them is not known: it is the parameter \<open>it\<close>.
\<close>

section \<open>Nodes and edges\<close>

datatype RGNode = TxnNode VER_t | ResNode LBID_t

record TransactionNode =
  tn_die :: bool
  tn_sleeping :: bool

record LBIDResourceGraph =
  rg_color :: "64 word"
  rg_txns :: "VER_t \<rightharpoonup> TransactionNode"
  rg_resources :: "LBID_t set"
  rg_out :: "RGNode \<Rightarrow> RGNode set"
  rg_in :: "RGNode \<Rightarrow> RGNode set"
  rg_node_color :: "RGNode \<Rightarrow> 64 word"

definition ERR_OK :: int where "ERR_OK = 0"
definition ERR_DEADLOCK :: int where "ERR_DEADLOCK = 6"
definition ERR_KILLED :: int where "ERR_KILLED = 7"

definition new_graph :: LBIDResourceGraph where
  "new_graph = \<lparr>rg_color = 0, rg_txns = Map.empty, rg_resources = {}, rg_out = (\<lambda>_. {}), rg_in = (\<lambda>_. {}), rg_node_color = (\<lambda>_. 0)\<rparr>"

definition addOutEdge :: "RGNode \<Rightarrow> RGNode \<Rightarrow> LBIDResourceGraph \<Rightarrow> LBIDResourceGraph" where
  "addOutEdge x n g =
     g\<lparr>rg_out := (rg_out g)(x := insert n (rg_out g x)), rg_in := (rg_in g)(n := insert x (rg_in g n))\<rparr>"

definition addInEdge :: "RGNode \<Rightarrow> RGNode \<Rightarrow> LBIDResourceGraph \<Rightarrow> LBIDResourceGraph" where
  "addInEdge x n g =
     g\<lparr>rg_in := (rg_in g)(x := insert n (rg_in g x)), rg_out := (rg_out g)(n := insert x (rg_out g n))\<rparr>"

definition removeOutEdge :: "RGNode \<Rightarrow> RGNode \<Rightarrow> LBIDResourceGraph \<Rightarrow> LBIDResourceGraph" where
  "removeOutEdge x n g =
     g\<lparr>rg_out := (rg_out g)(x := rg_out g x - {n}), rg_in := (rg_in g)(n := rg_in g n - {x})\<rparr>"

definition removeInEdge :: "RGNode \<Rightarrow> RGNode \<Rightarrow> LBIDResourceGraph \<Rightarrow> LBIDResourceGraph" where
  "removeInEdge x n g =
     g\<lparr>rg_in := (rg_in g)(x := rg_in g x - {n}), rg_out := (rg_out g)(n := rg_out g n - {x})\<rparr>"

text \<open>The destructor takes the node out of the sets of its neighbours; a new node has no edges and color 0.\<close>

definition delete_node :: "RGNode \<Rightarrow> LBIDResourceGraph \<Rightarrow> LBIDResourceGraph" where
  "delete_node x g =
     g\<lparr>rg_out := (\<lambda>y. if y = x then {} else if y \<in> rg_in g x then rg_out g y - {x} else rg_out g y),
       rg_in := (\<lambda>y. if y = x then {} else if y \<in> rg_out g x then rg_in g y - {x} else rg_in g y),
       rg_node_color := (rg_node_color g)(x := 0)\<rparr>"

definition wake :: "VER_t \<Rightarrow> LBIDResourceGraph \<Rightarrow> LBIDResourceGraph" where
  "wake t g = g\<lparr>rg_txns := (rg_txns g)(t := map_option (tn_sleeping_update (\<lambda>_. False)) (rg_txns g t))\<rparr>"

definition sleep :: "VER_t \<Rightarrow> LBIDResourceGraph \<Rightarrow> LBIDResourceGraph" where
  "sleep t g = g\<lparr>rg_txns := (rg_txns g)(t := map_option (tn_sleeping_update (\<lambda>_. True)) (rg_txns g t))\<rparr>"

definition die :: "VER_t \<Rightarrow> LBIDResourceGraph \<Rightarrow> LBIDResourceGraph" where
  "die t g = g\<lparr>rg_txns := (rg_txns g)(t := map_option (tn_die_update (\<lambda>_. True)) (rg_txns g t))\<rparr>"

type_synonym rg_iter = "RGNode set \<Rightarrow> RGNode list"

text \<open>The \<open>dynamic_cast\<close> of a neighbour of a block gives a transaction.\<close>

fun wake_node :: "RGNode \<Rightarrow> LBIDResourceGraph \<Rightarrow> LBIDResourceGraph" where
  "wake_node (TxnNode t) g = wake t g"
| "wake_node (ResNode l) g = g"

definition wakeAndDetach :: "rg_iter \<Rightarrow> LBID_t \<Rightarrow> LBIDResourceGraph \<Rightarrow> LBIDResourceGraph" where
  "wakeAndDetach it l g =
     (let g' = fold (\<lambda>n g. removeInEdge (ResNode l) n (wake_node n g)) (it (rg_in g (ResNode l))) g
      in g'\<lparr>rg_in := (rg_in g')(ResNode l := {})\<rparr>)"

section \<open>Reserving and releasing\<close>

text \<open>An edge to a block that is not already owned.\<close>

definition wait_for :: "VER_t \<Rightarrow> LBID_t \<Rightarrow> LBIDResourceGraph \<Rightarrow> LBIDResourceGraph" where
  "wait_for t i g = (if ResNode i \<notin> rg_in g (TxnNode t) then addOutEdge (TxnNode t) (ResNode i) g else g)"

definition connectResources :: "LBID_t \<Rightarrow> LBID_t \<Rightarrow> VER_t \<Rightarrow> LBIDResourceGraph \<Rightarrow> LBIDResourceGraph" where
  "connectResources start end t g =
     (let lbids = [start..end];
          intersection = filter (\<lambda>i. i \<in> rg_resources g) lbids;
          reserveList = filter (\<lambda>i. i \<notin> rg_resources g) lbids;
          g1 = g\<lparr>rg_resources := rg_resources g \<union> set reserveList\<rparr>;
          g2 = fold (wait_for t) intersection g1
      in fold (\<lambda>i g. addInEdge (TxnNode t) (ResNode i) g) reserveList g2)"

text \<open>
  \<open>DFSStep\<close>: the loop over the successors, with the body of the recursive call in place. It
  need not end, as far as its definition goes.
\<close>

partial_function (option) dfs_loop ::
  "rg_iter \<Rightarrow> (RGNode \<Rightarrow> RGNode set) \<Rightarrow> 64 word \<Rightarrow> 64 word \<Rightarrow> RGNode list \<Rightarrow> (RGNode \<Rightarrow> 64 word) \<Rightarrow> (bool \<times> (RGNode \<Rightarrow> 64 word)) option"
where
  "dfs_loop it out gray black ns col =
     (case ns of
        [] \<Rightarrow> Some (False, col)
      | n # ns' \<Rightarrow>
          if col n = black then dfs_loop it out gray black ns' col
          else if col n = gray then Some (True, col)
          else Option.bind (dfs_loop it out gray black (it (out n)) (col(n := gray))) (\<lambda>(found, col1).
                 if found then Some (True, col1) else dfs_loop it out gray black ns' (col1(n := black))))"

definition DFSStep ::
  "rg_iter \<Rightarrow> (RGNode \<Rightarrow> RGNode set) \<Rightarrow> 64 word \<Rightarrow> 64 word \<Rightarrow> RGNode \<Rightarrow> (RGNode \<Rightarrow> 64 word) \<Rightarrow> (bool \<times> (RGNode \<Rightarrow> 64 word)) option"
where
  "DFSStep it out gray black n col =
     (if col n = gray then Some (True, col)
      else Option.bind (dfs_loop it out gray black (it (out n)) (col(n := gray))) (\<lambda>(found, col1).
             if found then Some (True, col1) else Some (False, col1(n := black))))"

definition checkDeadlock :: "rg_iter \<Rightarrow> VER_t \<Rightarrow> LBIDResourceGraph \<Rightarrow> (bool \<times> LBIDResourceGraph) option" where
  "checkDeadlock it t g =
     (let gray = rg_color g + 1; black = gray + 1
      in map_option (\<lambda>(found, col). (found, g\<lparr>rg_color := black, rg_node_color := col\<rparr>))
           (DFSStep it (rg_out g) gray black (TxnNode t) (rg_node_color g)))"

text \<open>
  \<open>reserveRange\<close> blocks in its loop. It is two functions: what happens until the call returns or
  the thread sleeps, and what happens from the moment it wakes. The value is None while the
  thread sleeps. A thread that wakes and finds its node deleted uses freed memory.
\<close>

definition reserve_loop :: "rg_iter \<Rightarrow> VER_t \<Rightarrow> LBIDResourceGraph \<Rightarrow> (int option \<times> LBIDResourceGraph) option" where
  "reserve_loop it t g =
     (if rg_out g (TxnNode t) = {} then Some (Some ERR_OK, g)
      else map_option (\<lambda>(found, g1). if found then (Some ERR_DEADLOCK, g1) else (None, sleep t g1)) (checkDeadlock it t g))"

definition reserveRange :: "rg_iter \<Rightarrow> LBID_t \<Rightarrow> LBID_t \<Rightarrow> VER_t \<Rightarrow> LBIDResourceGraph \<Rightarrow> (int option \<times> LBIDResourceGraph) option" where
  "reserveRange it start end t g =
     (let g1 = (if rg_txns g t = None then g\<lparr>rg_txns := (rg_txns g)(t \<mapsto> \<lparr>tn_die = False, tn_sleeping = False\<rparr>)\<rparr> else g)
      in reserve_loop it t (connectResources start end t g1))"

definition reserve_wakes :: "rg_iter \<Rightarrow> LBID_t \<Rightarrow> LBID_t \<Rightarrow> VER_t \<Rightarrow> LBIDResourceGraph \<Rightarrow> (int option \<times> LBIDResourceGraph) option" where
  "reserve_wakes it start end t g =
     (case rg_txns g t of
        None \<Rightarrow> None
      | Some n \<Rightarrow>
          if tn_die n then Some (Some ERR_KILLED, delete_node (TxnNode t) (g\<lparr>rg_txns := (rg_txns g)(t := None)\<rparr>))
          else reserve_loop it t (connectResources start end t g))"

definition release_one :: "rg_iter \<Rightarrow> VER_t \<Rightarrow> RGNode \<Rightarrow> LBIDResourceGraph \<Rightarrow> LBIDResourceGraph" where
  "release_one it t n g =
     (case n of
        ResNode l \<Rightarrow>
          let g1 = removeInEdge (TxnNode t) n (wakeAndDetach it l g)
          in delete_node n (g1\<lparr>rg_resources := rg_resources g1 - {l}\<rparr>)
      | TxnNode _ \<Rightarrow> g)"

definition releaseResources :: "rg_iter \<Rightarrow> VER_t \<Rightarrow> LBIDResourceGraph \<Rightarrow> LBIDResourceGraph" where
  "releaseResources it t g =
     (case rg_txns g t of
        None \<Rightarrow> g
      | Some _ \<Rightarrow>
          let g1 = fold (release_one it t) (it (rg_in g (TxnNode t))) g;
              g2 = fold (\<lambda>n g. removeOutEdge (TxnNode t) n g) (it (rg_out g1 (TxnNode t))) g1
          in case rg_txns g2 t of
               None \<Rightarrow> g2
             | Some n \<Rightarrow>
                 if tn_sleeping n then wake t (die t g2)
                 else delete_node (TxnNode t) (g2\<lparr>rg_txns := (rg_txns g2)(t := None)\<rparr>))"

text \<open>
  \<open>releaseResource\<close> erases a block from the set and then dereferences the iterator that the
  erasure has made invalid; it is defined only for a block that nobody has reserved.
\<close>

definition releaseResource :: "LBID_t \<Rightarrow> LBIDResourceGraph \<Rightarrow> LBIDResourceGraph option" where
  "releaseResource l g = (if l \<in> rg_resources g then None else Some g)"

text \<open>The destructor of the graph: sleeping transactions are told to die, all other nodes are deleted.\<close>

definition destroy_txn :: "VER_t \<Rightarrow> LBIDResourceGraph \<Rightarrow> LBIDResourceGraph" where
  "destroy_txn t g =
     (case rg_txns g t of
        None \<Rightarrow> g
      | Some n \<Rightarrow>
          if tn_sleeping n then wake t (die t g)
          else delete_node (TxnNode t) (g\<lparr>rg_txns := (rg_txns g)(t := None)\<rparr>))"

definition destroy_graph :: "LBIDResourceGraph \<Rightarrow> LBIDResourceGraph" where
  "destroy_graph g =
     (let g1 = fold destroy_txn (sorted_list_of_set (dom (rg_txns g))) g
      in fold (\<lambda>l g. delete_node (ResNode l) (g\<lparr>rg_resources := rg_resources g - {l}\<rparr>)) (sorted_list_of_set (rg_resources g1)) g1)"

section \<open>The search for a cycle\<close>

definition edges :: "(RGNode \<Rightarrow> RGNode set) \<Rightarrow> (RGNode \<times> RGNode) set" where
  "edges out = {(x, y). y \<in> out x}"

definition iterates :: "rg_iter \<Rightarrow> bool" where
  "iterates it \<longleftrightarrow> (\<forall>S. finite S \<longrightarrow> set (it S) = S \<and> distinct (it S))"

text \<open>Black nodes are done: so are their successors, and none of them is on a cycle.\<close>

definition black_ok :: "(RGNode \<Rightarrow> RGNode set) \<Rightarrow> 64 word \<Rightarrow> (RGNode \<Rightarrow> 64 word) \<Rightarrow> bool" where
  "black_ok out black col \<longleftrightarrow> (\<forall>n. col n = black \<longrightarrow> (\<forall>m \<in> out n. col m = black) \<and> (n, n) \<notin> (edges out)\<^sup>+)"

definition white :: "RGNode set \<Rightarrow> 64 word \<Rightarrow> 64 word \<Rightarrow> (RGNode \<Rightarrow> 64 word) \<Rightarrow> RGNode set" where
  "white N gray black col = {n \<in> N. col n \<noteq> gray \<and> col n \<noteq> black}"

lemma black_reach: "(m, x) \<in> (edges out)\<^sup>* \<Longrightarrow> black_ok out black col \<Longrightarrow> col m = black \<Longrightarrow> col x = black"
  by (induction rule: rtrancl_induct) (auto simp: black_ok_def edges_def)

definition cycle_from :: "(RGNode \<Rightarrow> RGNode set) \<Rightarrow> RGNode \<Rightarrow> bool" where
  "cycle_from out n \<longleftrightarrow> (\<exists>v. (n, v) \<in> (edges out)\<^sup>* \<and> (v, v) \<in> (edges out)\<^sup>+)"

lemma cycle_from_step: "m \<in> out n \<Longrightarrow> cycle_from out m \<Longrightarrow> cycle_from out n"
  unfolding cycle_from_def edges_def by (blast intro: converse_rtrancl_into_rtrancl)

lemma step_back: "m \<in> out n \<Longrightarrow> (m, n) \<in> (edges out)\<^sup>* \<Longrightarrow> (n, n) \<in> (edges out)\<^sup>+"
  by (rule rtrancl_into_trancl2) (auto simp: edges_def)

lemma cycle_succ:
  assumes "(n, n) \<in> (edges out)\<^sup>+"
  shows "\<exists>m \<in> out n. (m, n) \<in> (edges out)\<^sup>*"
proof -
  from assms obtain m where "(n, m) \<in> edges out" "(m, n) \<in> (edges out)\<^sup>*" by (blast dest: tranclD)
  then show ?thesis by (auto simp: edges_def)
qed

text \<open>A node whose successors are all black may become black.\<close>

lemma black_ok_finish:
  assumes "black_ok out black col" "\<forall>m \<in> out n. col m = black" "col n \<noteq> black"
  shows "black_ok out black (col(n := black))"
proof -
  have "(n, n) \<notin> (edges out)\<^sup>+" using cycle_succ [of n out] black_reach [OF _ assms(1)] assms(2,3) by blast
  then show ?thesis using assms(1,2) by (auto simp: black_ok_def)
qed

lemma black_ok_enter: "black_ok out black col \<Longrightarrow> col n \<noteq> black \<Longrightarrow> gray \<noteq> black \<Longrightarrow> black_ok out black (col(n := gray))"
  by (auto simp: black_ok_def)

definition dfs_found :: "(RGNode \<Rightarrow> RGNode set) \<Rightarrow> 64 word \<Rightarrow> (RGNode \<Rightarrow> 64 word) \<Rightarrow> RGNode \<Rightarrow> bool" where
  "dfs_found out gray col n \<longleftrightarrow> (\<exists>g. col g = gray \<and> (n, g) \<in> (edges out)\<^sup>*) \<or> cycle_from out n"

definition dfs_done ::
  "(RGNode \<Rightarrow> RGNode set) \<Rightarrow> 64 word \<Rightarrow> 64 word \<Rightarrow> RGNode set \<Rightarrow> (RGNode \<Rightarrow> 64 word) \<Rightarrow> (RGNode \<Rightarrow> 64 word) \<Rightarrow> bool"
where
  "dfs_done out gray black S col col' \<longleftrightarrow> black_ok out black col' \<and> (\<forall>n \<in> S. col' n = black) \<and>
     (\<forall>n. col n = black \<longrightarrow> col' n = black) \<and> (\<forall>n. col' n = gray \<longleftrightarrow> col n = gray)"

definition dfs_colored :: "64 word \<Rightarrow> 64 word \<Rightarrow> (RGNode \<Rightarrow> 64 word) \<Rightarrow> (RGNode \<Rightarrow> 64 word) \<Rightarrow> bool" where
  "dfs_colored gray black col col' \<longleftrightarrow> (\<forall>n. col' n = col n \<or> col' n = gray \<or> col' n = black)"

lemma dfs_found_step:
  assumes "m \<in> out n" "dfs_found out gray (col(n := gray)) m"
  shows "dfs_found out gray col n"
proof -
  consider "(m, n) \<in> (edges out)\<^sup>*" | g where "col g = gray" "(m, g) \<in> (edges out)\<^sup>*" | "cycle_from out m"
    using assms(2) by (auto simp: dfs_found_def split: if_splits)
  then show ?thesis
  proof cases
    case 1
    then show ?thesis using step_back [of m out n] assms(1) by (auto simp: dfs_found_def cycle_from_def)
  next
    case (2 g)
    then have "(n, g) \<in> (edges out)\<^sup>*" using assms(1) by (auto simp: edges_def intro: converse_rtrancl_into_rtrancl)
    then show ?thesis using 2(1) by (auto simp: dfs_found_def)
  next
    case 3
    then show ?thesis using cycle_from_step [of m out n] assms(1) by (auto simp: dfs_found_def)
  qed
qed

lemma white_enter:
  assumes "finite N" "n \<in> N" "col n \<noteq> gray" "col n \<noteq> black" "dfs_colored gray black (col(n := gray)) col1"
  shows "card (white N gray black (col(n := gray))) < card (white N gray black col)"
    and "card (white N gray black (col1(n := black))) < card (white N gray black col)"
proof -
  have fin: "finite (white N gray black col)" using assms(1) by (simp add: white_def)
  have "n \<in> white N gray black col" using assms(2-4) by (simp add: white_def)
  moreover have "white N gray black (col(n := gray)) \<subseteq> white N gray black col - {n}" by (auto simp: white_def)
  moreover have "white N gray black (col1(n := black)) \<subseteq> white N gray black col - {n}" using assms(5) by (auto simp: white_def dfs_colored_def split: if_splits)
  ultimately have "white N gray black (col(n := gray)) \<subset> white N gray black col" "white N gray black (col1(n := black)) \<subset> white N gray black col" by blast+
  then show "card (white N gray black (col(n := gray))) < card (white N gray black col)"
    "card (white N gray black (col1(n := black))) < card (white N gray black col)"
    using fin by (auto intro: psubset_card_mono)
qed

text \<open>
  The loop returns, on a finite graph; what it has found is a path to a node that was gray or a
  cycle, and when it has found nothing all nodes it was given are done.
\<close>

lemma dfs_loop_total:
  assumes it: "iterates it" and N: "finite N" "\<forall>n \<in> N. out n \<subseteq> N" and gb: "gray \<noteq> black"
  shows "set ns \<subseteq> N \<Longrightarrow> black_ok out black col \<Longrightarrow>
    \<exists>b col'. dfs_loop it out gray black ns col = Some (b, col') \<and> dfs_colored gray black col col' \<and>
      (b \<longrightarrow> (\<exists>n \<in> set ns. dfs_found out gray col n)) \<and> (\<not> b \<longrightarrow> dfs_done out gray black (set ns) col col')"
proof (induction "(card (white N gray black col), length ns)" arbitrary: ns col rule: wf_induct [OF wf_lex_prod [OF wf_less_than wf_less_than]])
  case 1
  note IH = 1(1) [rule_format, OF _ refl]
  show ?case
  proof (cases ns)
    case Nil
    then have "dfs_loop it out gray black ns col = Some (False, col)" by (subst dfs_loop.simps) simp
    then show ?thesis using 1(3) Nil by (auto simp: dfs_done_def dfs_colored_def)
  next
    case (Cons n ns')
    have n: "n \<in> N" "set ns' \<subseteq> N" using 1(2) Cons by auto
    have tail: "\<exists>b col'. dfs_loop it out gray black ns' c = Some (b, col') \<and> dfs_colored gray black c col' \<and>
        (b \<longrightarrow> (\<exists>n \<in> set ns'. dfs_found out gray c n)) \<and> (\<not> b \<longrightarrow> dfs_done out gray black (set ns') c col')"
      if "card (white N gray black c) \<le> card (white N gray black col)" "black_ok out black c" for c
      using that n(2) Cons by (intro IH) (auto simp: le_less)
    consider (black) "col n = black" | (gray) "col n = gray" | (white) "col n \<noteq> black" "col n \<noteq> gray" by blast
    then show ?thesis
    proof cases
      case black
      then have "dfs_loop it out gray black ns col = dfs_loop it out gray black ns' col" using Cons by (subst dfs_loop.simps) simp
      with tail [OF order_refl 1(3)] show ?thesis using black Cons by (auto simp: dfs_done_def)
    next
      case gray
      then have "dfs_loop it out gray black ns col = Some (True, col)" using Cons gb by (subst dfs_loop.simps) simp
      moreover have "dfs_found out gray col n" using gray by (auto simp: dfs_found_def)
      ultimately show ?thesis using Cons by (auto simp: dfs_colored_def)
    next
      case white
      have fin: "finite (out n)" using N n(1) finite_subset by blast
      then have out: "set (it (out n)) = out n" using it by (simp add: iterates_def)
      have "card (white N gray black (col(n := gray))) < card (white N gray black col)"
        using white_enter(1) [of N n col gray black "col(n := gray)"] N(1) n(1) white by (auto simp: dfs_colored_def)
      then have "\<exists>b col1. dfs_loop it out gray black (it (out n)) (col(n := gray)) = Some (b, col1) \<and> dfs_colored gray black (col(n := gray)) col1 \<and>
          (b \<longrightarrow> (\<exists>m \<in> set (it (out n)). dfs_found out gray (col(n := gray)) m)) \<and>
          (\<not> b \<longrightarrow> dfs_done out gray black (set (it (out n))) (col(n := gray)) col1)"
        using N(2) n(1) out black_ok_enter [OF 1(3) white(1) gb] by (intro IH) auto
      then obtain b col1 where c1: "dfs_loop it out gray black (it (out n)) (col(n := gray)) = Some (b, col1)" "dfs_colored gray black (col(n := gray)) col1"
          "b \<Longrightarrow> \<exists>m \<in> out n. dfs_found out gray (col(n := gray)) m" "\<not> b \<Longrightarrow> dfs_done out gray black (out n) (col(n := gray)) col1"
        unfolding out by blast
      show ?thesis
      proof (cases b)
        case True
        then have "dfs_loop it out gray black ns col = Some (True, col1)" using Cons white c1(1) by (subst dfs_loop.simps) simp
        moreover have "dfs_found out gray col n" using c1(3) [OF True] dfs_found_step [of _ out n] by blast
        moreover have "dfs_colored gray black col col1" using c1(2) by (auto simp: dfs_colored_def split: if_splits)
        ultimately show ?thesis using Cons by auto
      next
        case False
        let ?c = "col1(n := black)"
        have d: "black_ok out black col1" "\<forall>m \<in> out n. col1 m = black" "col1 n = gray" "\<forall>m. col m = black \<longrightarrow> col1 m = black"
            "\<forall>m. m \<noteq> n \<longrightarrow> (col1 m = gray \<longleftrightarrow> col m = gray)"
          using c1(4) [OF False] white by (auto simp: dfs_done_def split: if_splits)
        have ok: "black_ok out black ?c" using black_ok_finish [OF d(1,2)] d(3) gb by simp
        have "card (white N gray black ?c) \<le> card (white N gray black col)"
          using white_enter(2) [of N n col gray black col1] N(1) n(1) white c1(2) by simp
        from tail [OF this ok] obtain b' col' where
          t: "dfs_loop it out gray black ns' ?c = Some (b', col')" "dfs_colored gray black ?c col'"
            "b' \<Longrightarrow> \<exists>n \<in> set ns'. dfs_found out gray ?c n" "\<not> b' \<Longrightarrow> dfs_done out gray black (set ns') ?c col'" by blast
        have "dfs_loop it out gray black ns col = Some (b', col')" using Cons white c1(1) False t(1) by (subst dfs_loop.simps) simp
        moreover have "dfs_colored gray black col col'" using c1(2) t(2) by (auto simp: dfs_colored_def split: if_splits) metis+
        moreover have same: "?c g = gray \<longleftrightarrow> col g = gray" for g using d(5) white(2) gb by auto
        have "\<exists>n \<in> set ns. dfs_found out gray col n" if b' using t(3) [OF that] Cons unfolding dfs_found_def same by auto
        moreover have "dfs_done out gray black (set ns) col col'" if "\<not> b'"
          using t(4) [OF that] Cons d(4) unfolding dfs_done_def same by (auto split: if_splits)
        ultimately show ?thesis by blast
      qed
    qed
  qed
qed

lemma DFSStep_exact:
  assumes "iterates it" "finite N" "\<forall>n \<in> N. out n \<subseteq> N" "n \<in> N" "gray \<noteq> black" "\<forall>m. col m \<noteq> gray \<and> col m \<noteq> black"
  shows "\<exists>col'. DFSStep it out gray black n col = Some (cycle_from out n, col') \<and> dfs_colored gray black col col'"
proof -
  let ?c = "col(n := gray)"
  have "finite (out n)" using assms(2-4) finite_subset by blast
  then have out: "set (it (out n)) = out n" using assms(1) by (simp add: iterates_def)
  have "black_ok out black ?c" using assms(5,6) by (simp add: black_ok_def)
  from dfs_loop_total [OF assms(1-3,5) _ this, of "it (out n)"] obtain b col1 where
    c1: "dfs_loop it out gray black (it (out n)) ?c = Some (b, col1)" "dfs_colored gray black ?c col1"
      "b \<Longrightarrow> \<exists>m \<in> out n. dfs_found out gray ?c m" "\<not> b \<Longrightarrow> dfs_done out gray black (out n) ?c col1"
    using assms(3,4) out by auto
  have "cycle_from out n" if found: b
  proof -
    obtain m where m: "m \<in> out n" "dfs_found out gray ?c m" using c1(3) [OF found] by blast
    from dfs_found_step [OF m] assms(6) show ?thesis by (auto simp: dfs_found_def)
  qed
  moreover have "\<not> cycle_from out n" if "\<not> b"
  proof -
    have d: "black_ok out black col1" "\<forall>m \<in> out n. col1 m = black" "col1 n = gray" using c1(4) [OF that] by (auto simp: dfs_done_def)
    then have ok: "black_ok out black (col1(n := black))" using black_ok_finish [OF d(1,2)] assms(5) by simp
    show ?thesis
    proof
      assume "cycle_from out n"
      then obtain v where v: "(n, v) \<in> (edges out)\<^sup>*" "(v, v) \<in> (edges out)\<^sup>+" by (auto simp: cycle_from_def)
      from black_reach [OF v(1) ok] have "(col1(n := black)) v = black" by simp
      then show False using ok v(2) by (auto simp: black_ok_def)
    qed
  qed
  ultimately have b: "b = cycle_from out n" by blast
  have "DFSStep it out gray black n col = Some (b, if b then col1 else col1(n := black))" using assms(6) c1(1) by (simp add: DFSStep_def)
  moreover have "dfs_colored gray black col (if b then col1 else col1(n := black))" using c1(2) by (auto simp: dfs_colored_def split: if_splits)
  ultimately show ?thesis using b by blast
qed

section \<open>The invariant\<close>

text \<open>
  Edges are recorded at both ends; every reserved block has one owner, which exists; only existing
  transactions wait, for reserved blocks that are not their own.
\<close>

definition rg_owns :: "LBIDResourceGraph \<Rightarrow> VER_t \<Rightarrow> LBID_t set" where
  "rg_owns g t = {l. ResNode l \<in> rg_in g (TxnNode t)}"

definition rg_waits :: "LBIDResourceGraph \<Rightarrow> VER_t \<Rightarrow> LBID_t set" where
  "rg_waits g t = {l. ResNode l \<in> rg_out g (TxnNode t)}"

definition rg_sym :: "LBIDResourceGraph \<Rightarrow> bool" where
  "rg_sym g \<longleftrightarrow> (\<forall>x y. y \<in> rg_out g x \<longleftrightarrow> x \<in> rg_in g y)"

definition rg_txn_ok :: "LBIDResourceGraph \<Rightarrow> VER_t \<Rightarrow> bool" where
  "rg_txn_ok g t \<longleftrightarrow> rg_out g (TxnNode t) \<subseteq> ResNode ` rg_resources g \<and> (rg_out g (TxnNode t) \<noteq> {} \<longrightarrow> t \<in> dom (rg_txns g))"

definition rg_res_ok :: "LBIDResourceGraph \<Rightarrow> LBID_t \<Rightarrow> bool" where
  "rg_res_ok g l \<longleftrightarrow>
     (if l \<in> rg_resources g
      then \<exists>t \<in> dom (rg_txns g). rg_out g (ResNode l) = {TxnNode t} \<and> ResNode l \<notin> rg_out g (TxnNode t)
      else rg_out g (ResNode l) = {})"

definition rg_inv :: "LBIDResourceGraph \<Rightarrow> bool" where
  "rg_inv g \<longleftrightarrow> finite (rg_resources g) \<and> finite (dom (rg_txns g)) \<and> rg_sym g \<and> (\<forall>t. rg_txn_ok g t) \<and> (\<forall>l. rg_res_ok g l) \<and>
     (\<forall>n. rg_node_color g n \<le> rg_color g)"

lemma rg_invD:
  assumes "rg_inv g"
  shows "finite (rg_resources g)" "finite (dom (rg_txns g))" "rg_sym g" "rg_txn_ok g t" "rg_res_ok g l" "rg_node_color g n \<le> rg_color g"
  using assms by (simp_all add: rg_inv_def)

lemma rg_ok_colors [simp]:
  "rg_sym (g\<lparr>rg_color := c, rg_node_color := col\<rparr>) = rg_sym g"
  "rg_txn_ok (g\<lparr>rg_color := c, rg_node_color := col\<rparr>) t = rg_txn_ok g t"
  "rg_res_ok (g\<lparr>rg_color := c, rg_node_color := col\<rparr>) l = rg_res_ok g l"
  by (simp_all add: rg_sym_def rg_txn_ok_def rg_res_ok_def)

definition rg_nodes :: "LBIDResourceGraph \<Rightarrow> RGNode set" where
  "rg_nodes g = TxnNode ` dom (rg_txns g) \<union> ResNode ` rg_resources g"

lemma rg_nodes_closed:
  assumes "rg_inv g"
  shows "finite (rg_nodes g)" "\<forall>n \<in> rg_nodes g. rg_out g n \<subseteq> rg_nodes g"
proof -
  show "finite (rg_nodes g)" using rg_invD(1,2) [OF assms] by (simp add: rg_nodes_def)
  show "\<forall>n \<in> rg_nodes g. rg_out g n \<subseteq> rg_nodes g"
  proof
    fix n assume n: "n \<in> rg_nodes g"
    show "rg_out g n \<subseteq> rg_nodes g"
    proof (cases n)
      case (TxnNode t)
      then show ?thesis using rg_invD(4) [OF assms, of t] by (auto simp: rg_txn_ok_def rg_nodes_def)
    next
      case (ResNode l)
      then show ?thesis using n rg_invD(5) [OF assms, of l] by (auto simp: rg_res_ok_def rg_nodes_def intro!: imageI)
    qed
  qed
qed

lemma checkDeadlock_ok:
  assumes "rg_inv g" "iterates it" "t \<in> dom (rg_txns g)" "unat (rg_color g) + 2 < 2 ^ 64"
  shows "\<exists>g'. checkDeadlock it t g = Some (cycle_from (rg_out g) (TxnNode t), g') \<and> rg_inv g' \<and>
    rg_out g' = rg_out g \<and> rg_in g' = rg_in g \<and> rg_txns g' = rg_txns g \<and> rg_resources g' = rg_resources g \<and> unat (rg_color g') = unat (rg_color g) + 2"
proof -
  let ?gray = "rg_color g + 1" and ?black = "rg_color g + 1 + 1"
  have u: "unat ?gray = unat (rg_color g) + 1" "unat ?black = unat (rg_color g) + 2" using assms(4) by (simp_all add: unat_word_ariths)
  have lt: "rg_node_color g m < ?gray" "?gray < ?black" for m
    using rg_invD(6) [OF assms(1), of m] u by (simp_all add: word_less_nat_alt word_le_nat_alt)
  have n: "TxnNode t \<in> rg_nodes g" using assms(3) by (auto simp: rg_nodes_def intro: imageI)
  have gb: "?gray \<noteq> ?black" using lt(2) by (rule less_imp_neq)
  have fresh: "\<forall>m. rg_node_color g m \<noteq> ?gray \<and> rg_node_color g m \<noteq> ?black"
    using lt(1) less_trans [OF lt(1) lt(2)] less_imp_neq by blast
  obtain col' where
    col': "DFSStep it (rg_out g) ?gray ?black (TxnNode t) (rg_node_color g) = Some (cycle_from (rg_out g) (TxnNode t), col')"
      "dfs_colored ?gray ?black (rg_node_color g) col'"
    using DFSStep_exact [OF assms(2) rg_nodes_closed [OF assms(1)] n gb fresh] by blast
  let ?g' = "g\<lparr>rg_color := ?black, rg_node_color := col'\<rparr>"
  have "col' n \<le> ?black" for n
    using col'(2) [unfolded dfs_colored_def, rule_format, of n] less_imp_le [OF less_trans [OF lt(1) [of n] lt(2)]] less_imp_le [OF lt(2)] by auto
  then have "rg_inv ?g'" using assms(1) by (simp add: rg_inv_def)
  then show ?thesis using col'(1) u(2) by (auto simp: checkDeadlock_def Let_def)
qed

section \<open>What the operations do to the edges\<close>

definition rg_frame :: "LBIDResourceGraph \<Rightarrow> LBIDResourceGraph \<Rightarrow> bool" where
  "rg_frame g g' \<longleftrightarrow> rg_color g' = rg_color g \<and> rg_node_color g' = rg_node_color g \<and> rg_txns g' = rg_txns g \<and> rg_resources g' = rg_resources g"

lemma rg_frame_trans: "rg_frame g g' \<Longrightarrow> rg_frame g' g'' \<Longrightarrow> rg_frame g g''"
  by (simp add: rg_frame_def)

lemma edge_ops:
  "rg_out (addOutEdge x n g) = (rg_out g)(x := insert n (rg_out g x))" "rg_frame g (addOutEdge x n g)"
  "rg_out (addInEdge x n g) = (rg_out g)(n := insert x (rg_out g n))" "rg_frame g (addInEdge x n g)"
  "rg_out (removeOutEdge x n g) = (rg_out g)(x := rg_out g x - {n})" "rg_frame g (removeOutEdge x n g)"
  "rg_out (removeInEdge x n g) = (rg_out g)(n := rg_out g n - {x})" "rg_frame g (removeInEdge x n g)"
  by (simp_all add: addOutEdge_def addInEdge_def removeOutEdge_def removeInEdge_def rg_frame_def)

lemma rg_sym_ops:
  assumes "rg_sym g"
  shows "rg_sym (addOutEdge x n g)" "rg_sym (addInEdge x n g)" "rg_sym (removeOutEdge x n g)" "rg_sym (removeInEdge x n g)" "rg_sym (delete_node x g)"
  using assms by (auto simp: rg_sym_def addOutEdge_def addInEdge_def removeOutEdge_def removeInEdge_def delete_node_def)

lemma rg_symD: "rg_sym g \<Longrightarrow> x \<in> rg_in g y \<longleftrightarrow> y \<in> rg_out g x"
  by (simp add: rg_sym_def)

lemma rg_out_delete: "rg_sym g \<Longrightarrow> rg_out (delete_node x g) = (\<lambda>y. if y = x then {} else rg_out g y - {x})"
  by (auto simp: delete_node_def rg_sym_def fun_eq_iff)

lemma fold_waits:
  assumes "rg_sym g"
  shows "rg_sym (fold (wait_for t) xs g) \<and>
    rg_frame g (fold (wait_for t) xs g) \<and>
    rg_out (fold (wait_for t) xs g) =
      (rg_out g)(TxnNode t := rg_out g (TxnNode t) \<union> ResNode ` {i \<in> set xs. TxnNode t \<notin> rg_out g (ResNode i)})"
  using assms
proof (induction xs arbitrary: g)
  case Nil
  then show ?case by (simp add: rg_frame_def)
next
  case (Cons i xs)
  let ?g = "wait_for t i g"
  have s: "rg_sym ?g" "rg_frame g ?g" using Cons.prems rg_sym_ops(1) edge_ops(2) by (auto simp: wait_for_def rg_frame_def)
  have o: "rg_out ?g = (rg_out g)(TxnNode t := rg_out g (TxnNode t) \<union> ResNode ` {j \<in> {i}. TxnNode t \<notin> rg_out g (ResNode j)})"
    using rg_symD [OF Cons.prems, of "ResNode i" "TxnNode t"] by (auto simp: wait_for_def edge_ops(1) fun_eq_iff)
  note IH = Cons.IH [OF s(1)]
  have f: "fold (wait_for t) (i # xs) g = fold (wait_for t) xs ?g" by simp
  have "rg_out (fold (wait_for t) (i # xs) g) = (rg_out ?g)(TxnNode t := rg_out ?g (TxnNode t) \<union> ResNode ` {j \<in> set xs. TxnNode t \<notin> rg_out ?g (ResNode j)})"
    unfolding f using IH by blast
  also have "\<dots> = (rg_out g)(TxnNode t := rg_out g (TxnNode t) \<union> ResNode ` {j \<in> set (i # xs). TxnNode t \<notin> rg_out g (ResNode j)})"
    unfolding o by (auto simp: fun_eq_iff)
  finally show ?case using IH rg_frame_trans [OF s(2)] unfolding f by blast
qed

lemma fold_owns:
  assumes "rg_sym g"
  shows "rg_sym (fold (\<lambda>i g. addInEdge (TxnNode t) (ResNode i) g) xs g) \<and> rg_frame g (fold (\<lambda>i g. addInEdge (TxnNode t) (ResNode i) g) xs g) \<and>
    rg_out (fold (\<lambda>i g. addInEdge (TxnNode t) (ResNode i) g) xs g) =
      (\<lambda>x. rg_out g x \<union> (if x \<in> ResNode ` set xs then {TxnNode t} else {}))"
  using assms
proof (induction xs arbitrary: g)
  case Nil
  then show ?case by (simp add: rg_frame_def)
next
  case (Cons i xs)
  show ?case using Cons.IH [OF rg_sym_ops(2) [OF Cons.prems, of "TxnNode t" "ResNode i"]] rg_frame_trans [OF edge_ops(4)]
    by (auto simp: edge_ops(3) fun_eq_iff)
qed

text \<open>The blocks a call has to wait for, and those it gets.\<close>

definition new_waits :: "LBID_t \<Rightarrow> LBID_t \<Rightarrow> VER_t \<Rightarrow> LBIDResourceGraph \<Rightarrow> LBID_t set" where
  "new_waits start end t g = {l \<in> {start..end} \<inter> rg_resources g. TxnNode t \<notin> rg_out g (ResNode l)}"

definition new_owned :: "LBID_t \<Rightarrow> LBID_t \<Rightarrow> LBIDResourceGraph \<Rightarrow> LBID_t set" where
  "new_owned start end g = {start..end} - rg_resources g"

lemma connectResources_ok:
  assumes "rg_sym g" and g'_def: "g' = connectResources start end t g"
  shows "rg_sym g'" "rg_color g' = rg_color g" "rg_node_color g' = rg_node_color g" "rg_txns g' = rg_txns g"
    "rg_resources g' = rg_resources g \<union> {start..end}"
    "rg_out g' (TxnNode u) = (if u = t then rg_out g (TxnNode t) \<union> ResNode ` new_waits start end t g else rg_out g (TxnNode u))"
    "rg_out g' (ResNode l) = (if l \<in> new_owned start end g then insert (TxnNode t) (rg_out g (ResNode l)) else rg_out g (ResNode l))"
proof -
  let ?old = "filter (\<lambda>i. i \<in> rg_resources g) [start..end]" and ?new = "filter (\<lambda>i. i \<notin> rg_resources g) [start..end]"
  let ?g1 = "g\<lparr>rg_resources := rg_resources g \<union> set ?new\<rparr>"
  let ?g2 = "fold (wait_for t) ?old ?g1"
  have "rg_sym ?g1" using assms(1) by (simp add: rg_sym_def)
  note w = fold_waits [OF this, of t ?old]
  have o: "rg_sym g' \<and> rg_frame ?g2 g' \<and> rg_out g' = (\<lambda>x. rg_out ?g2 x \<union> (if x \<in> ResNode ` set ?new then {TxnNode t} else {}))"
    using fold_owns [of ?g2 t ?new] w unfolding g'_def connectResources_def Let_def by blast
  then show "rg_sym g'" by blast
  have fr: "rg_frame ?g1 g'" using o w rg_frame_trans by blast
  then show "rg_color g' = rg_color g" "rg_node_color g' = rg_node_color g" "rg_txns g' = rg_txns g" by (simp_all add: rg_frame_def)
  have "rg_resources g' = rg_resources ?g1" using fr unfolding rg_frame_def by blast
  also have "\<dots> = rg_resources g \<union> {start..end}" by auto
  finally show "rg_resources g' = rg_resources g \<union> {start..end}" .
  have out1: "rg_out ?g1 = rg_out g" by simp
  have o2: "rg_out ?g2 = (rg_out g)(TxnNode t := rg_out g (TxnNode t) \<union> ResNode ` {i \<in> set ?old. TxnNode t \<notin> rg_out g (ResNode i)})"
    using w unfolding out1 by blast
  have old: "{i \<in> set ?old. TxnNode t \<notin> rg_out g (ResNode i)} = new_waits start end t g" by (auto simp: new_waits_def)
  have new: "ResNode l \<in> ResNode ` set ?new \<longleftrightarrow> l \<in> new_owned start end g" for l by (auto simp: new_owned_def)
  have o3: "rg_out g' x = rg_out ?g2 x \<union> (if x \<in> ResNode ` set ?new then {TxnNode t} else {})" for x using o by (metis (lifting))
  show "rg_out g' (TxnNode u) = (if u = t then rg_out g (TxnNode t) \<union> ResNode ` new_waits start end t g else rg_out g (TxnNode u))"
    unfolding o3 o2 old by auto
  show "rg_out g' (ResNode l) = (if l \<in> new_owned start end g then insert (TxnNode t) (rg_out g (ResNode l)) else rg_out g (ResNode l))"
    unfolding o3 o2 new by simp
qed

lemma connectResources_inv:
  assumes inv: "rg_inv g" and t: "t \<in> dom (rg_txns g)"
  shows "rg_inv (connectResources start end t g)"
proof -
  note c = connectResources_ok [OF rg_invD(3) [OF inv] refl, of start "end" t]
  let ?g' = "connectResources start end t g"
  have "rg_txn_ok ?g' u" for u
    using rg_invD(4) [OF inv, of u] t by (auto simp: rg_txn_ok_def c new_waits_def)
  moreover have "rg_res_ok ?g' l" for l
  proof -
    note r = rg_invD(5) [OF inv, of l]
    consider (old) "l \<in> rg_resources g" | (new) "l \<in> new_owned start end g" | (none) "l \<notin> rg_resources g \<union> {start..end}" by (auto simp: new_owned_def)
    then show ?thesis
    proof cases
      case old
      then obtain u where u: "u \<in> dom (rg_txns g)" "rg_out g (ResNode l) = {TxnNode u}" "ResNode l \<notin> rg_out g (TxnNode u)" using r by (auto simp: rg_res_ok_def)
      have "l \<notin> new_owned start end g" "u = t \<Longrightarrow> l \<notin> new_waits start end t g" using old u(2) by (auto simp: new_owned_def new_waits_def)
      then show ?thesis using old u by (auto simp: rg_res_ok_def c)
    next
      case new
      then have "rg_out g (ResNode l) = {}" "l \<notin> rg_resources g" "l \<in> {start..end}" using r by (auto simp: rg_res_ok_def new_owned_def)
      moreover have "ResNode l \<notin> rg_out g (TxnNode t)" using rg_invD(4) [OF inv, of t] calculation(2) by (auto simp: rg_txn_ok_def)
      ultimately show ?thesis using new t by (auto simp: rg_res_ok_def c new_waits_def)
    next
      case none
      then show ?thesis using r by (auto simp: rg_res_ok_def c new_owned_def)
    qed
  qed
  ultimately show ?thesis using rg_invD(1,2,6) [OF inv] by (simp add: rg_inv_def c)
qed

lemma rg_inv_txns:
  assumes "rg_inv g" "dom m = dom (rg_txns g)"
  shows "rg_inv (g\<lparr>rg_txns := m\<rparr>)"
proof -
  have "rg_sym (g\<lparr>rg_txns := m\<rparr>) = rg_sym g" "rg_txn_ok (g\<lparr>rg_txns := m\<rparr>) t = rg_txn_ok g t" "rg_res_ok (g\<lparr>rg_txns := m\<rparr>) l = rg_res_ok g l" for t l
    by (simp_all add: rg_sym_def rg_txn_ok_def rg_res_ok_def assms(2))
  then show ?thesis using assms by (simp add: rg_inv_def)
qed

lemma dom_map_option_upd: "dom (m(t := map_option f (m t))) = dom m"
  by (auto simp: dom_def)

lemma sleep_inv: "rg_inv g \<Longrightarrow> rg_inv (sleep t g)"
  unfolding sleep_def by (rule rg_inv_txns [OF _ dom_map_option_upd])

lemma sleep_simps [simp]: "rg_out (sleep t g) = rg_out g" "rg_color (sleep t g) = rg_color g" "rg_resources (sleep t g) = rg_resources g"
  by (simp_all add: sleep_def)

lemma dom_sleep [simp]: "dom (rg_txns (sleep t g)) = dom (rg_txns g)"
  unfolding sleep_def using dom_map_option_upd by (metis LBIDResourceGraph.select_convs(2) LBIDResourceGraph.surjective LBIDResourceGraph.update_convs(2))

text \<open>The three ways a call goes on: it has everything, it would wait in a circle, or it sleeps.\<close>

lemma reserve_loop_ok:
  assumes "rg_inv g" "iterates it" "t \<in> dom (rg_txns g)" "unat (rg_color g) + 2 < 2 ^ 64"
  shows "\<exists>r g'. reserve_loop it t g = Some (r, g') \<and> rg_inv g' \<and> rg_out g' = rg_out g \<and> rg_resources g' = rg_resources g \<and>
    dom (rg_txns g') = dom (rg_txns g) \<and> unat (rg_color g') \<le> unat (rg_color g) + 2 \<and>
    r = (if rg_out g (TxnNode t) = {} then Some ERR_OK else if cycle_from (rg_out g) (TxnNode t) then Some ERR_DEADLOCK else None)"
proof (cases "rg_out g (TxnNode t) = {}")
  case True
  then show ?thesis using assms(1) by (simp add: reserve_loop_def)
next
  case False
  from checkDeadlock_ok [OF assms] obtain g' where
    g': "checkDeadlock it t g = Some (cycle_from (rg_out g) (TxnNode t), g')" "rg_inv g'" "rg_out g' = rg_out g" "rg_txns g' = rg_txns g"
      "rg_resources g' = rg_resources g" "unat (rg_color g') = unat (rg_color g) + 2" by blast
  then show ?thesis using False by (cases "cycle_from (rg_out g) (TxnNode t)") (simp_all add: reserve_loop_def sleep_inv)
qed

section \<open>Releasing\<close>

definition same_nodes :: "LBIDResourceGraph \<Rightarrow> LBIDResourceGraph \<Rightarrow> bool" where
  "same_nodes g g' \<longleftrightarrow> rg_color g' = rg_color g \<and> rg_node_color g' = rg_node_color g \<and> dom (rg_txns g') = dom (rg_txns g) \<and> rg_resources g' = rg_resources g"

lemma same_nodes_trans: "same_nodes g g' \<Longrightarrow> same_nodes g' g'' \<Longrightarrow> same_nodes g g''"
  by (simp add: same_nodes_def)

lemma dom_wake: "dom (rg_txns (wake t g)) = dom (rg_txns g)"
  unfolding wake_def using dom_map_option_upd by (metis LBIDResourceGraph.select_convs(2) LBIDResourceGraph.surjective LBIDResourceGraph.update_convs(2))

lemma wake_simps [simp]:
  "rg_out (wake t g) = rg_out g" "rg_in (wake t g) = rg_in g" "rg_color (wake t g) = rg_color g" "rg_node_color (wake t g) = rg_node_color g"
  "rg_resources (wake t g) = rg_resources g"
  by (simp_all add: wake_def)

lemma wake_ok: "rg_out (wake_node n g) = rg_out g" "rg_in (wake_node n g) = rg_in g" "same_nodes g (wake_node n g)"
  by (cases n; simp add: same_nodes_def dom_wake)+

lemma fold_detach:
  assumes "rg_sym g"
  shows "let g' = fold (\<lambda>n g. removeInEdge (ResNode l) n (wake_node n g)) ns g
    in rg_sym g' \<and> same_nodes g g' \<and> rg_out g' = (\<lambda>x. if x \<in> set ns then rg_out g x - {ResNode l} else rg_out g x)"
  using assms
proof (induction ns arbitrary: g)
  case Nil
  then show ?case by (simp add: same_nodes_def)
next
  case (Cons n ns)
  let ?g = "removeInEdge (ResNode l) n (wake_node n g)"
  have "rg_sym (wake_node n g)" using Cons.prems by (simp add: rg_sym_def wake_ok)
  then have s: "rg_sym ?g" by (rule rg_sym_ops(4))
  have o: "rg_out ?g = (rg_out g)(n := rg_out g n - {ResNode l})" by (simp add: edge_ops(7) wake_ok)
  have n: "same_nodes g ?g" using wake_ok(3) [of g n] edge_ops(8) [of "wake_node n g" "ResNode l" n] by (simp add: same_nodes_def rg_frame_def)
  have f: "fold (\<lambda>n g. removeInEdge (ResNode l) n (wake_node n g)) (n # ns) g = fold (\<lambda>n g. removeInEdge (ResNode l) n (wake_node n g)) ns ?g" by simp
  have eq: "(\<lambda>x. if x \<in> set ns then rg_out ?g x - {ResNode l} else rg_out ?g x) = (\<lambda>x. if x \<in> set (n # ns) then rg_out g x - {ResNode l} else rg_out g x)"
    unfolding o by (auto simp: fun_eq_iff)
  show ?case using Cons.IH [OF s, unfolded Let_def eq] same_nodes_trans [OF n] unfolding f Let_def by blast
qed

lemma wakeAndDetach_ok:
  assumes "rg_sym g" "finite (rg_in g (ResNode l))" "iterates it" and g': "g' = wakeAndDetach it l g"
  shows "rg_sym g'" "same_nodes g g'" "rg_out g' = (\<lambda>x. rg_out g x - {ResNode l})"
proof -
  let ?g = "fold (\<lambda>n g. removeInEdge (ResNode l) n (wake_node n g)) (it (rg_in g (ResNode l))) g"
  have it: "set (it (rg_in g (ResNode l))) = rg_in g (ResNode l)" using assms(2,3) by (simp add: iterates_def)
  note f = fold_detach [OF assms(1), of l "it (rg_in g (ResNode l))", unfolded Let_def it]
  have "rg_out ?g = (\<lambda>x. if x \<in> rg_in g (ResNode l) then rg_out g x - {ResNode l} else rg_out g x)" using f by blast
  then have out: "rg_out ?g = (\<lambda>x. rg_out g x - {ResNode l})" using rg_symD [OF assms(1), of _ "ResNode l"] by (auto simp: fun_eq_iff)
  have sym: "rg_sym ?g" using f by blast
  have "rg_in ?g (ResNode l) = {}" using rg_symD [OF sym, of _ "ResNode l"] unfolding out by blast
  then have "(rg_in ?g)(ResNode l := {}) = rg_in ?g" by (rule fun_upd_idem)
  then have "g' = ?g" unfolding g' wakeAndDetach_def Let_def by (cases ?g) (simp only: LBIDResourceGraph.simps)
  then show "rg_sym g'" "rg_out g' = (\<lambda>x. rg_out g x - {ResNode l})" using sym out by simp_all
  show "same_nodes g g'" unfolding \<open>g' = ?g\<close> using f by blast
qed

definition res_in_finite :: "LBIDResourceGraph \<Rightarrow> bool" where
  "res_in_finite g \<longleftrightarrow> (\<forall>l. finite (rg_in g (ResNode l)))"

lemma rg_inv_in_finite:
  assumes "rg_inv g"
  shows "res_in_finite g"
  unfolding res_in_finite_def
proof
  fix l
  have "rg_in g (ResNode l) \<subseteq> TxnNode ` dom (rg_txns g)"
  proof
    fix x assume "x \<in> rg_in g (ResNode l)"
    then have x: "ResNode l \<in> rg_out g x" using rg_symD [OF rg_invD(3) [OF assms]] by blast
    show "x \<in> TxnNode ` dom (rg_txns g)"
    proof (cases x)
      case (TxnNode t)
      then show ?thesis using x rg_invD(4) [OF assms, of t] by (auto simp: rg_txn_ok_def intro!: imageI)
    next
      case (ResNode k)
      then show ?thesis using x rg_invD(5) [OF assms, of k] by (auto simp: rg_res_ok_def split: if_splits)
    qed
  qed
  then show "finite (rg_in g (ResNode l))" using rg_invD(2) [OF assms] finite_subset by blast
qed

definition colors_le :: "LBIDResourceGraph \<Rightarrow> LBIDResourceGraph \<Rightarrow> bool" where
  "colors_le g g' \<longleftrightarrow> rg_color g' = rg_color g \<and> (\<forall>n. rg_node_color g' n = rg_node_color g n \<or> rg_node_color g' n = 0)"

lemma release_one_ok:
  assumes "rg_sym g" "res_in_finite g" "iterates it" and g': "g' = release_one it t (ResNode l) g"
  shows "rg_sym g'" "colors_le g g'" "dom (rg_txns g') = dom (rg_txns g)" "rg_resources g' = rg_resources g - {l}"
    "rg_out g' = (\<lambda>y. if y = ResNode l then {} else rg_out g y - {ResNode l})"
proof -
  let ?d = "wakeAndDetach it l g" and ?g1 = "removeInEdge (TxnNode t) (ResNode l) (wakeAndDetach it l g)"
  have "finite (rg_in g (ResNode l))" using assms(2) by (simp add: res_in_finite_def)
  note d = wakeAndDetach_ok [OF assms(1) this assms(3) refl]
  have s1: "rg_sym ?g1" using d(1) by (rule rg_sym_ops(4))
  have o1: "rg_out ?g1 = (rg_out ?d)(ResNode l := rg_out ?d (ResNode l) - {TxnNode t})" by (rule edge_ops(7))
  have n1: "same_nodes g ?g1" using d(2) edge_ops(8) [of ?d "TxnNode t" "ResNode l"] by (simp add: same_nodes_def rg_frame_def)
  let ?g2 = "?g1\<lparr>rg_resources := rg_resources ?g1 - {l}\<rparr>"
  have s2: "rg_sym ?g2" using s1 by (simp add: rg_sym_def)
  have g2: "g' = delete_node (ResNode l) ?g2" by (simp add: g' release_one_def Let_def)
  show "rg_sym g'" unfolding g2 using s2 by (rule rg_sym_ops(5))
  have out2: "rg_out ?g2 = rg_out ?g1" by simp
  show "rg_out g' = (\<lambda>y. if y = ResNode l then {} else rg_out g y - {ResNode l})"
    unfolding g2 rg_out_delete [OF s2] out2 o1 d(3) by (auto simp: fun_eq_iff)
  show "colors_le g g'" "dom (rg_txns g') = dom (rg_txns g)" "rg_resources g' = rg_resources g - {l}"
    using n1 unfolding g2 by (simp_all add: delete_node_def same_nodes_def colors_le_def)
qed

lemma colors_le_trans: "colors_le g g' \<Longrightarrow> colors_le g' g'' \<Longrightarrow> colors_le g g''"
  unfolding colors_le_def by metis

lemma rg_in_mono: "rg_sym g \<Longrightarrow> rg_sym g' \<Longrightarrow> (\<And>x. rg_out g' x \<subseteq> rg_out g x) \<Longrightarrow> res_in_finite g \<Longrightarrow> res_in_finite g'"
  unfolding res_in_finite_def rg_sym_def by (metis (no_types, lifting) finite_subset subset_eq)

lemma fold_release_ok:
  assumes "rg_sym g" "res_in_finite g" "iterates it" and g': "g' = fold (release_one it t) (map ResNode ls) g"
  shows "rg_sym g' \<and> colors_le g g' \<and> dom (rg_txns g') = dom (rg_txns g) \<and> rg_resources g' = rg_resources g - set ls \<and>
    rg_out g' = (\<lambda>y. if y \<in> ResNode ` set ls then {} else rg_out g y - ResNode ` set ls)"
  using assms(1,2) unfolding g'
proof (induction ls arbitrary: g)
  case Nil
  then show ?case by (simp add: colors_le_def)
next
  case (Cons l ls)
  let ?g = "release_one it t (ResNode l) g"
  note r = release_one_ok [OF Cons.prems assms(3) refl, of t l]
  have "res_in_finite ?g" using rg_in_mono [OF Cons.prems(1) r(1) _ Cons.prems(2)] unfolding r(5) by auto
  note IH = Cons.IH [OF r(1) this]
  have f: "fold (release_one it t) (map ResNode (l # ls)) g = fold (release_one it t) (map ResNode ls) ?g" by simp
  have eq: "(\<lambda>y. if y \<in> ResNode ` set ls then {} else rg_out ?g y - ResNode ` set ls) =
      (\<lambda>y. if y \<in> ResNode ` set (l # ls) then {} else rg_out g y - ResNode ` set (l # ls))"
    unfolding r(5) by (auto simp: fun_eq_iff)
  have res: "rg_resources ?g - set ls = rg_resources g - set (l # ls)" unfolding r(4) by auto
  show ?case using IH colors_le_trans [OF r(2)] unfolding f eq res r(3) by blast
qed

lemma fold_removeOut:
  assumes "rg_sym g" and g': "g' = fold (\<lambda>n g. removeOutEdge x n g) ns g"
  shows "rg_sym g' \<and> rg_frame g g' \<and> rg_out g' = (rg_out g)(x := rg_out g x - set ns)"
  using assms(1) unfolding g'
proof (induction ns arbitrary: g)
  case Nil
  then show ?case by (simp add: rg_frame_def)
next
  case (Cons n ns)
  let ?g = "removeOutEdge x n g"
  have f: "fold (\<lambda>n g. removeOutEdge x n g) (n # ns) g = fold (\<lambda>n g. removeOutEdge x n g) ns ?g" by simp
  have eq: "(rg_out ?g)(x := rg_out ?g x - set ns) = (rg_out g)(x := rg_out g x - set (n # ns))" unfolding edge_ops(5) by (auto simp: fun_eq_iff)
  show ?case using Cons.IH [OF rg_sym_ops(3) [OF Cons.prems], of x n] rg_frame_trans [OF edge_ops(6)] unfolding f eq by blast
qed

text \<open>The edges after a release: those of the transaction and of the blocks it had are gone.\<close>

definition released_out :: "VER_t \<Rightarrow> LBIDResourceGraph \<Rightarrow> RGNode \<Rightarrow> RGNode set" where
  "released_out t g x =
     (if x = TxnNode t \<or> x \<in> ResNode ` rg_owns g t then {} else rg_out g x - ResNode ` rg_owns g t)"

lemma rg_owns_out: "rg_sym g \<Longrightarrow> rg_owns g t = {l. TxnNode t \<in> rg_out g (ResNode l)}"
  by (simp add: rg_owns_def rg_sym_def)

lemma rg_owns_resources:
  assumes "rg_inv g"
  shows "rg_owns g t \<subseteq> rg_resources g"
proof
  fix l assume "l \<in> rg_owns g t"
  then have "rg_out g (ResNode l) \<noteq> {}" using rg_owns_out [OF rg_invD(3) [OF assms]] by auto
  then show "l \<in> rg_resources g" using rg_invD(5) [OF assms, of l] by (auto simp: rg_res_ok_def split: if_splits)
qed

lemma rg_in_owns:
  assumes "rg_inv g"
  shows "rg_in g (TxnNode t) = ResNode ` rg_owns g t"
proof -
  have "x \<in> range ResNode" if "x \<in> rg_in g (TxnNode t)" for x
    using that rg_symD [OF rg_invD(3) [OF assms], of x "TxnNode t"] rg_invD(4) [OF assms] by (cases x) (auto simp: rg_txn_ok_def)
  then show ?thesis by (auto simp: rg_owns_def)
qed

lemma iterated_owns:
  assumes "rg_inv g" "iterates it"
  obtains ls where "it (rg_in g (TxnNode t)) = map ResNode ls" "set ls = rg_owns g t"
proof -
  have "finite (rg_owns g t)" using rg_owns_resources [OF assms(1)] rg_invD(1) [OF assms(1)] finite_subset by blast
  then have set: "set (it (rg_in g (TxnNode t))) = ResNode ` rg_owns g t" using assms(2) rg_in_owns [OF assms(1)] by (simp add: iterates_def)
  then have "\<forall>x \<in> set (it (rg_in g (TxnNode t))). \<exists>l. x = ResNode l" by auto
  then obtain ls where ls: "it (rg_in g (TxnNode t)) = map ResNode ls" unfolding ex_map_conv [symmetric] by blast
  have "ResNode ` set ls = ResNode ` rg_owns g t" using set ls by simp
  then have "set ls = rg_owns g t" by (auto simp: inj_image_eq_iff inj_def)
  then show ?thesis using that ls by blast
qed

text \<open>After the two loops of \<open>releaseResources\<close>.\<close>

lemma release_loops:
  assumes inv: "rg_inv g" and it: "iterates it"
    and g1: "g1 = fold (release_one it t) (it (rg_in g (TxnNode t))) g"
    and g2: "g2 = fold (\<lambda>n g. removeOutEdge (TxnNode t) n g) (it (rg_out g1 (TxnNode t))) g1"
  shows "rg_sym g2" "colors_le g g2" "dom (rg_txns g2) = dom (rg_txns g)" "rg_resources g2 = rg_resources g - rg_owns g t" "rg_out g2 = released_out t g"
proof -
  obtain ls where ls: "it (rg_in g (TxnNode t)) = map ResNode ls" "set ls = rg_owns g t" using iterated_owns [OF inv it] .
  have r1: "rg_sym g1" "colors_le g g1" "dom (rg_txns g1) = dom (rg_txns g)" "rg_resources g1 = rg_resources g - rg_owns g t"
      "rg_out g1 = (\<lambda>y. if y \<in> ResNode ` rg_owns g t then {} else rg_out g y - ResNode ` rg_owns g t)"
    using fold_release_ok [OF rg_invD(3) [OF inv] rg_inv_in_finite [OF inv] it, of g1 t ls] unfolding g1 ls by blast+
  have "rg_out g1 (TxnNode t) \<subseteq> ResNode ` rg_resources g" using rg_invD(4) [OF inv, of t] by (auto simp: r1(5) rg_txn_ok_def)
  then have "finite (rg_out g1 (TxnNode t))" using rg_invD(1) [OF inv] finite_subset by blast
  then have "set (it (rg_out g1 (TxnNode t))) = rg_out g1 (TxnNode t)" using it by (simp add: iterates_def)
  then have r2: "rg_sym g2" "rg_frame g1 g2" "rg_out g2 = (rg_out g1)(TxnNode t := {})"
    using fold_removeOut [OF r1(1) g2] by auto
  show "rg_sym g2" by (rule r2(1))
  show "rg_out g2 = released_out t g" unfolding r2(3) r1(5) by (auto simp: fun_eq_iff released_out_def)
  show "colors_le g g2" "dom (rg_txns g2) = dom (rg_txns g)" "rg_resources g2 = rg_resources g - rg_owns g t"
    using r2(2) r1(2-4) by (simp_all add: rg_frame_def colors_le_def)
qed

lemma die_wake_ok:
  "rg_sym (wake t (die t g)) = rg_sym g" "rg_out (wake t (die t g)) = rg_out g" "rg_resources (wake t (die t g)) = rg_resources g"
  "colors_le g (wake t (die t g))" "dom (rg_txns (wake t (die t g))) = dom (rg_txns g)"
  by (simp_all add: rg_sym_def die_def colors_le_def dom_wake) (auto simp: dom_def)

lemma delete_txn_ok:
  assumes "rg_sym g" "rg_out g (TxnNode t) = {}" "\<forall>l. TxnNode t \<notin> rg_out g (ResNode l)" "\<forall>u. TxnNode t \<notin> rg_out g (TxnNode u)"
    and g': "g' = delete_node (TxnNode t) (g\<lparr>rg_txns := (rg_txns g)(t := None)\<rparr>)"
  shows "rg_sym g'" "rg_out g' = rg_out g" "rg_resources g' = rg_resources g" "colors_le g g'" "dom (rg_txns g') = dom (rg_txns g) - {t}"
proof -
  let ?g = "g\<lparr>rg_txns := (rg_txns g)(t := None)\<rparr>"
  have s: "rg_sym ?g" using assms(1) by (simp add: rg_sym_def)
  then show "rg_sym g'" unfolding g' by (rule rg_sym_ops(5))
  have no: "rg_out g y - {TxnNode t} = rg_out g y" for y using assms(3,4) by (cases y) auto
  show "rg_out g' = rg_out g" unfolding g' rg_out_delete [OF s] using assms(2) by (auto simp: fun_eq_iff no)
  show "rg_resources g' = rg_resources g" "colors_le g g'" "dom (rg_txns g') = dom (rg_txns g) - {t}"
    by (auto simp: g' delete_node_def colors_le_def)
qed

lemma releaseResources_ok:
  assumes inv: "rg_inv g" and it: "iterates it" and t: "t \<in> dom (rg_txns g)" and g': "g' = releaseResources it t g"
  shows "rg_sym g'" "colors_le g g'" "rg_resources g' = rg_resources g - rg_owns g t" "rg_out g' = released_out t g"
    "dom (rg_txns g') = dom (rg_txns g) \<or> dom (rg_txns g') = dom (rg_txns g) - {t}"
proof -
  define g1 where "g1 = fold (release_one it t) (it (rg_in g (TxnNode t))) g"
  define g2 where "g2 = fold (\<lambda>n g. removeOutEdge (TxnNode t) n g) (it (rg_out g1 (TxnNode t))) g1"
  note r = release_loops [OF inv it g1_def g2_def]
  obtain n n2 where n: "rg_txns g t = Some n" "rg_txns g2 t = Some n2" using t r(3) by blast
  then have eq: "g' = (if tn_sleeping n2 then wake t (die t g2) else delete_node (TxnNode t) (g2\<lparr>rg_txns := (rg_txns g2)(t := None)\<rparr>))"
    by (simp add: g' releaseResources_def Let_def g1_def [symmetric] g2_def [symmetric])
  have own: "TxnNode t \<notin> rg_out g2 (ResNode l)" for l
    using rg_owns_out [OF rg_invD(3) [OF inv], of t] by (auto simp: r(5) released_out_def)
  have txn: "TxnNode t \<notin> rg_out g2 (TxnNode u)" "rg_out g2 (TxnNode t) = {}" for u
    using rg_invD(4) [OF inv, of u] by (auto simp: r(5) released_out_def rg_txn_ok_def)
  note d = delete_txn_ok [OF r(1) txn(2) _ _ refl]
  show "rg_sym g'" "colors_le g g'" "rg_resources g' = rg_resources g - rg_owns g t" "rg_out g' = released_out t g"
    "dom (rg_txns g') = dom (rg_txns g) \<or> dom (rg_txns g') = dom (rg_txns g) - {t}"
    using die_wake_ok [where t = t and g = g2] d own txn(1) r colors_le_trans [OF r(2)] unfolding eq by auto
qed

end
