(* ===== verification/RG_Theorems.thy ===== *)
theory RG_Theorems
  imports ResourceGraph
begin

text \<open>
  The resource graph under any interleaving of its calls: blocks have one owner, a call that
  returns 0 has got its range, transactions that sleep never wait for each other in a circle; and a
  sequence of calls after which a thread that wakes finds its transaction node deleted.
\<close>

section \<open>The invariant under a release\<close>

lemma releaseResources_inv:
  assumes inv: "rg_inv g" and it: "iterates it"
  shows "rg_inv (releaseResources it t g)"
proof (cases "t \<in> dom (rg_txns g)")
  case False
  then show ?thesis using inv by (simp add: releaseResources_def domIff)
next
  case True
  let ?g = "releaseResources it t g"
  note r = releaseResources_ok [OF inv it True refl]
  have own: "rg_owns g t = {l. TxnNode t \<in> rg_out g (ResNode l)}" using rg_owns_out [OF rg_invD(3) [OF inv]] .
  have dom: "u \<in> dom (rg_txns ?g)" if "u \<noteq> t" "u \<in> dom (rg_txns g)" for u using r(5) that by auto
  have "rg_txn_ok ?g u" for u
    using rg_invD(4) [OF inv, of u] dom [of u] by (auto simp: rg_txn_ok_def r(3,4) released_out_def)
  moreover have "rg_res_ok ?g l" for l
  proof (cases "l \<in> rg_resources ?g")
    case True
    then have l: "l \<in> rg_resources g" "TxnNode t \<notin> rg_out g (ResNode l)" by (auto simp: r(3) own)
    then obtain u where u: "u \<in> dom (rg_txns g)" "rg_out g (ResNode l) = {TxnNode u}" "ResNode l \<notin> rg_out g (TxnNode u)"
      using rg_invD(5) [OF inv, of l] by (auto simp: rg_res_ok_def)
    then show ?thesis using True l dom [of u] by (auto simp: rg_res_ok_def r(4) released_out_def own)
  next
    case False
    then show ?thesis using rg_invD(5) [OF inv, of l] by (auto simp: rg_res_ok_def r(3,4) released_out_def own)
  qed
  moreover have "rg_node_color ?g n \<le> rg_color ?g" for n
    using r(2) rg_invD(6) [OF inv, of n] by (auto simp: colors_le_def) (metis word_zero_le)
  moreover have "finite (dom (rg_txns ?g))" using r(5) rg_invD(2) [OF inv] by (metis finite_Diff)
  ultimately show ?thesis using r(1,3) rg_invD(1) [OF inv] by (simp add: rg_inv_def)
qed

section \<open>Calls in any order\<close>

text \<open>
  A state is a graph and the calls of \<open>reserveRange\<close> that sleep. A transaction has one call at a
  time, and starts none after it has been released while a call of it slept. A sleeping call may wake at
  any time, as condition variables allow it to.
\<close>

type_synonym rg_state = "LBIDResourceGraph \<times> (VER_t \<rightharpoonup> LBID_t \<times> LBID_t)"

inductive rg_step :: "rg_iter \<Rightarrow> rg_state \<Rightarrow> rg_state \<Rightarrow> bool" for it where
  begins: "pend t = None \<Longrightarrow> (\<And>n. rg_txns g t = Some n \<Longrightarrow> \<not> tn_die n) \<Longrightarrow> reserveRange it start end t g = Some (r, g') \<Longrightarrow>
     rg_step it (g, pend) (g', if r = None then pend(t \<mapsto> (start, end)) else pend)"
| wakes: "pend t = Some (start, end) \<Longrightarrow> reserve_wakes it start end t g = Some (r, g') \<Longrightarrow>
     rg_step it (g, pend) (g', if r = None then pend else pend(t := None))"
| releases: "rg_step it (g, pend) (releaseResources it t g, pend)"

text \<open>The edges between nodes that do not move by themselves: not those of a transaction that is running.\<close>

definition blocked_edges :: "rg_state \<Rightarrow> (RGNode \<times> RGNode) set" where
  "blocked_edges s = {(x, y). y \<in> rg_out (fst s) x \<and> (\<forall>t. x = TxnNode t \<longrightarrow> snd s t \<noteq> None)}"

definition dead_ok :: "LBIDResourceGraph \<Rightarrow> bool" where
  "dead_ok g \<longleftrightarrow> (\<forall>t n. rg_txns g t = Some n \<and> tn_die n \<longrightarrow> rg_out g (TxnNode t) = {} \<and> (\<forall>l. TxnNode t \<notin> rg_out g (ResNode l)))"

definition rg_ok :: "rg_state \<Rightarrow> bool" where
  "rg_ok s \<longleftrightarrow> rg_inv (fst s) \<and> dead_ok (fst s) \<and> acyclic (blocked_edges s)"

lemma acyclic_except:
  assumes "acyclic A" "\<And>a b. (a, b) \<in> B \<Longrightarrow> a \<noteq> x \<Longrightarrow> b \<noteq> x \<Longrightarrow> (a, b) \<in> A" "(x, x) \<notin> B\<^sup>+"
  shows "acyclic B"
proof -
  have split: "(u, v) \<in> A\<^sup>+ \<or> (u, x) \<in> B\<^sup>* \<and> (x, v) \<in> B\<^sup>*" if "(u, v) \<in> B\<^sup>+" for u v
    using that
  proof (induction rule: trancl_induct)
    case (base y)
    then show ?case using assms(2) [of u y] by blast
  next
    case (step y z)
    then have b: "(u, z) \<in> B\<^sup>*" "(u, y) \<in> B\<^sup>*" "(y, z) \<in> B\<^sup>*" by (auto intro: trancl_into_rtrancl)
    consider "y = x" | "z = x" | "(y, z) \<in> A" using assms(2) [of y z] step.hyps(2) by blast
    then show ?case
    proof cases
      case 3
      then show ?thesis using step.IH b(3) by (meson rtrancl_trans trancl.trancl_into_trancl)
    qed (use b in auto)
  qed
  show ?thesis
  proof (rule acyclicI, intro allI notI)
    fix v assume v: "(v, v) \<in> B\<^sup>+"
    have "(v, v) \<notin> A\<^sup>+" using assms(1) by (simp add: acyclic_def)
    then have "(v, x) \<in> B\<^sup>*" "(x, v) \<in> B\<^sup>*" using split [OF v] by auto
    then have "(x, x) \<in> B\<^sup>+" using v by (meson rtrancl_trancl_trancl trancl_rtrancl_trancl)
    then show False using assms(3) by blast
  qed
qed

text \<open>Only \<open>die\<close> marks a transaction, and only the destructor takes the mark away.\<close>

definition dies :: "LBIDResourceGraph \<Rightarrow> VER_t \<Rightarrow> bool option" where
  "dies g u = map_option tn_die (rg_txns g u)"

lemma dies_ops [simp]:
  "dies (addOutEdge x n g) = dies g" "dies (addInEdge x n g) = dies g" "dies (removeOutEdge x n g) = dies g" "dies (removeInEdge x n g) = dies g"
  "dies (delete_node x g) = dies g" "dies (wake t g) = dies g" "dies (sleep t g) = dies g" "dies (wake_node x g) = dies g"
  "dies (g\<lparr>rg_resources := R\<rparr>) = dies g" "dies (g\<lparr>rg_in := I\<rparr>) = dies g" "dies (g\<lparr>rg_color := c, rg_node_color := nc\<rparr>) = dies g"
  by (auto simp: dies_def fun_eq_iff addOutEdge_def addInEdge_def removeOutEdge_def removeInEdge_def delete_node_def wake_def sleep_def option.map_comp comp_def)
     (cases x; auto simp: wake_def option.map_comp comp_def)

lemma fold_dies: "(\<And>x g. dies (f x g) = dies g) \<Longrightarrow> dies (fold f xs g) = dies g"
  by (induction xs arbitrary: g) auto

lemma dies_connect [simp]: "dies (connectResources start end t g) = dies g"
  by (simp add: connectResources_def Let_def fold_dies wait_for_def)

lemma dies_release_one [simp]: "dies (release_one it t n g) = dies g"
  by (simp add: release_one_def wakeAndDetach_def Let_def fold_dies split: RGNode.splits)

lemma dies_reserve_loop: "reserve_loop it t g = Some (r, g') \<Longrightarrow> dies g' = dies g"
  by (auto simp: reserve_loop_def checkDeadlock_def Let_def split: if_splits)

lemma dies_releaseResources: "u \<noteq> t \<Longrightarrow> dies (releaseResources it t g) u = dies g u"
proof -
  assume u: "u \<noteq> t"
  have d: "dies (die t g') u = dies g' u" "dies (g'\<lparr>rg_txns := (rg_txns g')(t := None)\<rparr>) u = dies g' u" for g'
    using u by (simp_all add: dies_def die_def)
  show ?thesis
    by (auto simp: releaseResources_def Let_def d fold_dies split: option.splits)
qed

lemma dead_okD: "dead_ok g \<Longrightarrow> dies g t = Some True \<Longrightarrow> rg_out g (TxnNode t) = {} \<and> TxnNode t \<notin> rg_out g (ResNode l)"
  by (auto simp: dead_ok_def dies_def)

lemma dead_okI: "(\<And>t. dies g t = Some True \<Longrightarrow> rg_out g (TxnNode t) = {} \<and> (\<forall>l. TxnNode t \<notin> rg_out g (ResNode l))) \<Longrightarrow> dead_ok g"
  by (simp add: dead_ok_def dies_def)

lemma release_keeps:
  assumes ok: "rg_ok (g, pend)" and it: "iterates it"
  shows "rg_ok (releaseResources it t g, pend)" "rg_color (releaseResources it t g) = rg_color g"
proof -
  let ?g = "releaseResources it t g"
  from ok have inv: "rg_inv g" "dead_ok g" "acyclic (blocked_edges (g, pend))" by (simp_all add: rg_ok_def)
  have out: "rg_out ?g x \<subseteq> rg_out g x" for x
    using releaseResources_ok(4) [OF inv(1) it _ refl, of t]
    by (cases "t \<in> dom (rg_txns g)") (auto simp: released_out_def domIff releaseResources_def split: if_splits)
  have t: "rg_out ?g (TxnNode t) = {} \<and> (\<forall>l. TxnNode t \<notin> rg_out ?g (ResNode l))" if "dies ?g t = Some True"
  proof (cases "t \<in> dom (rg_txns g)")
    case True
    then show ?thesis using releaseResources_ok(4) [OF inv(1) it True refl] rg_owns_out [OF rg_invD(3) [OF inv(1)], of t]
      by (auto simp: released_out_def)
  next
    case False
    then show ?thesis using that by (auto simp: releaseResources_def domIff dies_def)
  qed
  have dead: "dead_ok ?g"
  proof (rule dead_okI)
    fix u assume u: "dies ?g u = Some True"
    show "rg_out ?g (TxnNode u) = {} \<and> (\<forall>l. TxnNode u \<notin> rg_out ?g (ResNode l))"
    proof (cases "u = t")
      case False
      then have "dies g u = Some True" using u dies_releaseResources [of u t it g] by simp
      then show ?thesis using dead_okD [OF inv(2), of u] out by blast
    qed (use t u in simp)
  qed
  have "blocked_edges (?g, pend) \<subseteq> blocked_edges (g, pend)" using out by (auto simp: blocked_edges_def)
  then show "rg_ok (?g, pend)" using dead releaseResources_inv [OF inv(1) it] acyclic_subset [OF inv(3)] by (simp add: rg_ok_def)
  show "rg_color ?g = rg_color g"
    using releaseResources_ok(2) [OF inv(1) it _ refl, of t] by (cases "t \<in> dom (rg_txns g)") (auto simp: colors_le_def releaseResources_def domIff)
qed

text \<open>A call, from its start or from its waking, in the states the other calls leave.\<close>

lemma reserve_result:
  assumes inv: "rg_inv g" and it: "iterates it" and t: "t \<in> dom (rg_txns g)" and col: "unat (rg_color g) + 2 < 2 ^ 64"
    and g1: "g1 = connectResources start end t g"
  shows "\<exists>r g'. reserve_loop it t g1 = Some (r, g') \<and> rg_inv g' \<and> rg_out g' = rg_out g1 \<and> unat (rg_color g') \<le> unat (rg_color g) + 2 \<and>
    r = (if rg_out g1 (TxnNode t) = {} then Some ERR_OK else if cycle_from (rg_out g1) (TxnNode t) then Some ERR_DEADLOCK else None)"
proof -
  note c = connectResources_ok [OF rg_invD(3) [OF inv] g1]
  have i: "rg_inv g1" unfolding g1 using connectResources_inv [OF inv t] .
  have "t \<in> dom (rg_txns g1)" "unat (rg_color g1) + 2 < 2 ^ 64" using t col c(2,4) by simp_all
  from reserve_loop_ok [OF i it this] show ?thesis unfolding c(2) by blast
qed

lemma connect_out:
  assumes "rg_inv g" "x \<noteq> TxnNode t" "y \<noteq> TxnNode t" "y \<in> rg_out (connectResources start end t g) x"
  shows "y \<in> rg_out g x"
  using connectResources_ok(6,7) [OF rg_invD(3) [OF assms(1)] refl, of start "end" t] assms(2-4) by (cases x) (auto split: if_splits)

lemma reserve_keeps:
  assumes ok: "rg_ok (g, pend)" and it: "iterates it" and t: "t \<in> dom (rg_txns g)" "dies g t \<noteq> Some True"
    and col: "unat (rg_color g) + 2 < 2 ^ 64" and res: "reserve_loop it t (connectResources start end t g) = Some (r, g')"
    and pend: "\<And>u. u \<noteq> t \<Longrightarrow> pend' u = pend u" "r \<noteq> None \<Longrightarrow> pend' t = None"
  shows "rg_ok (g', pend')" "unat (rg_color g') \<le> unat (rg_color g) + 2"
proof -
  let ?g1 = "connectResources start end t g"
  from ok have inv: "rg_inv g" "dead_ok g" "acyclic (blocked_edges (g, pend))" by (simp_all add: rg_ok_def)
  have r: "rg_inv g'" "rg_out g' = rg_out ?g1" "unat (rg_color g') \<le> unat (rg_color g) + 2"
    "r = None \<longrightarrow> \<not> cycle_from (rg_out ?g1) (TxnNode t)"
    using reserve_result [OF inv(1) it t(1) col refl, of start "end"] res by auto
  have "dead_ok g'"
  proof (rule dead_okI)
    fix u assume "dies g' u = Some True"
    then have d: "dies g u = Some True" using dies_reserve_loop [OF res] by simp
    then have u: "u \<noteq> t" using t(2) by blast
    then show "rg_out g' (TxnNode u) = {} \<and> (\<forall>l. TxnNode u \<notin> rg_out g' (ResNode l))"
      using connectResources_ok(6,7) [OF rg_invD(3) [OF inv(1)] refl, of start "end" t] dead_okD [OF inv(2) d] by (auto simp: r(2))
  qed
  moreover have "acyclic (blocked_edges (g', pend'))"
  proof (rule acyclic_except [OF inv(3), where x = "TxnNode t"])
    fix a b assume ab: "(a, b) \<in> blocked_edges (g', pend')" "a \<noteq> TxnNode t" "b \<noteq> TxnNode t"
    then have "b \<in> rg_out g a" using connect_out [OF inv(1) ab(2,3), of start "end"] by (simp add: blocked_edges_def r(2))
    moreover have "pend u \<noteq> None" if "a = TxnNode u" for u
      using ab(1,2) pend(1) [of u] that by (simp add: blocked_edges_def)
    ultimately show "(a, b) \<in> blocked_edges (g, pend)" by (simp add: blocked_edges_def)
  next
    show "(TxnNode t, TxnNode t) \<notin> (blocked_edges (g', pend'))\<^sup>+"
    proof (cases "r = None")
      case True
      have "blocked_edges (g', pend') \<subseteq> edges (rg_out ?g1)" by (auto simp: blocked_edges_def edges_def r(2))
      then show ?thesis using r(4) True trancl_mono [of _ "blocked_edges (g', pend')" "edges (rg_out ?g1)"] by (auto simp: cycle_from_def)
    next
      case False
      then have "(TxnNode t, y) \<notin> blocked_edges (g', pend')" for y using pend(2) by (simp add: blocked_edges_def)
      then show ?thesis by (metis tranclD)
    qed
  qed
  ultimately show "rg_ok (g', pend')" "unat (rg_color g') \<le> unat (rg_color g) + 2" using r(1,3) by (simp_all add: rg_ok_def)
qed

text \<open>What holds after at most \<open>n\<close> calls; each call may take two colors.\<close>

lemma new_graph_ok: "rg_ok (new_graph, Map.empty)"
  by (simp add: rg_ok_def new_graph_def rg_inv_def rg_sym_def rg_txn_ok_def rg_res_ok_def dead_ok_def blocked_edges_def acyclic_def)

lemma new_txn_keeps:
  assumes "rg_ok (g, pend)" "rg_txns g t = None"
  shows "rg_ok (g\<lparr>rg_txns := (rg_txns g)(t \<mapsto> \<lparr>tn_die = False, tn_sleeping = False\<rparr>)\<rparr>, pend)"
proof -
  let ?g = "g\<lparr>rg_txns := (rg_txns g)(t \<mapsto> \<lparr>tn_die = False, tn_sleeping = False\<rparr>)\<rparr>"
  from assms have inv: "rg_inv g" "dead_ok g" "acyclic (blocked_edges (g, pend))" by (simp_all add: rg_ok_def)
  have "rg_sym ?g" "rg_txn_ok ?g u" "rg_res_ok ?g l" for u l
    using rg_invD(3) [OF inv(1)] rg_invD(4) [OF inv(1), of u] rg_invD(5) [OF inv(1), of l] by (auto simp: rg_sym_def rg_txn_ok_def rg_res_ok_def)
  then have "rg_inv ?g" using inv(1) by (simp add: rg_inv_def)
  moreover have "dead_ok ?g" using inv(2) by (auto simp: dead_ok_def)
  moreover have "blocked_edges (?g, pend) = blocked_edges (g, pend)" by (simp add: blocked_edges_def)
  ultimately show ?thesis using inv(3) by (simp add: rg_ok_def)
qed

lemma killed_keeps:
  assumes "rg_ok (g, pend)" "dies g t = Some True" "\<And>u. u \<noteq> t \<Longrightarrow> pend' u = pend u"
  shows "rg_ok (delete_node (TxnNode t) (g\<lparr>rg_txns := (rg_txns g)(t := None)\<rparr>), pend')"
proof -
  let ?g = "delete_node (TxnNode t) (g\<lparr>rg_txns := (rg_txns g)(t := None)\<rparr>)"
  from assms have inv: "rg_inv g" "dead_ok g" "acyclic (blocked_edges (g, pend))" by (simp_all add: rg_ok_def)
  note e = dead_okD [OF inv(2) assms(2)]
  have x: "TxnNode t \<notin> rg_out g (TxnNode u)" for u using rg_invD(4) [OF inv(1), of u] by (auto simp: rg_txn_ok_def)
  note d = delete_txn_ok [OF rg_invD(3) [OF inv(1)], of t, OF _ _ _ refl]
  have d': "rg_sym ?g" "rg_out ?g = rg_out g" "rg_resources ?g = rg_resources g" "colors_le g ?g" "dom (rg_txns ?g) = dom (rg_txns g) - {t}"
    using d e x by blast+
  have "rg_txn_ok ?g u" "rg_res_ok ?g l" for u l
    using rg_invD(4) [OF inv(1), of u] rg_invD(5) [OF inv(1), of l] e [of l] by (auto simp: rg_txn_ok_def rg_res_ok_def d'(2,3,5))
  moreover have "rg_node_color ?g n \<le> rg_color ?g" for n
    using d'(4) rg_invD(6) [OF inv(1), of n] by (auto simp: colors_le_def) (metis word_zero_le)
  moreover have "finite (rg_resources ?g)" "finite (dom (rg_txns ?g))" using rg_invD(1,2) [OF inv(1)] d'(3,5) by simp_all
  ultimately have i: "rg_inv ?g" using d'(1) by (simp add: rg_inv_def)
  have "dies g u = Some True" if "dies ?g u = Some True" for u using that assms(2) by (cases "u = t") (simp_all add: dies_def)
  then have dead: "dead_ok ?g" using dead_okD [OF inv(2)] by (intro dead_okI) (simp add: d'(2))
  have "blocked_edges (?g, pend') \<subseteq> blocked_edges (g, pend)"
    using e assms(3) by (auto simp: blocked_edges_def d'(2)) (metis empty_iff)+
  then show ?thesis using i dead acyclic_subset [OF inv(3)] by (simp add: rg_ok_def)
qed

lemma rg_step_keeps:
  assumes "rg_step it s s'" "rg_ok s" "iterates it" "unat (rg_color (fst s)) + 2 < 2 ^ 64"
  shows "rg_ok s' \<and> unat (rg_color (fst s')) \<le> unat (rg_color (fst s)) + 2"
  using assms
proof (induction rule: rg_step.induct)
  case (begins pend t g start "end" r g')
  define g1 where "g1 = (if rg_txns g t = None then g\<lparr>rg_txns := (rg_txns g)(t \<mapsto> \<lparr>tn_die = False, tn_sleeping = False\<rparr>)\<rparr> else g)"
  have ok: "rg_ok (g1, pend)" "t \<in> dom (rg_txns g1)" "dies g1 t \<noteq> Some True" "rg_color g1 = rg_color g"
    using begins.prems(1) begins.hyps(2) new_txn_keeps [of g pend t] by (auto simp: g1_def dies_def)
  have res: "reserve_loop it t (connectResources start end t g1) = Some (r, g')" using begins.hyps(3) by (simp add: reserveRange_def g1_def)
  have col: "unat (rg_color g1) + 2 < 2 ^ 64" using begins.prems(3) ok(4) by simp
  show ?case using reserve_keeps [OF ok(1) begins.prems(2) ok(2,3) col res, of "if r = None then pend(t \<mapsto> (start, end)) else pend"]
    begins.hyps(1) ok(4) by auto
next
  case (wakes pend t start "end" g r g')
  then obtain n where n: "rg_txns g t = Some n" by (auto simp: reserve_wakes_def split: option.splits)
  let ?p = "if r = None then pend else pend(t := None)"
  show ?case
  proof (cases "tn_die n")
    case True
    then have d: "dies g t = Some True" using n by (simp add: dies_def)
    have g': "g' = delete_node (TxnNode t) (g\<lparr>rg_txns := (rg_txns g)(t := None)\<rparr>)"
      using wakes.hyps(2) n True by (simp add: reserve_wakes_def)
    have "rg_ok (g', ?p)" unfolding g' by (rule killed_keeps [OF wakes.prems(1) d]) auto
    moreover have "rg_color g' = rg_color g" by (simp add: g' delete_node_def)
    ultimately show ?thesis by simp
  next
    case False
    then have d: "dies g t \<noteq> Some True" "t \<in> dom (rg_txns g)" using n by (auto simp: dies_def)
    have res: "reserve_loop it t (connectResources start end t g) = Some (r, g')" using wakes.hyps(2) n False by (simp add: reserve_wakes_def)
    have col: "unat (rg_color g) + 2 < 2 ^ 64" using wakes.prems(3) by simp
    show ?thesis using reserve_keeps [OF wakes.prems(1,2) d(2,1) col res, of ?p] by auto
  qed
next
  case (releases g pend t)
  then show ?case using release_keeps [OF releases.prems(1,2), of t] by simp
qed

lemma rg_reachable_ok:
  assumes "(rg_step it ^^ n) (new_graph, Map.empty) s" "iterates it" "2 * n < 2 ^ 64"
  shows "rg_ok s \<and> unat (rg_color (fst s)) \<le> 2 * n"
  using assms(1,3)
proof (induction n arbitrary: s)
  case 0
  then show ?case using new_graph_ok by (auto simp: new_graph_def)
next
  case (Suc n)
  then obtain s1 where s1: "(rg_step it ^^ n) (new_graph, Map.empty) s1" "rg_step it s1 s" by auto
  then have "rg_ok s1 \<and> unat (rg_color (fst s1)) \<le> 2 * n" using Suc.IH [OF s1(1)] Suc.prems(2) by simp
  then show ?case using rg_step_keeps [OF s1(2) _ assms(2)] Suc.prems(2) by auto
qed

section \<open>Taking the graph down\<close>

lemma destroy_txn_txns: "rg_txns (destroy_txn t g) = (rg_txns g)(t := (case rg_txns g t of Some n \<Rightarrow> if tn_sleeping n then Some \<lparr>tn_die = True, tn_sleeping = False\<rparr> else None | None \<Rightarrow> None))"
  by (auto simp: destroy_txn_def wake_def die_def delete_node_def fun_eq_iff split: option.splits)

lemma fold_destroy_txns:
  assumes "distinct ts"
  shows "rg_txns (fold destroy_txn ts g) t =
    (if t \<in> set ts then (case rg_txns g t of Some n \<Rightarrow> if tn_sleeping n then Some \<lparr>tn_die = True, tn_sleeping = False\<rparr> else None | None \<Rightarrow> None) else rg_txns g t)"
  using assms by (induction ts arbitrary: g) (auto simp: destroy_txn_txns)

lemma fold_destroy_resources:
  "rg_txns (fold (\<lambda>l g. delete_node (ResNode l) (g\<lparr>rg_resources := rg_resources g - {l}\<rparr>)) ls g) = rg_txns g \<and>
   rg_resources (fold (\<lambda>l g. delete_node (ResNode l) (g\<lparr>rg_resources := rg_resources g - {l}\<rparr>)) ls g) = rg_resources g - set ls"
  by (induction ls arbitrary: g) (auto simp: delete_node_def)

lemma destroy_txn_resources: "rg_resources (fold destroy_txn ts g) = rg_resources g"
  by (induction ts arbitrary: g) (auto simp: destroy_txn_def wake_def die_def delete_node_def split: option.splits)

lemma destroy_graph_leaves_sleepers:
  assumes "rg_inv g"
  shows "rg_resources (destroy_graph g) = {}"
    and "rg_txns (destroy_graph g) t = (case rg_txns g t of Some n \<Rightarrow> if tn_sleeping n then Some \<lparr>tn_die = True, tn_sleeping = False\<rparr> else None | None \<Rightarrow> None)"
  using rg_invD(1,2) [OF assms]
  by (auto simp: destroy_graph_def Let_def fold_destroy_resources destroy_txn_resources fold_destroy_txns domIff split: option.splits)

section \<open>The properties\<close>

lemma owned_after_connect:
  assumes "rg_inv g" "rg_out (connectResources start end t g) (TxnNode t) = {}"
  shows "{start..end} \<subseteq> rg_owns (connectResources start end t g) t"
proof
  fix l assume l: "l \<in> {start..end}"
  note c = connectResources_ok [OF rg_invD(3) [OF assms(1)] refl, of start "end" t]
  have "l \<notin> new_waits start end t g" using assms(2) c(6) [of t] by auto
  then have "TxnNode t \<in> rg_out (connectResources start end t g) (ResNode l)" using l c(7) [of l] by (auto simp: new_waits_def new_owned_def)
  then show "l \<in> rg_owns (connectResources start end t g) t" using rg_owns_out [OF c(1)] by blast
qed

text \<open>
  C38. After any sequence of calls of the resource graph, by any transactions in any order, a call of
  \<open>reserveRange\<close> comes to an end or sleeps, and which of the two depends on the graph alone: it
  returns 0 when the transaction waits for nothing, and then the whole range is its own; it returns
  ERR_DEADLOCK exactly when it would wait and a circle can be reached from it; otherwise it sleeps.
\<close>

theorem reserveRange_outcome:
  assumes "(rg_step it ^^ n) (new_graph, Map.empty) (g, pend)" "iterates it" "2 * n + 2 < 2 ^ 64"
  shows "\<exists>r g'. reserveRange it start end t g = Some (r, g') \<and>
    (r = Some ERR_OK \<longleftrightarrow> rg_waits g' t = {}) \<and> (r = Some ERR_OK \<longrightarrow> {start..end} \<subseteq> rg_owns g' t) \<and>
    (r = Some ERR_DEADLOCK \<longleftrightarrow> rg_waits g' t \<noteq> {} \<and> cycle_from (rg_out g') (TxnNode t)) \<and>
    (r = None \<longleftrightarrow> rg_waits g' t \<noteq> {} \<and> \<not> cycle_from (rg_out g') (TxnNode t))"
proof -
  have ok: "rg_ok (g, pend)" "unat (rg_color g) + 2 < 2 ^ 64" using rg_reachable_ok [OF assms(1,2)] assms(3) by auto
  define g1 where "g1 = (if rg_txns g t = None then g\<lparr>rg_txns := (rg_txns g)(t \<mapsto> \<lparr>tn_die = False, tn_sleeping = False\<rparr>)\<rparr> else g)"
  let ?g2 = "connectResources start end t g1"
  have g1: "rg_inv g1" "t \<in> dom (rg_txns g1)" "unat (rg_color g1) + 2 < 2 ^ 64"
    using ok new_txn_keeps [of g pend t] by (auto simp: g1_def rg_ok_def)
  from reserve_result [OF g1(1) assms(2) g1(2,3) refl, of start "end"] obtain r g' where
    r: "reserve_loop it t ?g2 = Some (r, g')" "rg_inv g'" "rg_out g' = rg_out ?g2"
      "r = (if rg_out ?g2 (TxnNode t) = {} then Some ERR_OK else if cycle_from (rg_out ?g2) (TxnNode t) then Some ERR_DEADLOCK else None)"
    by blast
  have w: "rg_out ?g2 (TxnNode t) = {} \<longleftrightarrow> rg_waits g' t = {}"
    using rg_invD(4) [OF r(2), of t] by (auto simp: rg_waits_def rg_txn_ok_def r(3))
  have own: "rg_owns g' t = rg_owns ?g2 t"
    using rg_owns_out [OF rg_invD(3) [OF r(2)]] rg_owns_out [OF rg_invD(3) [OF connectResources_inv [OF g1(1,2)]]] r(3) by simp
  have val: "r = (if rg_waits g' t = {} then Some ERR_OK else if cycle_from (rg_out g') (TxnNode t) then Some ERR_DEADLOCK else None)"
    unfolding r(3) w [symmetric] by (rule r(4))
  have ne: "ERR_OK \<noteq> ERR_DEADLOCK" by (simp add: ERR_OK_def ERR_DEADLOCK_def)
  have "{start..end} \<subseteq> rg_owns g' t" if "rg_waits g' t = {}" using owned_after_connect [OF g1(1), of start "end" t] w that own by simp
  moreover have "reserveRange it start end t g = Some (r, g')" using r(1) by (simp add: reserveRange_def g1_def)
  ultimately show ?thesis using val ne by (intro exI [of _ r] exI [of _ g'] conjI) (simp_all split: if_splits)
qed

definition it_sorted :: rg_iter where
  "it_sorted S = map TxnNode (sorted_list_of_set (TxnNode -` S)) @ map ResNode (sorted_list_of_set (ResNode -` S))"

lemma iterates_it_sorted: "iterates it_sorted"
proof -
  have "set (it_sorted S) = S \<and> distinct (it_sorted S)" if "finite S" for S
  proof -
    have "finite (TxnNode -` S)" "finite (ResNode -` S)" using that by (auto intro: finite_vimageI simp: inj_def)
    moreover have "x \<in> TxnNode ` (TxnNode -` S) \<or> x \<in> ResNode ` (ResNode -` S)" if "x \<in> S" for x using that by (cases x) auto
    ultimately show ?thesis by (auto simp: it_sorted_def distinct_map inj_on_def)
  qed
  then show ?thesis by (simp add: iterates_def)
qed

text \<open>Witness: transaction 7 reserves the blocks 1 to 3 of an empty graph.\<close>

theorem reserveRange_outcome_witness:
  "\<exists>r g'. reserveRange it_sorted 1 3 7 new_graph = Some (r, g') \<and> (r = Some ERR_OK \<longrightarrow> {1..3} \<subseteq> rg_owns g' 7)"
  using reserveRange_outcome [of 0 it_sorted new_graph Map.empty 1 3 7] iterates_it_sorted by auto

lemma blocked_leads:
  assumes inv: "rg_inv g" and ac: "acyclic (blocked_edges (g, pend))"
  shows "\<exists>u. (TxnNode t, TxnNode u) \<in> (blocked_edges (g, pend))\<^sup>* \<and> (pend u = None \<or> rg_waits g u = {})"
proof -
  let ?B = "blocked_edges (g, pend)"
  have out: "rg_out g (TxnNode v) = ResNode ` rg_waits g v" "rg_waits g v \<subseteq> rg_resources g" for v
    using rg_invD(4) [OF inv, of v] by (auto simp: rg_txn_ok_def rg_waits_def)
  have res: "\<exists>v \<in> dom (rg_txns g). rg_out g (ResNode l) = {TxnNode v}" if "l \<in> rg_resources g" for l
    using rg_invD(5) [OF inv, of l] that by (auto simp: rg_res_ok_def)
  have none: "rg_out g (ResNode l) = {}" if "l \<notin> rg_resources g" for l using rg_invD(5) [OF inv, of l] that by (simp add: rg_res_ok_def)
  have "(x, y) \<in> rg_nodes g \<times> rg_nodes g" if "y \<in> rg_out g x" for x y
  proof -
    have "x \<in> rg_nodes g" using that rg_invD(4) [OF inv] none by (cases x) (force simp: rg_nodes_def rg_txn_ok_def)+
    then show ?thesis using that rg_nodes_closed(2) [OF inv] by blast
  qed
  then have "?B \<subseteq> rg_nodes g \<times> rg_nodes g" by (auto simp: blocked_edges_def)
  then have "finite ?B" using rg_nodes_closed(1) [OF inv] finite_subset by blast
  then have wf: "wf (?B\<inverse>)" using finite_acyclic_wf_converse ac by blast
  have "\<exists>u. (x, TxnNode u) \<in> ?B\<^sup>* \<and> (pend u = None \<or> rg_waits g u = {})" if "x \<in> range TxnNode \<union> ResNode ` rg_resources g" for x
    using wf that
  proof (induction x rule: wf_induct_rule)
    case (less x)
    have step: ?case if "(x, y) \<in> ?B" "y \<in> range TxnNode \<union> ResNode ` rg_resources g" for y
      using less.IH [of y] that by (meson converse_iff converse_rtrancl_into_rtrancl)
    show ?case
    proof (cases x)
      case (TxnNode v)
      then consider "pend v = None \<or> rg_waits g v = {}" | l where "pend v \<noteq> None" "l \<in> rg_waits g v" by blast
      then show ?thesis
      proof cases
        case 2
        then show ?thesis using step [of "ResNode l"] TxnNode out [of v] by (auto simp: blocked_edges_def)
      qed (use TxnNode in blast)
    next
      case (ResNode l)
      then obtain v where "rg_out g (ResNode l) = {TxnNode v}" using res less.prems by auto
      then show ?thesis using step [of "TxnNode v"] ResNode by (simp add: blocked_edges_def)
    qed
  qed
  then show ?thesis by blast
qed


text \<open>
  Witness: transaction 1 has block 5, and transaction 2 sleeps in a call for it.
\<close>

lemma it_one: "iterates it \<Longrightarrow> it {} = [] \<and> it {x} = [x]"
proof -
  assume it: "iterates it"
  have "set (it {}) = {}" "set (it {x}) = {x}" "distinct (it {x})" using it by (simp_all add: iterates_def)
  moreover from this(2,3) have "length (it {x}) = 1" using distinct_card [of "it {x}"] by simp
  ultimately show ?thesis by (cases "it {x}") auto
qed

definition rg_held :: LBIDResourceGraph where
  "rg_held = \<lparr>rg_color = 0, rg_txns = [1 \<mapsto> \<lparr>tn_die = False, tn_sleeping = False\<rparr>], rg_resources = {5},
     rg_out = (\<lambda>_. {})(ResNode 5 := {TxnNode 1}), rg_in = (\<lambda>_. {})(TxnNode 1 := {ResNode 5}), rg_node_color = (\<lambda>_. 0)\<rparr>"

definition rg_waiting :: LBIDResourceGraph where
  "rg_waiting = \<lparr>rg_color = 2, rg_txns = [1 \<mapsto> \<lparr>tn_die = False, tn_sleeping = False\<rparr>, 2 \<mapsto> \<lparr>tn_die = False, tn_sleeping = True\<rparr>],
     rg_resources = {5}, rg_out = (\<lambda>_. {})(ResNode 5 := {TxnNode 1}, TxnNode 2 := {ResNode 5}),
     rg_in = (\<lambda>_. {})(TxnNode 1 := {ResNode 5}, ResNode 5 := {TxnNode 2}),
     rg_node_color = (\<lambda>_. 0)(TxnNode 1 := 2, ResNode 5 := 2, TxnNode 2 := 2)\<rparr>"

lemma held_reached: "reserveRange it 5 5 1 new_graph = Some (Some ERR_OK, rg_held)"
  by (simp add: reserveRange_def new_graph_def connectResources_def reserve_loop_def addInEdge_def rg_held_def fun_eq_iff upto_single)

lemma dfs_unfold:
  "dfs_loop it out gray black [] col = Some (False, col)"
  "col n \<noteq> black \<Longrightarrow> col n \<noteq> gray \<Longrightarrow> dfs_loop it out gray black (n # ns) col =
     Option.bind (dfs_loop it out gray black (it (out n)) (col(n := gray))) (\<lambda>(found, col1).
       if found then Some (True, col1) else dfs_loop it out gray black ns (col1(n := black)))"
  by (subst dfs_loop.simps, simp)+

lemma waiting_dfs:
  fixes out
  assumes "iterates it" and out: "out = (\<lambda>_. {})(ResNode 5 := {TxnNode 1}, TxnNode 2 := {ResNode 5})"
  shows "DFSStep it out 1 2 (TxnNode 2) (\<lambda>_. 0) = Some (False, (\<lambda>_. 0)(TxnNode 1 := 2, ResNode 5 := 2, TxnNode 2 := 2))"
proof -
  have i: "it {} = []" "it {x} = [x]" for x using it_one [OF assms(1)] by blast+
  have o: "out (TxnNode 2) = {ResNode 5}" "out (ResNode 5) = {TxnNode 1}" "out (TxnNode 1) = {}" by (simp_all add: out)
  have a: "dfs_loop it out 1 2 [TxnNode 1] ((\<lambda>_. 0)(TxnNode 2 := 1, ResNode 5 := 1)) = Some (False, (\<lambda>_. 0)(TxnNode 2 := 1, ResNode 5 := 1, TxnNode 1 := 2))"
    by (simp add: dfs_unfold o i)
  have b: "dfs_loop it out 1 2 [ResNode 5] ((\<lambda>_. 0)(TxnNode 2 := 1)) = Some (False, (\<lambda>_. 0)(TxnNode 2 := 1, ResNode 5 := 1, TxnNode 1 := 2, ResNode 5 := 2))"
    by (simp add: dfs_unfold o i a)
  show ?thesis by (simp add: DFSStep_def o i b)
qed

lemma waiting_reached:
  assumes "iterates it"
  shows "reserveRange it 5 5 2 rg_held = Some (None, rg_waiting)"
proof -
  let ?g = "rg_held\<lparr>rg_txns := [1 \<mapsto> \<lparr>tn_die = False, tn_sleeping = False\<rparr>, 2 \<mapsto> \<lparr>tn_die = False, tn_sleeping = False\<rparr>],
     rg_out := (\<lambda>_. {})(ResNode 5 := {TxnNode 1}, TxnNode 2 := {ResNode 5}), rg_in := (\<lambda>_. {})(TxnNode 1 := {ResNode 5}, ResNode 5 := {TxnNode 2})\<rparr>"
  have c: "reserveRange it 5 5 2 rg_held = reserve_loop it 2 ?g"
    by (simp add: reserveRange_def rg_held_def connectResources_def wait_for_def addOutEdge_def)
  have "checkDeadlock it 2 ?g = Some (False, ?g\<lparr>rg_color := 2, rg_node_color := (\<lambda>_. 0)(TxnNode 1 := 2, ResNode 5 := 2, TxnNode 2 := 2)\<rparr>)"
    using waiting_dfs [OF assms refl] by (simp add: checkDeadlock_def rg_held_def)
  then show ?thesis unfolding c reserve_loop_def by (simp add: rg_held_def rg_waiting_def sleep_def)
qed

lemma waiting_steps:
  assumes "iterates it"
  shows "(rg_step it ^^ 2) (new_graph, Map.empty) (rg_waiting, [2 \<mapsto> (5, 5)])"
proof -
  have "rg_step it (new_graph, Map.empty) (rg_held, Map.empty)"
    using rg_step.begins [OF _ _ held_reached, of Map.empty] by (simp add: new_graph_def)
  moreover have "rg_step it (rg_held, Map.empty) (rg_waiting, [2 \<mapsto> (5, 5)])"
    using rg_step.begins [OF _ _ waiting_reached [OF assms], of Map.empty] by (simp add: rg_held_def)
  ultimately show ?thesis by (auto simp: numeral_2_eq_2)
qed


definition rg_released :: LBIDResourceGraph where
  "rg_released = \<lparr>rg_color = 2, rg_txns = [2 \<mapsto> \<lparr>tn_die = False, tn_sleeping = False\<rparr>], rg_resources = {}, rg_out = (\<lambda>_. {}), rg_in = (\<lambda>_. {}),
     rg_node_color = (\<lambda>_. 0)(TxnNode 2 := 2)\<rparr>"

lemma first_release:
  assumes "iterates it"
  shows "releaseResources it 1 rg_waiting = rg_released"
proof -
  have i: "it {} = []" "it {x} = [x]" for x using it_one [OF assms] by blast+
  have w: "wakeAndDetach it 5 rg_waiting = rg_waiting\<lparr>rg_txns := [1 \<mapsto> \<lparr>tn_die = False, tn_sleeping = False\<rparr>, 2 \<mapsto> \<lparr>tn_die = False, tn_sleeping = False\<rparr>],
      rg_out := (\<lambda>_. {})(ResNode 5 := {TxnNode 1}), rg_in := (\<lambda>_. {})(TxnNode 1 := {ResNode 5})\<rparr>"
    by (simp add: wakeAndDetach_def i rg_waiting_def removeInEdge_def wake_def) (simp add: fun_eq_iff)
  have r: "release_one it 1 (ResNode 5) rg_waiting = rg_released\<lparr>rg_txns := [1 \<mapsto> \<lparr>tn_die = False, tn_sleeping = False\<rparr>, 2 \<mapsto> \<lparr>tn_die = False, tn_sleeping = False\<rparr>],
      rg_node_color := (\<lambda>_. 0)(TxnNode 1 := 2, TxnNode 2 := 2)\<rparr>"
    unfolding release_one_def RGNode.case Let_def w by (simp add: removeInEdge_def delete_node_def rg_waiting_def rg_released_def fun_eq_iff)
  have n: "rg_in rg_waiting (TxnNode 1) = {ResNode 5}" "rg_txns rg_waiting 1 = Some \<lparr>tn_die = False, tn_sleeping = False\<rparr>"
    by (simp_all add: rg_waiting_def)
  show ?thesis unfolding releaseResources_def n i
    by (simp add: r) (simp add: rg_released_def i delete_node_def fun_eq_iff)
qed

lemma second_release:
  assumes "iterates it"
  shows "rg_txns (releaseResources it 2 rg_released) 2 = None"
  using it_one [OF assms] by (simp add: releaseResources_def rg_released_def delete_node_def)

text \<open>
  C40. A call that has been woken but has not run yet does not protect its transaction's node: the two releases of the owner and of
  the waiting transaction, in this order, delete the node, and the thread that wakes then has no node to look at.
  \<open>releaseResources\<close> asks whether the transaction sleeps, and \<open>wake\<close> has already said that it does not.
\<close>

theorem woken_node_deleted:
  assumes "iterates it"
  shows "\<exists>g. (rg_step it ^^ 4) (new_graph, Map.empty) (g, [2 \<mapsto> (5, 5)]) \<and> reserve_wakes it 5 5 2 g = None"
proof -
  let ?g = "releaseResources it 2 rg_released"
  have "rg_step it (rg_waiting, p) (rg_released, p)" "rg_step it (rg_released, p) (?g, p)" for p
    using rg_step.releases [of it rg_waiting p 1] first_release [OF assms] rg_step.releases by simp_all
  then have "(rg_step it ^^ (2 + 2)) (new_graph, Map.empty) (?g, [2 \<mapsto> (5, 5)])"
    unfolding relpowp_add using waiting_steps [OF assms] by (auto simp: numeral_2_eq_2)
  moreover have "reserve_wakes it 5 5 2 ?g = None" using second_release [OF assms] by (simp add: reserve_wakes_def)
  ultimately show ?thesis by auto
qed

theorem woken_node_deleted_witness:
  "\<exists>g. (rg_step it_sorted ^^ 4) (new_graph, Map.empty) (g, [2 \<mapsto> (5, 5)]) \<and> reserve_wakes it_sorted 5 5 2 g = None"
  by (rule woken_node_deleted [OF iterates_it_sorted])

end
