(* ===== verification/Spec2Isabelle.thy ===== *)
theory Spec2Isabelle
  imports Table_Theorems CopyLock_Theorems EM_Image RG_Theorems
begin

text \<open>
  A verification of the Block Resolution Manager of InfiniDB (\<open>src/versioning/BRM\<close>).

  \<^bold>\<open>The program.\<close> The Block Resolution Manager keeps the shared-memory tables that map logical
  block ids to files and that say which versions of a block exist. The version substitution
  structure (VSS, \<open>vss.cpp\<close>) knows, for a block and a version, whether the block's bytes are in
  the version buffer and whether a running transaction has it locked. The version buffer block
  map (VBBM, \<open>vbbm.cpp\<close>) knows where in which version buffer file such a block is, and allocates
  the space round robin. The copy locks (\<open>copylocks.cpp\<close>) keep readers and the copying of blocks
  into the version buffer apart. The extent map (\<open>extentmap.cpp\<close>) says which range of blocks is
  which part of which segment file, and keeps the free blocks. All four live in segments of
  shared memory, are changed under an undo log (\<open>undoable.cpp\<close>), and are driven by the worker node
  (\<open>slavedbrmnode.cpp\<close>). The resource graph (\<open>lbidresourcegraph.cpp\<close>) lets transactions reserve
  ranges of blocks and finds deadlocks.

  \<^bold>\<open>Conventions.\<close> \<open>BRM_Prelude\<close> has the outcome of a C++ function: undefined behaviour or no
  return, an exception, or a value; and the loop combinators. A class is a record, a method a
  function from the object to an outcome and the new object. Block ids and versions are integers;
  arithmetic that can leave its width has the conversion written out (\<open>u32_of\<close>, \<open>s32_of\<close>,
  \<open>u64_of\<close>), and hashes, value bounds and colors are machine words. A segment is found by its key:
  an undo record carries the key of the segment it points into, and applying it to another segment
  is undefined. \<open>Shm\<close> has the keys (\<open>shmkeys.cpp\<close>) and descriptors (\<open>mastersegmenttable.h\<close>).

  \<^bold>\<open>Hashing.\<close> \<open>Hasher\<close> translates \<open>utils/common/hasher.h\<close>; hashing in pieces agrees with hashing
  at once, and the hash of one word is injective.

  \<^bold>\<open>The version tables.\<close> \<open>VSS\<close> and \<open>VBBM\<close> translate \<open>vss.cpp\<close> and \<open>vbbm.cpp\<close>. \<open>Hash_Chain\<close> has the
  table both classes share, linked lists inside an array, and its locale, interpreted on both
  tables. \<open>VSS_Props\<close>, \<open>VBBM_Props\<close>: the invariant, the finite map a table stands for, insertion and growth.
  \<open>VSS_Read\<close>, \<open>VSS_Write\<close>, \<open>VSS_Txn\<close>, \<open>VBBM_Write\<close>, \<open>VBBM_Blocks\<close>, \<open>VBBM_Image\<close>, \<open>VSS_VBBM\<close>: reading,
  removal, commit, allocation of version buffer space, the saved image, the consistency
  checks, and the undo records of each operation. \<open>Table_Theorems\<close> has the theorems: every operation refines an
  operation on finite maps, queries see the newest version they may see, undo restores the tables,
  saved tables load, the consistency checks decide the invariant, and growth of a
  VBBM loses entries unless the used slots come first.

  \<^bold>\<open>The worker node.\<close> \<open>SlaveNode\<close> translates the version buffer operations of \<open>slavedbrmnode.cpp\<close>
  (\<open>writeVBEntry\<close>, \<open>beginVBCopy\<close>, \<open>endVBCopy\<close>, \<open>vbCommit\<close>, \<open>vbRollback\<close>), \<open>CopyLocks\<close> the copy locks.
  \<open>SlaveNode_Props\<close>, \<open>SlaveNode_Theorems\<close> and \<open>CopyLock_Theorems\<close>: the version protocol of a block, kept by recording,
  commit, rollback and allocation; rollback gives back the tables; a reader of an old version is sent to the
  copy in the version buffer; \<open>beginVBCopy\<close> returns with its ranges locked. What other
  readers do to the locks while the node sleeps is a parameter, as is the number of passes of the retry loop.

  \<^bold>\<open>The extent map.\<close> \<open>ExtentMap\<close> has the tables, segments and undo log of \<open>extentmap.cpp\<close>. \<open>EM_Casual\<close>: the
  value ranges queries use to skip extents. \<open>EM_Lookup\<close>: from blocks to files and back, high water marks.
  \<open>EM_Space\<close>: the free list and deletion; every unit of 1024 blocks is owned exactly once. \<open>EM_Create\<close>: creation of extents, one
  column or a stripe at a time, in places that are new and within the configured layout. \<open>EM_Rollback\<close>: rollback to
  given marks. \<open>EM_Partition\<close>: disabling, enabling and dropping logical partitions. \<open>EM_Image\<close>: \<open>save\<close>, \<open>load\<close> and
  \<open>checkConsistency\<close>, which ends, and decides consistency but for lengths that wrap to 0 in 32 bits. What the
  system configuration answers (\<open>checkReloadConfig\<close>, \<open>OamCache\<close>) is a parameter.

  \<^bold>\<open>The resource graph.\<close> \<open>ResourceGraph\<close> translates \<open>lbidresourcegraph.cpp\<close> and its nodes. The order in which a set of
  pointers is walked is a parameter, with the hypothesis that it lists each element once.
  \<open>reserveRange\<close> is cut where its thread sleeps, and \<open>RG_Theorems\<close> lets the calls of all transactions
  interleave there: blocks have one owner, sleeping calls never wait in a circle, the search for a
  circle is exact; and a woken transaction can lose its node. A search takes two of the \<open>2 ^ 64\<close> colors, which bounds the number of calls.

  \<^bold>\<open>Loops.\<close> No definition has fuel. Loops that need not end are partial functions whose value is None
  then, and each is proved to return where the code relies on it: the walk along a chain of slots (\<open>for_chain\<close>, for the
  chains of a table with its invariant), the gathering of version buffer ranges (\<open>vb_gather\<close>), the depth first
  search (\<open>dfs_loop\<close>) and the first test of \<open>checkConsistency\<close> (\<open>test_1b\<close>).

  \<^bold>\<open>Not modelled.\<close> Locks between processes (\<open>rwlock\<close>), attaching of segments and file
  access (\<open>brmshmimpl.cpp\<close>, \<open>mastersegmenttable.cpp\<close>): operating system calls; a
  process holds the write lock of a table while it works on it, so the operations are sequential. The master node,
  the client and their messages (\<open>masterdbrmnode.cpp\<close>, \<open>dbrm.cpp\<close>, \<open>slavecomm.cpp\<close>): socket traffic that
  dispatches to the operations here. The transaction, table lock, sequence and object id servers. The
  rest of the repository (query execution, the write engine, administration) is outside this development.
\<close>

end
